(* ===== verification/OB_Prelude.thy ===== *)
theory OB_Prelude
  imports Main "HOL-Library.Word" "HOL-Library.Monad_Syntax"
begin

unbundle bit_operations_syntax

text \<open>
  Shared vocabulary of the development: the machine integer types, the arithmetic methods of
  Rust's integers that the sources call, fixed-size vectors with checked indexing, and the list
  vocabulary (first or default, last or default, doubly linked segments) in which the arenas and
  the intrusive queues are specified.

  Outcomes. A run of the Rust code either returns, aborts (an index out of bounds panics, and the
  release profile aborts on panic) or never returns (a probe loop over a table with no free slot).
  A model function that can do either of the latter has an \<open>option\<close> result, and \<open>None\<close> stands for
  the runs that do not return normally. Rust's \<open>Result<T, E>\<close> is the sum \<open>E + T\<close>.

  Arithmetic follows the release profile of \<open>Cargo.toml\<close>: \<open>+\<close>, \<open>-\<close> and \<open>*\<close> on unsigned integers
  wrap around, which is what the operations of \<open>'n word\<close> do.
\<close>

section \<open>Machine integers\<close>

type_synonym u8 = "8 word"
type_synonym u16 = "16 word"
type_synonym u32 = "32 word"
type_synonym u64 = "64 word"

named_theorems ob_simps \<open>equations that evaluate an order's constructors and accessors\<close>

definition sat_sub :: "'n::len word \<Rightarrow> 'n word \<Rightarrow> 'n word" where
  "sat_sub a b = (if b \<le> a then a - b else 0)"

definition sat_mul :: "'n::len word \<Rightarrow> 'n word \<Rightarrow> 'n word" where
  "sat_mul a b = (if unat a * unat b < 2 ^ LENGTH('n) then a * b else - 1)"

definition sat_add :: "'n::len word \<Rightarrow> 'n word \<Rightarrow> 'n word" where
  "sat_add a b = (if unat a + unat b < 2 ^ LENGTH('n) then a + b else - 1)"

definition checked_mul :: "'n::len word \<Rightarrow> 'n word \<Rightarrow> 'n word option" where
  "checked_mul a b = (if unat a * unat b < 2 ^ LENGTH('n) then Some (a * b) else None)"

lemma unat_minus_one: "unat (- 1 :: 'n::len word) = 2 ^ LENGTH('n) - 1"
  by (simp add: unsigned_minus_1_eq_mask mask_eq_exp_minus_1)

lemma unat_lt64: "unat (w :: u64) < 2 ^ 64"
  using unsigned_less [of w] by simp

lemma unat_sat_sub: "unat (sat_sub a b) = unat a - unat b"
  by (auto simp: sat_sub_def unat_sub word_le_nat_alt)

lemma unat_mult_small:
  "unat a * unat b < 2 ^ LENGTH('n) \<Longrightarrow> unat (a * b) = unat a * unat (b :: 'n::len word)"
  by (simp add: unat_word_ariths)

lemma unat_add_small:
  "unat a + unat b < 2 ^ LENGTH('n) \<Longrightarrow> unat (a + b) = unat a + unat (b :: 'n::len word)"
  by (simp add: unat_word_ariths)

lemma unat_sat_mul:
  "unat (sat_mul a b) = min (unat a * unat b) (2 ^ LENGTH('n) - 1)" for a :: "'n::len word"
  by (auto simp: sat_mul_def unat_mult_small unat_minus_one)

lemma unat_sat_add:
  "unat (sat_add a b) = min (unat a + unat b) (2 ^ LENGTH('n) - 1)" for a :: "'n::len word"
  by (auto simp: sat_add_def unat_add_small unat_minus_one)

lemma sat_sub_le: "b \<le> a \<Longrightarrow> sat_sub a b = a - b"
  by (simp add: sat_sub_def)

lemma checked_mul_Some:
  "checked_mul a b = Some c \<Longrightarrow> unat c = unat a * unat b"
  by (auto simp: checked_mul_def unat_mult_small split: if_splits)

lemma checked_mul_sat_mul: "checked_mul a b = Some c \<Longrightarrow> sat_mul a b = c"
  by (auto simp: checked_mul_def sat_mul_def split: if_splits)

section \<open>Vectors of a fixed length\<close>

text \<open>
  A \<open>Vec\<close> that never changes its length after its construction, with checked indexing: reading or
  writing outside panics. The elements are a function on the indices, so that an arena of 131072
  nodes or a table of 262144 slots is built, read and updated by the simplifier without a list of
  that length.
\<close>

datatype 'a vec = Vec (vlen: nat) (vfun: "nat \<Rightarrow> 'a")

definition vget :: "'a vec \<Rightarrow> nat \<Rightarrow> 'a option" where
  "vget v i = (if i < vlen v then Some (vfun v i) else None)"

definition vset :: "'a vec \<Rightarrow> nat \<Rightarrow> 'a \<Rightarrow> 'a vec option" where
  "vset v i x = (if i < vlen v then Some (Vec (vlen v) ((vfun v)(i := x))) else None)"

definition vmod :: "'a vec \<Rightarrow> nat \<Rightarrow> ('a \<Rightarrow> 'a) \<Rightarrow> 'a vec option" where
  "vmod v i f = do { x \<leftarrow> vget v i; vset v i (f x) }"

definition vupd :: "'a vec \<Rightarrow> nat \<Rightarrow> ('a \<Rightarrow> 'a) \<Rightarrow> 'a vec" where
  "vupd v i f = Vec (vlen v) ((vfun v)(i := f (vfun v i)))"

lemma vlen_vupd [simp]: "vlen (vupd v i f) = vlen v"
  by (simp add: vupd_def)

lemma vfun_vupd [simp]: "vfun (vupd v i f) j = (if j = i then f (vfun v i) else vfun v j)"
  by (simp add: vupd_def)

lemma vget_in [simp]: "i < vlen v \<Longrightarrow> vget v i = Some (vfun v i)"
  by (simp add: vget_def)

lemma vget_out [simp]: "\<not> i < vlen v \<Longrightarrow> vget v i = None"
  by (simp add: vget_def)

lemma vset_in [simp]: "i < vlen v \<Longrightarrow> vset v i x = Some (vupd v i (\<lambda>_. x))"
  by (simp add: vset_def vupd_def)

lemma vmod_in [simp]: "i < vlen v \<Longrightarrow> vmod v i f = Some (vupd v i f)"
  by (simp add: vmod_def vset_def vupd_def)

lemma vget_Some_iff: "vget v i = Some x \<longleftrightarrow> i < vlen v \<and> x = vfun v i"
  by (auto simp: vget_def)

lemma vset_Some_iff: "vset v i x = Some w \<longleftrightarrow> i < vlen v \<and> w = vupd v i (\<lambda>_. x)"
  by (auto simp: vset_def vupd_def)

lemma vmod_Some_iff: "vmod v i f = Some w \<longleftrightarrow> i < vlen v \<and> w = vupd v i f"
  by (cases "i < vlen v") (auto simp: vmod_def vupd_def)

section \<open>First and last element or a default\<close>

fun hd_or :: "'a list \<Rightarrow> 'a \<Rightarrow> 'a" where
  "hd_or [] d = d"
| "hd_or (x # xs) d = x"

fun last_or :: "'a list \<Rightarrow> 'a \<Rightarrow> 'a" where
  "last_or [] d = d"
| "last_or (x # xs) d = last_or xs x"

lemma hd_or_append [simp]: "hd_or (xs @ ys) d = hd_or xs (hd_or ys d)"
  by (cases xs) auto

lemma last_or_append [simp]: "last_or (xs @ ys) d = last_or ys (last_or xs d)"
  by (induction xs arbitrary: d) auto

lemma hd_or_hd: "xs \<noteq> [] \<Longrightarrow> hd_or xs d = hd xs"
  by (cases xs) auto

lemma last_or_last: "xs \<noteq> [] \<Longrightarrow> last_or xs d = last xs"
  by (induction xs arbitrary: d) auto

lemma hd_or_in: "xs \<noteq> [] \<Longrightarrow> hd_or xs d \<in> set xs"
  by (cases xs) auto

lemma last_or_in: "xs \<noteq> [] \<Longrightarrow> last_or xs d \<in> set xs"
proof (induction xs arbitrary: d)
  case Nil
  then show ?case by simp
next
  case (Cons x xs)
  then show ?case by (cases xs) auto
qed

lemma hd_or_default_iff: "d \<notin> set xs \<Longrightarrow> hd_or xs d = d \<longleftrightarrow> xs = []"
  by (cases xs) auto

lemma last_or_default_iff: "d \<notin> set xs \<Longrightarrow> last_or xs d = d \<longleftrightarrow> xs = []"
  using last_or_in [of xs d] by (cases "xs = []") auto

lemma hd_or_set: "hd_or xs d \<in> insert d (set xs)"
  by (cases xs) auto

lemma last_or_set: "last_or xs d \<in> insert d (set xs)"
  using last_or_in [of xs d] by (cases "xs = []") auto

section \<open>Doubly linked segments\<close>

text \<open>
  \<open>links nx pv p xs q\<close>: following \<open>nx\<close> and \<open>pv\<close>, the nodes \<open>xs\<close> form a doubly linked segment that
  is preceded by \<open>p\<close> and followed by \<open>q\<close>. \<open>chain nx xs q\<close> is the singly linked variant that the
  free lists use.
\<close>

fun links :: "('a \<Rightarrow> 'a) \<Rightarrow> ('a \<Rightarrow> 'a) \<Rightarrow> 'a \<Rightarrow> 'a list \<Rightarrow> 'a \<Rightarrow> bool" where
  "links nx pv p [] q = True"
| "links nx pv p (x # xs) q = (pv x = p \<and> nx x = hd_or xs q \<and> links nx pv x xs q)"

fun chain :: "('a \<Rightarrow> 'a) \<Rightarrow> 'a list \<Rightarrow> 'a \<Rightarrow> bool" where
  "chain nx [] q = True"
| "chain nx (x # xs) q = (nx x = hd_or xs q \<and> chain nx xs q)"

lemma links_append:
  "links nx pv p (xs @ ys) q =
     (links nx pv p xs (hd_or ys q) \<and> links nx pv (last_or xs p) ys q)"
  by (induction xs arbitrary: p) auto

lemma links_cong:
  assumes "\<And>x. x \<in> set xs \<Longrightarrow> nx x = nx' x" and "\<And>x. x \<in> set xs \<Longrightarrow> pv x = pv' x"
  shows "links nx pv p xs q = links nx' pv' p xs q"
  using assms by (induction xs arbitrary: p) auto

lemma chain_append:
  "chain nx (xs @ ys) q = (chain nx xs (hd_or ys q) \<and> chain nx ys q)"
  by (induction xs) auto

lemma chain_cong:
  assumes "\<And>x. x \<in> set xs \<Longrightarrow> nx x = nx' x"
  shows "chain nx xs q = chain nx' xs q"
  using assms by (induction xs) auto

text \<open>Redirecting the last forward link, respectively the first backward link, of a segment.\<close>

lemma links_set_last:
  assumes "links nx pv p xs q" "xs \<noteq> []" "distinct xs"
  shows "links (nx(last_or xs p := r)) pv p xs r"
  using assms
proof (induction xs arbitrary: p)
  case Nil
  then show ?case by simp
next
  case (Cons x xs)
  show ?case
  proof (cases "xs = []")
    case True
    with Cons.prems show ?thesis by simp
  next
    case False
    with Cons.prems have IH: "links (nx(last_or xs x := r)) pv x xs r"
      by (intro Cons.IH) auto
    from False have "last_or xs x \<in> set xs" by (rule last_or_in)
    with Cons.prems have "last_or xs x \<noteq> x" by auto
    with False Cons.prems IH show ?thesis by (cases xs) (auto simp: fun_upd_def)
  qed
qed

lemma links_set_first:
  assumes "links nx pv p xs q" "xs \<noteq> []" "distinct xs"
  shows "links nx (pv(hd_or xs q := r)) r xs q"
proof -
  from assms(2) obtain y ys where xs: "xs = y # ys" by (cases xs) auto
  with assms have "links nx pv y ys q" "y \<notin> set ys" by auto
  then have "links nx (pv(y := r)) y ys q"
    by (subst links_cong [where nx' = nx and pv' = pv]) auto
  with xs assms show ?thesis by simp
qed

end
