(* ===== verification/OB_Types.thy ===== *)
theory OB_Types
  imports OB_Prelude
begin

text \<open>
  The wire and domain types of \<open>src/types.rs\<close>: the enums with their discriminants and checked
  conversions, the 48-byte \<open>Order\<close>, the 64-byte \<open>ServerMessage\<close>, \<open>Trade\<close> and
  \<open>MarketDepthLevel\<close>, their constructors, and the endianness conversions of the wire format. Field
  names carry a prefix per struct (\<open>ord_\<close>, \<open>sm_\<close>, \<open>tr_\<close>, \<open>md_\<close>); the \<open>_padding\<close> bytes, which the
  code only ever sets to zero or copies, are the field \<open>ord_padding\<close>, respectively \<open>sm_padding\<close>.
\<close>

section \<open>Enums\<close>

definition NUM_SYMBOLS :: nat where
  "NUM_SYMBOLS = 3"

datatype Side = Buy | Sell

primrec Side_as :: "Side \<Rightarrow> u8" where
  "Side_as Buy = 0"
| "Side_as Sell = 1"

definition Side_try_from :: "u8 \<Rightarrow> unit + Side" where
  "Side_try_from v = (if v = 0 then Inr Buy else if v = 1 then Inr Sell else Inl ())"

datatype OrderType = Limit | Market | Cancel | Deposit

primrec OrderType_as :: "OrderType \<Rightarrow> u8" where
  "OrderType_as Limit = 0"
| "OrderType_as Market = 1"
| "OrderType_as Cancel = 2"
| "OrderType_as Deposit = 3"

definition OrderType_try_from :: "u8 \<Rightarrow> unit + OrderType" where
  "OrderType_try_from v =
     (if v = 0 then Inr Limit else if v = 1 then Inr Market
      else if v = 2 then Inr Cancel else if v = 3 then Inr Deposit else Inl ())"

datatype Symbol = Btc | Eth | Sol

primrec Symbol_as :: "Symbol \<Rightarrow> u16" where
  "Symbol_as Btc = 0"
| "Symbol_as Eth = 1"
| "Symbol_as Sol = 2"

definition Symbol_try_from_u16 :: "u16 \<Rightarrow> unit + Symbol" where
  "Symbol_try_from_u16 v =
     (if v = 0 then Inr Btc else if v = 1 then Inr Eth else if v = 2 then Inr Sol else Inl ())"

definition Symbol_try_from_u8 :: "u8 \<Rightarrow> unit + Symbol" where
  "Symbol_try_from_u8 v =
     (if v = 0 then Inr Btc else if v = 1 then Inr Eth else if v = 2 then Inr Sol else Inl ())"

primrec Symbol_as_str :: "Symbol \<Rightarrow> string" where
  "Symbol_as_str Btc = ''BTC/USD''"
| "Symbol_as_str Eth = ''ETH/USD''"
| "Symbol_as_str Sol = ''SOL/USD''"

text \<open>The enums a client's bytes are decoded to are finite, listed in the order of their discriminants.\<close>

instantiation Side :: enum
begin

definition enum_Side :: "Side list" where
  "enum_Side = [Buy, Sell]"

definition enum_all_Side :: "(Side \<Rightarrow> bool) \<Rightarrow> bool" where
  "enum_all_Side P \<longleftrightarrow> P Buy \<and> P Sell"

definition enum_ex_Side :: "(Side \<Rightarrow> bool) \<Rightarrow> bool" where
  "enum_ex_Side P \<longleftrightarrow> P Buy \<or> P Sell"

instance
proof
  have U: "x = Buy \<or> x = Sell" for x :: Side by (cases x) simp_all
  show "UNIV = set (Enum.enum :: Side list)" using U by (auto simp: enum_Side_def)
  show "Enum.enum_all P \<longleftrightarrow> Ball (UNIV :: Side set) P" "Enum.enum_ex P \<longleftrightarrow> Bex (UNIV :: Side set) P" for P
    unfolding enum_all_Side_def enum_ex_Side_def by (metis U UNIV_I)+
qed (simp add: enum_Side_def)

end

instantiation OrderType :: enum
begin

definition enum_OrderType :: "OrderType list" where
  "enum_OrderType = [Limit, Market, Cancel, Deposit]"

definition enum_all_OrderType :: "(OrderType \<Rightarrow> bool) \<Rightarrow> bool" where
  "enum_all_OrderType P \<longleftrightarrow> P Limit \<and> P Market \<and> P Cancel \<and> P Deposit"

definition enum_ex_OrderType :: "(OrderType \<Rightarrow> bool) \<Rightarrow> bool" where
  "enum_ex_OrderType P \<longleftrightarrow> P Limit \<or> P Market \<or> P Cancel \<or> P Deposit"

instance
proof
  have U: "x = Limit \<or> x = Market \<or> x = Cancel \<or> x = Deposit" for x :: OrderType by (cases x) simp_all
  show "UNIV = set (Enum.enum :: OrderType list)" using U by (auto simp: enum_OrderType_def)
  show "Enum.enum_all P \<longleftrightarrow> Ball (UNIV :: OrderType set) P" "Enum.enum_ex P \<longleftrightarrow> Bex (UNIV :: OrderType set) P" for P
    unfolding enum_all_OrderType_def enum_ex_OrderType_def by (metis U UNIV_I)+
qed (simp add: enum_OrderType_def)

end

instantiation Symbol :: enum
begin

definition enum_Symbol :: "Symbol list" where
  "enum_Symbol = [Btc, Eth, Sol]"

definition enum_all_Symbol :: "(Symbol \<Rightarrow> bool) \<Rightarrow> bool" where
  "enum_all_Symbol P \<longleftrightarrow> P Btc \<and> P Eth \<and> P Sol"

definition enum_ex_Symbol :: "(Symbol \<Rightarrow> bool) \<Rightarrow> bool" where
  "enum_ex_Symbol P \<longleftrightarrow> P Btc \<or> P Eth \<or> P Sol"

instance
proof
  have U: "x = Btc \<or> x = Eth \<or> x = Sol" for x :: Symbol by (cases x) simp_all
  show "UNIV = set (Enum.enum :: Symbol list)" using U by (auto simp: enum_Symbol_def)
  show "Enum.enum_all P \<longleftrightarrow> Ball (UNIV :: Symbol set) P" "Enum.enum_ex P \<longleftrightarrow> Bex (UNIV :: Symbol set) P" for P
    unfolding enum_all_Symbol_def enum_ex_Symbol_def by (metis U UNIV_I)+
qed (simp add: enum_Symbol_def)

end

text \<open>\<open>Result::ok\<close> and \<open>Option::unwrap_or\<close>.\<close>

primrec result_ok :: "'e + 'a \<Rightarrow> 'a option" where
  "result_ok (Inl e) = None"
| "result_ok (Inr x) = Some x"

primrec unwrap_or :: "'a option \<Rightarrow> 'a \<Rightarrow> 'a" where
  "unwrap_or None d = d"
| "unwrap_or (Some x) d = x"

section \<open>Orders\<close>

definition ORDER_MAGIC :: u16 where
  "ORDER_MAGIC = 0x4F42"

record Order =
  ord_id :: u64
  ord_price :: u64
  ord_qty :: u64
  ord_user_id :: u64
  ord_client_order_id :: u64
  ord_side :: u8
  ord_order_type :: u8
  ord_symbol_id :: u16
  ord_magic :: u16
  ord_padding :: "u8 \<times> u8"

definition Order_default :: Order where
  "Order_default =
     \<lparr>ord_id = 0, ord_price = 0, ord_qty = 0, ord_user_id = 0, ord_client_order_id = 0,
      ord_side = 0, ord_order_type = 0, ord_symbol_id = 0, ord_magic = ORDER_MAGIC,
      ord_padding = (0, 0)\<rparr>"

definition new_limit :: "u64 \<Rightarrow> u64 \<Rightarrow> Symbol \<Rightarrow> Side \<Rightarrow> u64 \<Rightarrow> u64 \<Rightarrow> Order" where
  "new_limit oid user_id symbol side price qty =
     \<lparr>ord_id = oid, ord_price = price, ord_qty = qty, ord_user_id = user_id,
      ord_client_order_id = oid, ord_side = Side_as side, ord_order_type = OrderType_as Limit,
      ord_symbol_id = Symbol_as symbol, ord_magic = ORDER_MAGIC, ord_padding = (0, 0)\<rparr>"

definition new_client_limit :: "u64 \<Rightarrow> u64 \<Rightarrow> Symbol \<Rightarrow> Side \<Rightarrow> u64 \<Rightarrow> u64 \<Rightarrow> Order" where
  "new_client_limit client_order_id user_id symbol side price qty =
     \<lparr>ord_id = 0, ord_price = price, ord_qty = qty, ord_user_id = user_id,
      ord_client_order_id = client_order_id, ord_side = Side_as side,
      ord_order_type = OrderType_as Limit, ord_symbol_id = Symbol_as symbol,
      ord_magic = ORDER_MAGIC, ord_padding = (0, 0)\<rparr>"

definition new_market :: "u64 \<Rightarrow> u64 \<Rightarrow> Symbol \<Rightarrow> Side \<Rightarrow> u64 \<Rightarrow> u64 \<Rightarrow> Order" where
  "new_market oid user_id symbol side qty max_spend_or_slippage_price =
     \<lparr>ord_id = oid, ord_price = max_spend_or_slippage_price, ord_qty = qty,
      ord_user_id = user_id, ord_client_order_id = oid, ord_side = Side_as side,
      ord_order_type = OrderType_as Market, ord_symbol_id = Symbol_as symbol,
      ord_magic = ORDER_MAGIC, ord_padding = (0, 0)\<rparr>"

definition new_cancel :: "u64 \<Rightarrow> u64 \<Rightarrow> Symbol \<Rightarrow> Order" where
  "new_cancel target_id user_id symbol =
     \<lparr>ord_id = target_id, ord_price = 0, ord_qty = 0, ord_user_id = user_id,
      ord_client_order_id = target_id, ord_side = 0, ord_order_type = OrderType_as Cancel,
      ord_symbol_id = Symbol_as symbol, ord_magic = ORDER_MAGIC, ord_padding = (0, 0)\<rparr>"

definition new_deposit :: "u64 \<Rightarrow> u64 \<Rightarrow> u16 \<Rightarrow> u64 \<Rightarrow> Order" where
  "new_deposit user_id usd_amount symbol_id asset_amount =
     \<lparr>ord_id = 0, ord_price = usd_amount, ord_qty = asset_amount, ord_user_id = user_id,
      ord_client_order_id = 0, ord_side = 0, ord_order_type = OrderType_as Deposit,
      ord_symbol_id = symbol_id, ord_magic = ORDER_MAGIC, ord_padding = (0, 0)\<rparr>"

definition get_side :: "Order \<Rightarrow> Side option" where
  "get_side o' = result_ok (Side_try_from (ord_side o'))"

definition get_order_type :: "Order \<Rightarrow> OrderType option" where
  "get_order_type o' = result_ok (OrderType_try_from (ord_order_type o'))"

definition get_symbol :: "Order \<Rightarrow> Symbol option" where
  "get_symbol o' = result_ok (Symbol_try_from_u16 (ord_symbol_id o'))"

section \<open>Endianness\<close>

text \<open>
  \<open>u64::to_le\<close>, \<open>u64::from_le\<close> and their 16-bit versions depend on the byte order of the host: they
  are the identity on a little-endian host and swap the bytes on a big-endian one.
\<close>

datatype endian = Little | Big

definition le_bytes :: "'n::len word \<Rightarrow> u8 list" where
  "le_bytes w = map (\<lambda>j. ucast (drop_bit (8 * j) w)) [0..<LENGTH('n) div 8]"

primrec le_word :: "u8 list \<Rightarrow> 'n::len word" where
  "le_word [] = 0"
| "le_word (b # bs) = ucast b OR push_bit 8 (le_word bs)"

definition swap_bytes :: "'n::len word \<Rightarrow> 'n word" where
  "swap_bytes w = le_word (rev (le_bytes w))"

primrec int_to_le :: "endian \<Rightarrow> 'n::len word \<Rightarrow> 'n word" where
  "int_to_le Little w = w"
| "int_to_le Big w = swap_bytes w"

primrec int_from_le :: "endian \<Rightarrow> 'n::len word \<Rightarrow> 'n word" where
  "int_from_le Little w = w"
| "int_from_le Big w = swap_bytes w"

definition Order_to_le :: "endian \<Rightarrow> Order \<Rightarrow> Order" where
  "Order_to_le h o' =
     \<lparr>ord_id = int_to_le h (ord_id o'), ord_price = int_to_le h (ord_price o'),
      ord_qty = int_to_le h (ord_qty o'), ord_user_id = int_to_le h (ord_user_id o'),
      ord_client_order_id = int_to_le h (ord_client_order_id o'), ord_side = ord_side o',
      ord_order_type = ord_order_type o', ord_symbol_id = int_to_le h (ord_symbol_id o'),
      ord_magic = int_to_le h (ord_magic o'), ord_padding = ord_padding o'\<rparr>"

definition Order_from_le :: "endian \<Rightarrow> Order \<Rightarrow> Order" where
  "Order_from_le h o' =
     \<lparr>ord_id = int_from_le h (ord_id o'), ord_price = int_from_le h (ord_price o'),
      ord_qty = int_from_le h (ord_qty o'), ord_user_id = int_from_le h (ord_user_id o'),
      ord_client_order_id = int_from_le h (ord_client_order_id o'), ord_side = ord_side o',
      ord_order_type = ord_order_type o', ord_symbol_id = int_from_le h (ord_symbol_id o'),
      ord_magic = int_from_le h (ord_magic o'), ord_padding = ord_padding o'\<rparr>"

section \<open>Server messages\<close>

datatype ServerMsgType = Accepted | Rejected | Filled | Cancelled | Bbo

primrec ServerMsgType_as :: "ServerMsgType \<Rightarrow> u8" where
  "ServerMsgType_as Accepted = 0"
| "ServerMsgType_as Rejected = 1"
| "ServerMsgType_as Filled = 2"
| "ServerMsgType_as Cancelled = 3"
| "ServerMsgType_as Bbo = 4"

text \<open>\<open>RejectReason::None\<close> is \<open>NoReason\<close> here: \<open>None\<close> is the constructor of \<open>option\<close>.\<close>

datatype RejectReason =
  NoReason | InvalidOrder | InsufficientFunds | OrderNotFound | Unauthorized
| EngineFull | NoLiquidity | SelfTradePrevented

primrec RejectReason_as :: "RejectReason \<Rightarrow> u8" where
  "RejectReason_as NoReason = 0"
| "RejectReason_as InvalidOrder = 1"
| "RejectReason_as InsufficientFunds = 2"
| "RejectReason_as OrderNotFound = 3"
| "RejectReason_as Unauthorized = 4"
| "RejectReason_as EngineFull = 5"
| "RejectReason_as NoLiquidity = 6"
| "RejectReason_as SelfTradePrevented = 7"

record ServerMessage =
  sm_msg_type :: u8
  sm_symbol_id :: u8
  sm_reject_code :: u8
  sm_is_maker :: u8
  sm_magic :: u16
  sm_padding :: "u8 \<times> u8"
  sm_order_id :: u64
  sm_user_id :: u64
  sm_match_id :: u64
  sm_price :: u64
  sm_qty :: u64
  sm_extra_price :: u64
  sm_extra_qty :: u64

definition sm_client_order_id :: "ServerMessage \<Rightarrow> u64" where
  "sm_client_order_id m = sm_extra_price m"

definition sm_ask_price :: "ServerMessage \<Rightarrow> u64" where
  "sm_ask_price m = sm_extra_price m"

definition sm_ask_qty :: "ServerMessage \<Rightarrow> u64" where
  "sm_ask_qty m = sm_extra_qty m"

definition sm_ack :: "u64 \<Rightarrow> u64 \<Rightarrow> u64 \<Rightarrow> u8 \<Rightarrow> ServerMessage" where
  "sm_ack order_id client_order_id user_id symbol_id =
     \<lparr>sm_msg_type = ServerMsgType_as Accepted, sm_symbol_id = symbol_id, sm_reject_code = 0,
      sm_is_maker = 0, sm_magic = ORDER_MAGIC, sm_padding = (0, 0), sm_order_id = order_id,
      sm_user_id = user_id, sm_match_id = 0, sm_price = 0, sm_qty = 0,
      sm_extra_price = client_order_id, sm_extra_qty = 0\<rparr>"

definition sm_reject :: "u64 \<Rightarrow> u64 \<Rightarrow> u64 \<Rightarrow> u8 \<Rightarrow> RejectReason \<Rightarrow> ServerMessage" where
  "sm_reject order_id client_order_id user_id symbol_id reason =
     \<lparr>sm_msg_type = ServerMsgType_as Rejected, sm_symbol_id = symbol_id,
      sm_reject_code = RejectReason_as reason, sm_is_maker = 0, sm_magic = ORDER_MAGIC,
      sm_padding = (0, 0), sm_order_id = order_id, sm_user_id = user_id, sm_match_id = 0,
      sm_price = 0, sm_qty = 0, sm_extra_price = client_order_id, sm_extra_qty = 0\<rparr>"

definition sm_fill ::
  "u64 \<Rightarrow> u64 \<Rightarrow> u64 \<Rightarrow> u8 \<Rightarrow> u64 \<Rightarrow> u64 \<Rightarrow> u64 \<Rightarrow> bool \<Rightarrow> ServerMessage" where
  "sm_fill order_id client_order_id user_id symbol_id match_id price qty is_maker =
     \<lparr>sm_msg_type = ServerMsgType_as Filled, sm_symbol_id = symbol_id, sm_reject_code = 0,
      sm_is_maker = (if is_maker then 1 else 0), sm_magic = ORDER_MAGIC, sm_padding = (0, 0),
      sm_order_id = order_id, sm_user_id = user_id, sm_match_id = match_id, sm_price = price,
      sm_qty = qty, sm_extra_price = client_order_id, sm_extra_qty = 0\<rparr>"

definition sm_cancel_ok :: "u64 \<Rightarrow> u64 \<Rightarrow> u64 \<Rightarrow> u8 \<Rightarrow> u64 \<Rightarrow> ServerMessage" where
  "sm_cancel_ok order_id client_order_id user_id symbol_id unexecuted_qty =
     \<lparr>sm_msg_type = ServerMsgType_as Cancelled, sm_symbol_id = symbol_id, sm_reject_code = 0,
      sm_is_maker = 0, sm_magic = ORDER_MAGIC, sm_padding = (0, 0), sm_order_id = order_id,
      sm_user_id = user_id, sm_match_id = 0, sm_price = 0, sm_qty = unexecuted_qty,
      sm_extra_price = client_order_id, sm_extra_qty = 0\<rparr>"

definition sm_bbo :: "u8 \<Rightarrow> u64 \<Rightarrow> u64 \<Rightarrow> u64 \<Rightarrow> u64 \<Rightarrow> ServerMessage" where
  "sm_bbo symbol_id bid_price bid_qty ask_price ask_qty =
     \<lparr>sm_msg_type = ServerMsgType_as Bbo, sm_symbol_id = symbol_id, sm_reject_code = 0,
      sm_is_maker = 0, sm_magic = ORDER_MAGIC, sm_padding = (0, 0), sm_order_id = 0,
      sm_user_id = 0, sm_match_id = 0, sm_price = bid_price, sm_qty = bid_qty,
      sm_extra_price = ask_price, sm_extra_qty = ask_qty\<rparr>"

definition ServerMessage_to_le :: "endian \<Rightarrow> ServerMessage \<Rightarrow> ServerMessage" where
  "ServerMessage_to_le h m =
     \<lparr>sm_msg_type = sm_msg_type m, sm_symbol_id = sm_symbol_id m,
      sm_reject_code = sm_reject_code m, sm_is_maker = sm_is_maker m,
      sm_magic = int_to_le h (sm_magic m), sm_padding = sm_padding m,
      sm_order_id = int_to_le h (sm_order_id m), sm_user_id = int_to_le h (sm_user_id m),
      sm_match_id = int_to_le h (sm_match_id m), sm_price = int_to_le h (sm_price m),
      sm_qty = int_to_le h (sm_qty m), sm_extra_price = int_to_le h (sm_extra_price m),
      sm_extra_qty = int_to_le h (sm_extra_qty m)\<rparr>"

definition ServerMessage_from_le :: "endian \<Rightarrow> ServerMessage \<Rightarrow> ServerMessage" where
  "ServerMessage_from_le h m =
     \<lparr>sm_msg_type = sm_msg_type m, sm_symbol_id = sm_symbol_id m,
      sm_reject_code = sm_reject_code m, sm_is_maker = sm_is_maker m,
      sm_magic = int_from_le h (sm_magic m), sm_padding = sm_padding m,
      sm_order_id = int_from_le h (sm_order_id m), sm_user_id = int_from_le h (sm_user_id m),
      sm_match_id = int_from_le h (sm_match_id m), sm_price = int_from_le h (sm_price m),
      sm_qty = int_from_le h (sm_qty m), sm_extra_price = int_from_le h (sm_extra_price m),
      sm_extra_qty = int_from_le h (sm_extra_qty m)\<rparr>"

section \<open>Trades and depth\<close>

record Trade =
  tr_match_id :: u64
  tr_maker_order_id :: u64
  tr_taker_order_id :: u64
  tr_maker_client_order_id :: u64
  tr_taker_client_order_id :: u64
  tr_maker_user_id :: u64
  tr_taker_user_id :: u64
  tr_maker_client_id :: u64
  tr_taker_client_id :: u64
  tr_buyer_id :: u64
  tr_seller_id :: u64
  tr_maker_side :: u8
  tr_symbol_id :: u16
  tr_price :: u64
  tr_qty :: u64

record MarketDepthLevel =
  md_price :: u64
  md_total_qty :: u64
  md_order_count :: u32

section \<open>Lemmas\<close>

lemmas order_eval [ob_simps] =
  new_limit_def new_client_limit_def new_market_def new_cancel_def get_order_type_def OrderType_try_from_def
  get_side_def Side_try_from_def

text \<open>Bytes of a word and back, for widths that are whole numbers of bytes.\<close>

lemma length_le_bytes [simp]: "length (le_bytes (w :: 'n::len word)) = LENGTH('n) div 8"
  by (simp add: le_bytes_def)

lemma bit_le_word:
  "bit (le_word bs :: 'n::len word) k \<longleftrightarrow>
     k < LENGTH('n) \<and> k div 8 < length bs \<and> bit (bs ! (k div 8)) (k mod 8)"
proof (induction bs arbitrary: k)
  case Nil
  show ?case by simp
next
  case (Cons b bs)
  show ?case
  proof (cases "k < 8")
    case True
    then show ?thesis by (auto simp: bit_simps)
  next
    case False
    then have "k div 8 = Suc ((k - 8) div 8)" "k mod 8 = (k - 8) mod 8"
      by (auto simp: le_div_geq le_mod_geq)
    moreover have "\<not> bit b k"
      using False by (auto dest: bit_imp_le_length)
    ultimately show ?thesis
      using False by (auto simp: bit_simps Cons.IH)
  qed
qed

lemma bit_le_bytes_nth:
  "j < LENGTH('n) div 8 \<Longrightarrow>
     bit (le_bytes (w :: 'n::len word) ! j) i \<longleftrightarrow> i < 8 \<and> bit w (8 * j + i)"
  by (auto simp: le_bytes_def bit_simps)

lemma le_word_le_bytes:
  assumes "8 dvd LENGTH('n)"
  shows "le_word (le_bytes w) = (w :: 'n::len word)"
proof (rule bit_word_eqI)
  fix k
  assume k: "k < LENGTH('n)"
  with assms have "k div 8 < LENGTH('n) div 8"
    by (auto elim!: dvdE)
  then show "bit (le_word (le_bytes w) :: 'n word) k = bit w k"
    using k by (simp add: bit_le_word bit_le_bytes_nth)
qed

lemma le_bytes_le_word:
  assumes "length bs = LENGTH('n) div 8"
  shows "le_bytes (le_word bs :: 'n::len word) = bs"
proof (rule nth_equalityI)
  show "length (le_bytes (le_word bs :: 'n word)) = length bs"
    using assms by simp
next
  fix j
  assume "j < length (le_bytes (le_word bs :: 'n word))"
  then have j: "j < LENGTH('n) div 8" by simp
  show "le_bytes (le_word bs :: 'n word) ! j = bs ! j"
  proof (rule bit_word_eqI)
    fix i :: nat
    assume "i < LENGTH(8)"
    then have "i < 8" by simp
    moreover from j this have "8 * j + i < LENGTH('n)" by arith
    ultimately show "bit (le_bytes (le_word bs :: 'n word) ! j) i = bit (bs ! j) i"
      using j assms by (simp add: bit_le_bytes_nth bit_le_word)
  qed
qed

lemma swap_bytes_swap_bytes:
  assumes "8 dvd LENGTH('n)"
  shows "swap_bytes (swap_bytes w) = (w :: 'n::len word)"
  using assms by (simp add: swap_bytes_def le_bytes_le_word le_word_le_bytes)

lemma int_from_to_le [simp]:
  "int_from_le h (int_to_le h (w :: u64)) = w" "int_from_le h (int_to_le h (v :: u16)) = v"
  by (cases h; simp add: swap_bytes_swap_bytes)+

lemma int_to_from_le [simp]:
  "int_to_le h (int_from_le h (w :: u64)) = w" "int_to_le h (int_from_le h (v :: u16)) = v"
  by (cases h; simp add: swap_bytes_swap_bytes)+

text \<open>The memory image of an integer on a host, and of its \<open>to_le\<close> value.\<close>

primrec mem_bytes :: "endian \<Rightarrow> 'n::len word \<Rightarrow> u8 list" where
  "mem_bytes Little w = le_bytes w"
| "mem_bytes Big w = rev (le_bytes w)"

lemma mem_bytes_to_le: "mem_bytes h (int_to_le h w) = le_bytes (w :: 'n::len word)"
  by (cases h) (simp_all add: swap_bytes_def le_bytes_le_word)

lemma length_mem_bytes [simp]: "length (mem_bytes h (w :: 'n::len word)) = LENGTH('n) div 8"
  by (cases h) simp_all

primrec mem_word :: "endian \<Rightarrow> u8 list \<Rightarrow> 'n::len word" where
  "mem_word Little bs = le_word bs"
| "mem_word Big bs = le_word (rev bs)"

lemma mem_word_bytes [simp]:
  "mem_word h (mem_bytes h (w :: u64)) = w" "mem_word h (mem_bytes h (u :: u32)) = u"
  "mem_word h (mem_bytes h (v :: u16)) = v"
  by (cases h; simp add: le_word_le_bytes)+

text \<open>An integer written as little-endian on one host and read as little-endian on another.\<close>

lemma mem_word_le_bytes: "mem_word h (le_bytes w) = (int_to_le h w :: 'n::len word)" if "8 dvd LENGTH('n)"
  by (cases h) (simp_all add: swap_bytes_def le_word_le_bytes that)

lemma mem_word_across [simp]:
  "int_from_le h' (mem_word h' (mem_bytes h (int_to_le h (w :: u64)))) = w"
  "int_from_le h' (mem_word h' (mem_bytes h (int_to_le h (v :: u16)))) = v"
  by (simp_all add: mem_bytes_to_le mem_word_le_bytes)

lemma get_order_type_as:
  "ord_order_type o' = OrderType_as t \<Longrightarrow> get_order_type o' = Some t"
  by (cases t) (simp_all add: get_order_type_def OrderType_try_from_def)

lemma get_order_type_Some_iff:
  "get_order_type o' = Some t \<longleftrightarrow> ord_order_type o' = OrderType_as t"
  by (cases t) (auto simp: get_order_type_def OrderType_try_from_def)

lemma get_side_Some_iff: "get_side o' = Some s \<longleftrightarrow> ord_side o' = Side_as s"
  by (cases s) (auto simp: get_side_def Side_try_from_def)

lemma Side_try_from_as [simp]: "Side_try_from (Side_as s) = Inr s"
  by (cases s) (simp_all add: Side_try_from_def)

lemma OrderType_try_from_as [simp]: "OrderType_try_from (OrderType_as t) = Inr t"
  by (cases t) (simp_all add: OrderType_try_from_def)

lemma Symbol_try_from_as [simp]: "Symbol_try_from_u16 (Symbol_as s) = Inr s"
  by (cases s) (simp_all add: Symbol_try_from_u16_def)

lemma unat_Symbol_as: "unat (Symbol_as s) < NUM_SYMBOLS"
  by (cases s) (simp_all add: NUM_SYMBOLS_def)

text \<open>The ids of the symbols are \<open>0\<close> to \<open>NUM_SYMBOLS - 1\<close>, in the order of the enum.\<close>

lemma symbol_ids: "map (\<lambda>y. unat (Symbol_as y)) Enum.enum = [0..<NUM_SYMBOLS]"
  by (simp add: enum_Symbol_def NUM_SYMBOLS_def upt_rec)

lemma symbol_id_iff: "(\<exists>y. v = Symbol_as y) \<longleftrightarrow> unat v < NUM_SYMBOLS"
proof
  assume "unat v < NUM_SYMBOLS"
  then have "unat v \<in> set (map (\<lambda>y. unat (Symbol_as y)) Enum.enum)" unfolding symbol_ids by simp
  then show "\<exists>y. v = Symbol_as y" by (auto simp: word_unat_eq_iff)
qed (auto simp: unat_Symbol_as)

end
