(* ===== verification/Hash_Index.thy ===== *)
theory Hash_Index
  imports OB_Types
begin

text \<open>
  Open addressing with linear probing and backward-shift deletion, as the three indices of
  \<open>src/book.rs\<close> (\<open>FastOrderIndex\<close>, \<open>FastPriceIndex\<close>, \<open>FastClientIndex\<close>) implement it. The three
  copies of the algorithm in the source differ in the entry type, the key, the hash and the
  capacity only; the model states each loop once, over an \<open>index_cfg\<close> that supplies those, and
  \<open>Fast_Indices\<close> instantiates it three times.

  The loops are the source's loops: they end only at the slot they look for, so a table with no
  free slot and no matching entry makes them run for ever (\<open>None\<close>). The locale \<open>open_index\<close> proves
  them correct for every configuration whose capacity is a power of two.
\<close>

section \<open>Model\<close>

record 'e table =
  tb_entries :: "'e vec"
  tb_count :: nat

record ('e, 'k) index_cfg =
  cfg_capacity :: nat
  cfg_occupied :: "'e \<Rightarrow> bool"
  cfg_key :: "'e \<Rightarrow> 'k"
  cfg_hash :: "'k \<Rightarrow> nat"
  cfg_default :: 'e

definition cfg_mask :: "('e, 'k) index_cfg \<Rightarrow> nat" where
  "cfg_mask C = cfg_capacity C - 1"

definition idx_new :: "('e, 'k) index_cfg \<Rightarrow> 'e table" where
  "idx_new C = \<lparr>tb_entries = Vec (cfg_capacity C) (\<lambda>_. cfg_default C), tb_count = 0\<rparr>"

text \<open>
  The probe loop common to \<open>insert\<close>, \<open>lookup\<close> and \<open>remove\<close>: from slot \<open>i\<close> on, the first slot that is
  free or holds the key.
\<close>

partial_function (option) probe ::
  "nat \<Rightarrow> ('e \<Rightarrow> bool) \<Rightarrow> 'e vec \<Rightarrow> nat \<Rightarrow> (nat \<times> 'e) option" where
  "probe msk stop v i =
     do {
       e \<leftarrow> vget v i;
       if stop e then Some (i, e) else probe msk stop v ((i + 1) AND msk)
     }"

definition stop_at :: "('e, 'k) index_cfg \<Rightarrow> 'k \<Rightarrow> 'e \<Rightarrow> bool" where
  "stop_at C k e \<longleftrightarrow> \<not> cfg_occupied C e \<or> cfg_key C e = k"

definition idx_insert ::
  "('e, 'k) index_cfg \<Rightarrow> 'e table \<Rightarrow> 'e \<Rightarrow> ('e table \<times> (RejectReason + unit)) option" where
  "idx_insert C t new =
     (if tb_count t \<ge> (cfg_capacity C * 8) div 10 then Some (t, Inl EngineFull)
      else do {
        (i, entry) \<leftarrow> probe (cfg_mask C) (stop_at C (cfg_key C new)) (tb_entries t)
                        (cfg_hash C (cfg_key C new));
        v \<leftarrow> vset (tb_entries t) i new;
        Some (\<lparr>tb_entries = v,
               tb_count = (if \<not> cfg_occupied C entry then tb_count t + 1 else tb_count t)\<rparr>,
              Inr ())
      })"

definition idx_lookup :: "('e, 'k) index_cfg \<Rightarrow> 'e table \<Rightarrow> 'k \<Rightarrow> 'e option option" where
  "idx_lookup C t k =
     do {
       (i, entry) \<leftarrow> probe (cfg_mask C) (stop_at C k) (tb_entries t) (cfg_hash C k);
       Some (if \<not> cfg_occupied C entry then None else Some entry)
     }"

text \<open>
  The backward-shift loop of \<open>remove\<close>: \<open>cur\<close> is the hole, \<open>nxt\<close> scans the rest of the run, and an
  entry moves into the hole unless its ideal slot lies cyclically in \<open>(cur, nxt]\<close>. The result is
  the vector and the final hole.
\<close>

definition can_shift :: "nat \<Rightarrow> nat \<Rightarrow> nat \<Rightarrow> bool" where
  "can_shift cur nxt ideal \<longleftrightarrow>
     (if cur < nxt then ideal \<le> cur \<or> ideal > nxt else ideal \<le> cur \<and> ideal > nxt)"

partial_function (option) bshift ::
  "nat \<Rightarrow> ('e \<Rightarrow> bool) \<Rightarrow> ('e \<Rightarrow> nat) \<Rightarrow> 'e vec \<Rightarrow> nat \<Rightarrow> nat \<Rightarrow> ('e vec \<times> nat) option" where
  "bshift msk occ home v cur nxt =
     do {
       e \<leftarrow> vget v nxt;
       if \<not> occ e then Some (v, cur)
       else if can_shift cur nxt (home e) then
         do {
           w \<leftarrow> vset v cur e;
           bshift msk occ home w nxt ((nxt + 1) AND msk)
         }
       else bshift msk occ home v cur ((nxt + 1) AND msk)
     }"

definition idx_remove ::
  "('e, 'k) index_cfg \<Rightarrow> 'e table \<Rightarrow> 'k \<Rightarrow> ('e table \<times> 'e option) option" where
  "idx_remove C t k =
     do {
       (i, entry) \<leftarrow> probe (cfg_mask C) (stop_at C k) (tb_entries t) (cfg_hash C k);
       if \<not> cfg_occupied C entry then Some (t, None)
       else do {
         (v, cur) \<leftarrow> bshift (cfg_mask C) (cfg_occupied C) (\<lambda>e. cfg_hash C (cfg_key C e))
                        (tb_entries t) i ((i + 1) AND cfg_mask C);
         v \<leftarrow> vset v cur (cfg_default C);
         Some (\<lparr>tb_entries = v, tb_count = tb_count t - 1\<rparr>, Some entry)
       }
     }"

declare probe.simps [code] bshift.simps [code]

section \<open>Cyclic distance\<close>

definition cdist :: "nat \<Rightarrow> nat \<Rightarrow> nat \<Rightarrow> nat" where
  "cdist N a b = (if a \<le> b then b - a else N - a + b)"

definition cnext :: "nat \<Rightarrow> nat \<Rightarrow> nat" where
  "cnext N i = (if i + 1 = N then 0 else i + 1)"

lemma and_mask_cnext:
  assumes "i < 2 ^ b"
  shows "(i + 1) AND (2 ^ b - 1) = cnext (2 ^ b) i"
proof -
  have "(i + 1) AND (2 ^ b - 1) = take_bit b (i + 1)"
    by (simp only: take_bit_eq_mask mask_eq_exp_minus_1)
  also have "\<dots> = (i + 1) mod 2 ^ b"
    by (rule take_bit_eq_mod)
  finally have "(i + 1) AND (2 ^ b - 1) = (i + 1) mod 2 ^ b" .
  with assms show ?thesis by (auto simp: cnext_def)
qed

lemma cdist_self [simp]: "cdist N a a = 0"
  by (simp add: cdist_def)

lemma cdist_less: "a < N \<Longrightarrow> b < N \<Longrightarrow> cdist N a b < N"
  by (auto simp: cdist_def)

lemma cdist_0_iff: "a < N \<Longrightarrow> b < N \<Longrightarrow> cdist N a b = 0 \<longleftrightarrow> a = b"
  by (auto simp: cdist_def)

lemma cdist_inj: "a < N \<Longrightarrow> b < N \<Longrightarrow> c < N \<Longrightarrow> cdist N a b = cdist N a c \<Longrightarrow> b = c"
  by (auto simp: cdist_def split: if_splits)

lemma cdist_via:
  "a < N \<Longrightarrow> b < N \<Longrightarrow> c < N \<Longrightarrow> cdist N a b \<le> cdist N a c \<Longrightarrow>
     cdist N a c = cdist N a b + cdist N b c"
  by (auto simp: cdist_def split: if_splits)

lemma cdist_via':
  "a < N \<Longrightarrow> b < N \<Longrightarrow> c < N \<Longrightarrow> cdist N b c \<le> cdist N a c \<Longrightarrow>
     cdist N a c = cdist N a b + cdist N b c"
  by (auto simp: cdist_def split: if_splits)

lemma cdist_add:
  "a < N \<Longrightarrow> b < N \<Longrightarrow> c < N \<Longrightarrow> cdist N a b + cdist N b c < N \<Longrightarrow>
     cdist N a c = cdist N a b + cdist N b c"
  by (auto simp: cdist_def split: if_splits)

lemma cnext_less: "i < N \<Longrightarrow> cnext N i < N"
  by (auto simp: cnext_def)

lemma cdist_cnext: "a < N \<Longrightarrow> b < N \<Longrightarrow> cnext N b \<noteq> a \<Longrightarrow> cdist N a (cnext N b) = Suc (cdist N a b)"
  by (auto simp: cdist_def cnext_def)

lemma cdist_from_cnext:
  "a < N \<Longrightarrow> b < N \<Longrightarrow> a \<noteq> b \<Longrightarrow> cdist N a b = Suc (cdist N (cnext N a) b)"
  by (auto simp: cdist_def cnext_def)

lemma cnext_neq: "1 < N \<Longrightarrow> i < N \<Longrightarrow> cnext N i \<noteq> i"
  by (auto simp: cnext_def)

lemma can_shift_iff:
  "cur < N \<Longrightarrow> nxt < N \<Longrightarrow> h < N \<Longrightarrow> cur \<noteq> nxt \<Longrightarrow>
     can_shift cur nxt h \<longleftrightarrow> cdist N cur nxt \<le> cdist N h nxt"
  by (auto simp: can_shift_def cdist_def)

section \<open>Correctness\<close>

locale open_index =
  fixes C :: "('e, 'k) index_cfg" and b :: nat
  assumes capacity: "cfg_capacity C = 2 ^ b"
    and bits: "1 \<le> b"
    and hash_bound: "cfg_hash C k < cfg_capacity C"
    and default_free: "\<not> cfg_occupied C (cfg_default C)"
begin

definition occ :: "'e vec \<Rightarrow> nat \<Rightarrow> bool" where
  "occ v i \<longleftrightarrow> cfg_occupied C (vfun v i)"

definition key :: "'e vec \<Rightarrow> nat \<Rightarrow> 'k" where
  "key v i = cfg_key C (vfun v i)"

definition home :: "'e vec \<Rightarrow> nat \<Rightarrow> nat" where
  "home v i = cfg_hash C (key v i)"

abbreviation N :: nat where
  "N \<equiv> cfg_capacity C"

text \<open>Every slot between the ideal slot of an entry and the entry itself is occupied.\<close>

definition chained :: "'e vec \<Rightarrow> bool" where
  "chained v \<longleftrightarrow>
     (\<forall>i<N. occ v i \<longrightarrow> (\<forall>k<N. cdist N (home v i) k < cdist N (home v i) i \<longrightarrow> occ v k))"

definition unique_keys :: "'e vec \<Rightarrow> bool" where
  "unique_keys v \<longleftrightarrow> (\<forall>i<N. \<forall>j<N. occ v i \<and> occ v j \<and> i \<noteq> j \<longrightarrow> key v i \<noteq> key v j)"

definition occupied_slots :: "'e vec \<Rightarrow> nat set" where
  "occupied_slots v = {i. i < N \<and> occ v i}"

definition inv :: "'e table \<Rightarrow> bool" where
  "inv t \<longleftrightarrow>
     vlen (tb_entries t) = N \<and> chained (tb_entries t) \<and> unique_keys (tb_entries t) \<and>
     tb_count t = card (occupied_slots (tb_entries t)) \<and> tb_count t \<le> (N * 8) div 10"

definition holds :: "'e vec \<Rightarrow> 'k \<Rightarrow> 'e \<Rightarrow> bool" where
  "holds v k e \<longleftrightarrow> (\<exists>i<N. occ v i \<and> key v i = k \<and> vfun v i = e)"

lemma N_gt_1: "1 < N"
  using power_increasing [OF bits, of "2::nat"] capacity by simp

lemma mask_step: "i < N \<Longrightarrow> (i + 1) AND cfg_mask C = cnext N i"
  by (simp only: cfg_mask_def capacity and_mask_cnext)

lemma home_less [simp]: "home v i < N"
  by (simp add: home_def hash_bound)

lemma finite_occupied [simp]: "finite (occupied_slots v)"
  by (simp add: occupied_slots_def)

lemma free_slot:
  assumes "inv t"
  obtains f where "f < N" "\<not> occ (tb_entries t) f"
proof -
  have "(N * 8) div 10 < N"
    using N_gt_1 by simp
  with assms have "card (occupied_slots (tb_entries t)) < card {..<N}"
    by (simp add: inv_def)
  then have "\<not> {..<N} \<subseteq> occupied_slots (tb_entries t)"
    using card_mono [OF finite_occupied, of "{..<N}" "tb_entries t"] by (meson not_less)
  then obtain f where "f < N" "f \<notin> occupied_slots (tb_entries t)" by blast
  then show ?thesis by (intro that [of f]) (simp_all add: occupied_slots_def)
qed

lemma chainedD:
  "chained v \<Longrightarrow> i < N \<Longrightarrow> occ v i \<Longrightarrow> k < N \<Longrightarrow>
     cdist N (home v i) k < cdist N (home v i) i \<Longrightarrow> occ v k"
  unfolding chained_def by blast

lemma chainedI:
  "(\<And>i k. i < N \<Longrightarrow> occ v i \<Longrightarrow> k < N \<Longrightarrow>
     cdist N (home v i) k < cdist N (home v i) i \<Longrightarrow> occ v k) \<Longrightarrow> chained v"
  unfolding chained_def by blast

lemma unique_keysI:
  "(\<And>i j. i < N \<Longrightarrow> j < N \<Longrightarrow> occ v i \<Longrightarrow> occ v j \<Longrightarrow> i \<noteq> j \<Longrightarrow> key v i \<noteq> key v j) \<Longrightarrow>
     unique_keys v"
  unfolding unique_keys_def by blast

lemma unique_keysD:
  "unique_keys v \<Longrightarrow> i < N \<Longrightarrow> j < N \<Longrightarrow> occ v i \<Longrightarrow> occ v j \<Longrightarrow> key v i = key v j \<Longrightarrow> i = j"
  unfolding unique_keys_def by blast

lemma holds_unique: "unique_keys v \<Longrightarrow> holds v k e \<Longrightarrow> holds v k e' \<Longrightarrow> e = e'"
  by (auto simp: holds_def dest: unique_keysD)

text \<open>The probe loop stops at the first slot, cyclically from its start, where it may.\<close>

lemma probe_stops:
  assumes "vlen v = N" "s < N" "f < N" "stop (vfun v f)"
  shows "\<exists>i<N. probe (cfg_mask C) stop v s = Some (i, vfun v i) \<and> stop (vfun v i) \<and>
           (\<forall>k<N. cdist N s k < cdist N s i \<longrightarrow> \<not> stop (vfun v k))"
  using assms
proof (induction "cdist N s f" arbitrary: s rule: less_induct)
  case less
  show ?case
  proof (cases "stop (vfun v s)")
    case True
    with less.prems have "probe (cfg_mask C) stop v s = Some (s, vfun v s)"
      by (subst probe.simps) simp
    with True less.prems show ?thesis by (intro exI [of _ s]) simp
  next
    case False
    with less.prems have "s \<noteq> f" by auto
    with less.prems have "cdist N (cnext N s) f < cdist N s f"
      by (simp add: cdist_from_cnext)
    with less.prems obtain i where i: "i < N"
      "probe (cfg_mask C) stop v (cnext N s) = Some (i, vfun v i)" "stop (vfun v i)"
      "\<forall>k<N. cdist N (cnext N s) k < cdist N (cnext N s) i \<longrightarrow> \<not> stop (vfun v k)"
      using less.hyps [of "cnext N s"] by (auto simp: cnext_less)
    from False less.prems i(2) have "probe (cfg_mask C) stop v s = Some (i, vfun v i)"
      by (subst probe.simps) (simp add: mask_step del: One_nat_def)
    moreover have "\<not> stop (vfun v k)" if "k < N" "cdist N s k < cdist N s i" for k
    proof (cases "k = s")
      case True
      with False show ?thesis by simp
    next
      case k: False
      from i(3) False have "i \<noteq> s" by auto
      with k that less.prems i(1) have "cdist N (cnext N s) k < cdist N (cnext N s) i"
        by (simp add: cdist_from_cnext)
      with i(4) that show ?thesis by blast
    qed
    ultimately show ?thesis using i by blast
  qed
qed

text \<open>
  A slot that holds a key is where the probe for the key stops; a probe that stops at a free slot
  proves that no slot holds the key.
\<close>

lemma probe_key:
  assumes v: "vlen v = N" "chained v" "unique_keys v" and f: "f < N" "\<not> occ v f"
  shows "\<exists>j<N. probe (cfg_mask C) (stop_at C k) v (cfg_hash C k) = Some (j, vfun v j) \<and>
           (occ v j \<longrightarrow> key v j = k) \<and> (\<forall>i<N. occ v i \<and> key v i = k \<longrightarrow> j = i) \<and>
           (\<forall>i<N. cdist N (cfg_hash C k) i < cdist N (cfg_hash C k) j \<longrightarrow> occ v i)"
proof -
  let ?h = "cfg_hash C k"
  have h: "?h < N" by (rule hash_bound)
  from f have "stop_at C k (vfun v f)" by (simp add: stop_at_def occ_def)
  from probe_stops [of v ?h f "stop_at C k", OF v(1) h f(1) this] obtain j where j: "j < N"
    "probe (cfg_mask C) (stop_at C k) v ?h = Some (j, vfun v j)" "stop_at C k (vfun v j)"
    "\<forall>i<N. cdist N ?h i < cdist N ?h j \<longrightarrow> \<not> stop_at C k (vfun v i)" by blast
  have at: "j = i" if i: "i < N" "occ v i" "key v i = k" for i
  proof (rule linorder_cases [of "cdist N ?h i" "cdist N ?h j"])
    assume "cdist N ?h i < cdist N ?h j"
    with j(4) i show ?thesis by (auto simp: stop_at_def key_def)
  next
    assume "cdist N ?h i = cdist N ?h j"
    then show ?thesis using cdist_inj [OF h i(1) j(1)] by simp
  next
    assume "cdist N ?h j < cdist N ?h i"
    moreover have "home v i = ?h" using i by (simp add: home_def)
    ultimately have "occ v j" using chainedD [OF v(2) i(1,2) j(1)] by simp
    with j(3) have "key v j = k" by (simp add: stop_at_def occ_def key_def)
    with \<open>occ v j\<close> i j(1) v(3) show ?thesis using unique_keysD [of v j i] by simp
  qed
  then have "\<forall>i<N. occ v i \<and> key v i = k \<longrightarrow> j = i" by blast
  moreover have "occ v j \<longrightarrow> key v j = k"
    using j(3) by (auto simp: stop_at_def occ_def key_def)
  moreover have "\<forall>i<N. cdist N ?h i < cdist N ?h j \<longrightarrow> occ v i"
    using j(4) by (auto simp: stop_at_def occ_def)
  ultimately show ?thesis
    using j(1,2) by (intro exI [of _ j] conjI)
qed

definition idx_map :: "'e table \<Rightarrow> 'k \<Rightarrow> 'e option" where
  "idx_map t k = (case idx_lookup C t k of Some r \<Rightarrow> r | None \<Rightarrow> None)"

lemma lookup_returns:
  assumes "inv t"
  shows "idx_lookup C t k = Some (idx_map t k)"
    and "idx_map t k = Some e \<longleftrightarrow> holds (tb_entries t) k e"
proof -
  let ?v = "tb_entries t"
  from assms have v: "vlen ?v = N" "chained ?v" "unique_keys ?v" by (simp_all add: inv_def)
  obtain f where f: "f < N" "\<not> occ ?v f" using free_slot [OF assms] .
  obtain j where j: "j < N"
    "probe (cfg_mask C) (stop_at C k) ?v (cfg_hash C k) = Some (j, vfun ?v j)"
    "occ ?v j \<longrightarrow> key ?v j = k"
    "\<forall>i<N. occ ?v i \<and> key ?v i = k \<longrightarrow> j = i"
    "\<forall>i<N. cdist N (cfg_hash C k) i < cdist N (cfg_hash C k) j \<longrightarrow> occ ?v i"
    using probe_key [OF v f, of k] by (elim exE conjE) (rule that)
  from j(2) have look: "idx_lookup C t k = Some (if occ ?v j then Some (vfun ?v j) else None)"
    by (simp add: idx_lookup_def occ_def)
  then show "idx_lookup C t k = Some (idx_map t k)" by (simp add: idx_map_def)
  from look have m: "idx_map t k = (if occ ?v j then Some (vfun ?v j) else None)"
    by (simp add: idx_map_def)
  show "idx_map t k = Some e \<longleftrightarrow> holds ?v k e"
  proof
    assume "idx_map t k = Some e"
    with m j(1,3) show "holds ?v k e" by (auto simp: holds_def split: if_splits)
  next
    assume "holds ?v k e"
    then obtain i where i: "i < N" "occ ?v i" "key ?v i = k" "vfun ?v i = e"
      by (auto simp: holds_def)
    with j(4) have "j = i" by blast
    with m i show "idx_map t k = Some e" by simp
  qed
qed

lemma map_None_iff: "inv t \<Longrightarrow> idx_map t k = None \<longleftrightarrow> (\<forall>e. \<not> holds (tb_entries t) k e)"
  using lookup_returns(2) [of t k] by (metis not_None_eq)

lemma map_key: "inv t \<Longrightarrow> idx_map t k = Some e \<Longrightarrow> cfg_key C e = k"
  by (auto simp: lookup_returns holds_def key_def)

lemma map_occupied: "inv t \<Longrightarrow> idx_map t k = Some e \<Longrightarrow> cfg_occupied C e"
  by (auto simp: lookup_returns holds_def occ_def)

lemma map_eqI:
  assumes "inv t" and "\<And>e. holds (tb_entries t) k e \<longleftrightarrow> r = Some e"
  shows "idx_map t k = r"
  using assms map_None_iff [of t k] by (cases r) (auto simp: lookup_returns)

lemma inv_new: "inv (idx_new C)"
  using default_free by (simp add: inv_def idx_new_def chained_def unique_keys_def occ_def occupied_slots_def)

lemma map_new: "idx_map (idx_new C) = (\<lambda>_. None)"
proof
  fix k
  show "idx_map (idx_new C) k = None"
    using default_free inv_new
    by (intro map_eqI) (simp_all add: holds_def idx_new_def occ_def)
qed

text \<open>The number of keys is the counter.\<close>

lemma card_dom:
  assumes "inv t"
  shows "card (dom (idx_map t)) = tb_count t" "finite (dom (idx_map t))"
proof -
  let ?v = "tb_entries t"
  have "dom (idx_map t) = key ?v ` occupied_slots ?v"
    using assms by (auto simp: dom_def lookup_returns holds_def occupied_slots_def)
  moreover have "inj_on (key ?v) (occupied_slots ?v)"
    using assms by (auto simp: inv_def unique_keys_def inj_on_def occupied_slots_def)
  ultimately show "card (dom (idx_map t)) = tb_count t" "finite (dom (idx_map t))"
    using assms by (simp_all add: card_image inv_def)
qed

subsection \<open>Insertion\<close>

lemma occ_vupd [simp]: "occ (vupd v i f) j = (if j = i then cfg_occupied C (f (vfun v i)) else occ v j)"
  by (simp add: occ_def)

lemma key_vupd [simp]: "key (vupd v i f) j = (if j = i then cfg_key C (f (vfun v i)) else key v j)"
  by (simp add: key_def)

lemma home_vupd [simp]:
  "home (vupd v i f) j = (if j = i then cfg_hash C (cfg_key C (f (vfun v i))) else home v j)"
  by (simp add: home_def)

lemma insert_full:
  "(N * 8) div 10 \<le> tb_count t \<Longrightarrow> idx_insert C t new = Some (t, Inl EngineFull)"
  by (simp add: idx_insert_def)

lemma insert_ok:
  assumes "inv t" "tb_count t < (N * 8) div 10" "cfg_occupied C new"
  obtains t' where "idx_insert C t new = Some (t', Inr ())" "inv t'"
    "idx_map t' = (idx_map t)(cfg_key C new \<mapsto> new)"
proof -
  let ?v = "tb_entries t" and ?k = "cfg_key C new"
  from assms(1) have v: "vlen ?v = N" "chained ?v" "unique_keys ?v" by (simp_all add: inv_def)
  obtain f where f: "f < N" "\<not> occ ?v f" using free_slot [OF assms(1)] .
  obtain j where j: "j < N"
    "probe (cfg_mask C) (stop_at C ?k) ?v (cfg_hash C ?k) = Some (j, vfun ?v j)"
    "occ ?v j \<longrightarrow> key ?v j = ?k"
    "\<forall>i<N. occ ?v i \<and> key ?v i = ?k \<longrightarrow> j = i"
    "\<forall>i<N. cdist N (cfg_hash C ?k) i < cdist N (cfg_hash C ?k) j \<longrightarrow> occ ?v i"
    using probe_key [OF v f, of ?k] by (elim exE conjE) (rule that)
  from j(4) have other: "key ?v x \<noteq> ?k" if "x < N" "occ ?v x" "x \<noteq> j" for x
    using that by blast
  define w where "w = vupd ?v j (\<lambda>_. new)"
  define t' where "t' = \<lparr>tb_entries = w, tb_count = (if \<not> occ ?v j then tb_count t + 1 else tb_count t)\<rparr>"
  have ins: "idx_insert C t new = Some (t', Inr ())"
    using assms(2) j(1,2) v(1) by (simp add: idx_insert_def t'_def w_def occ_def)
  have "chained w"
  proof (rule chainedI)
    fix i k
    assume *: "i < N" "occ w i" "k < N" "cdist N (home w i) k < cdist N (home w i) i"
    show "occ w k"
    proof (cases "i = j")
      case True
      with * j(5) assms(3) show ?thesis by (simp add: w_def)
    next
      case False
      with * have "occ ?v k" by (intro chainedD [OF v(2), of i k]) (simp_all add: w_def)
      with assms(3) show ?thesis by (simp add: w_def)
    qed
  qed
  moreover have "unique_keys w"
  proof (rule unique_keysI)
    fix i i'
    assume *: "i < N" "i' < N" "occ w i" "occ w i'" "i \<noteq> i'"
    show "key w i \<noteq> key w i'"
      using * other [of i] other [of i'] unique_keysD [OF v(3), of i i']
      by (cases "i = j"; cases "i' = j") (auto simp: w_def)
  qed
  moreover have "occupied_slots w = insert j (occupied_slots ?v)"
    using j(1) assms(3) by (auto simp: occupied_slots_def w_def)
  moreover have "j \<in> occupied_slots ?v \<longleftrightarrow> occ ?v j"
    using j(1) by (simp add: occupied_slots_def)
  ultimately have inv': "inv t'"
    using assms(1,2) v(1) by (auto simp: inv_def t'_def w_def card_insert_if)
  have "idx_map t' k = ((idx_map t)(?k \<mapsto> new)) k" for k
  proof (rule map_eqI [OF inv'])
    fix e
    have "holds w k e \<longleftrightarrow> (if k = ?k then e = new else holds ?v k e)"
    proof (cases "k = ?k")
      case True
      with j(1) other assms(3) show ?thesis by (auto simp: holds_def w_def)
    next
      case False
      then have "holds w k e = holds ?v k e"
        unfolding holds_def using j(3) assms(3) by (intro ex_cong1) (auto simp: w_def)
      with False show ?thesis by simp
    qed
    then show "holds (tb_entries t') k e \<longleftrightarrow> ((idx_map t)(?k \<mapsto> new)) k = Some e"
      using assms(1) by (auto simp: lookup_returns(2) t'_def)
  qed
  then have "idx_map t' = (idx_map t)(?k \<mapsto> new)" by blast
  with ins inv' show ?thesis by (rule that)
qed

subsection \<open>Backward-shift deletion\<close>

text \<open>
  The loop invariant: \<open>cur\<close> is a hole whose stale entry no longer counts. The slots strictly between
  the hole and the scan position are occupied, and their probe chains do not pass through the hole;
  all other chains may still do so.
\<close>

definition shift_inv :: "'e vec \<Rightarrow> nat \<Rightarrow> nat \<Rightarrow> bool" where
  "shift_inv v cur nxt \<longleftrightarrow>
     vlen v = N \<and> cur < N \<and> nxt < N \<and> cur \<noteq> nxt \<and> occ v cur \<and>
     (\<forall>k<N. 0 < cdist N cur k \<and> cdist N cur k < cdist N cur nxt \<longrightarrow>
        occ v k \<and> cdist N (home v k) k < cdist N cur k) \<and>
     (\<forall>i<N. i \<noteq> cur \<and> occ v i \<longrightarrow>
        (\<forall>k<N. cdist N (home v i) k < cdist N (home v i) i \<longrightarrow> occ v k)) \<and>
     (\<forall>i<N. \<forall>j<N. i \<noteq> cur \<and> j \<noteq> cur \<and> occ v i \<and> occ v j \<and> i \<noteq> j \<longrightarrow> key v i \<noteq> key v j)"

lemma shift_invD:
  assumes "shift_inv v cur nxt"
  shows "vlen v = N" "cur < N" "nxt < N" "cur \<noteq> nxt" "occ v cur"
    and "k < N \<Longrightarrow> 0 < cdist N cur k \<Longrightarrow> cdist N cur k < cdist N cur nxt \<Longrightarrow> occ v k"
    and "k < N \<Longrightarrow> 0 < cdist N cur k \<Longrightarrow> cdist N cur k < cdist N cur nxt \<Longrightarrow>
           cdist N (home v k) k < cdist N cur k"
    and "i < N \<Longrightarrow> i \<noteq> cur \<Longrightarrow> occ v i \<Longrightarrow> k < N \<Longrightarrow>
           cdist N (home v i) k < cdist N (home v i) i \<Longrightarrow> occ v k"
    and "i < N \<Longrightarrow> j < N \<Longrightarrow> i \<noteq> cur \<Longrightarrow> j \<noteq> cur \<Longrightarrow> occ v i \<Longrightarrow> occ v j \<Longrightarrow> i \<noteq> j \<Longrightarrow>
           key v i \<noteq> key v j"
  using assms unfolding shift_inv_def by blast+

definition holds_but :: "'e vec \<Rightarrow> nat \<Rightarrow> 'k \<Rightarrow> 'e \<Rightarrow> bool" where
  "holds_but v cur k e \<longleftrightarrow> (\<exists>i<N. i \<noteq> cur \<and> occ v i \<and> key v i = k \<and> vfun v i = e)"

lemma shift_inv_start:
  assumes "vlen v = N" "chained v" "unique_keys v" "i < N" "occ v i"
  shows "shift_inv v i (cnext N i)"
proof -
  have "cdist N i (cnext N i) = 1"
    using assms(4) N_gt_1 by (auto simp: cdist_def cnext_def)
  then have between: "\<forall>k<N. 0 < cdist N i k \<and> cdist N i k < cdist N i (cnext N i) \<longrightarrow>
      occ v k \<and> cdist N (home v k) k < cdist N i k"
    by auto
  have chains: "\<forall>j<N. j \<noteq> i \<and> occ v j \<longrightarrow>
      (\<forall>k<N. cdist N (home v j) k < cdist N (home v j) j \<longrightarrow> occ v k)"
    using chainedD [OF assms(2)] by blast
  have keys: "\<forall>j<N. \<forall>j'<N. j \<noteq> i \<and> j' \<noteq> i \<and> occ v j \<and> occ v j' \<and> j \<noteq> j' \<longrightarrow> key v j \<noteq> key v j'"
    using unique_keysD [OF assms(3)] by blast
  show ?thesis
    unfolding shift_inv_def
    using assms(1,4,5) cnext_less [OF assms(4)] cnext_neq [OF N_gt_1 assms(4)]
    by (intro conjI between chains keys) simp_all
qed

lemma no_wrap:
  assumes "shift_inv v cur nxt" "occ v nxt" "f < N" "\<not> occ v f"
  shows "cnext N nxt \<noteq> cur"
proof
  assume wrap: "cnext N nxt = cur"
  note D = shift_invD [OF assms(1)]
  from wrap D(2,3) have "cdist N cur nxt = N - 1" by (auto simp: cdist_def cnext_def split: if_splits)
  moreover from assms(2,4) D(5) have "f \<noteq> nxt" "f \<noteq> cur" by auto
  then have "0 < cdist N cur f" "cdist N cur f \<noteq> cdist N cur nxt"
    using cdist_0_iff [OF D(2) assms(3)] cdist_inj [OF D(2) assms(3) D(3)] by auto
  moreover have "cdist N cur f < N" by (rule cdist_less [OF D(2) assms(3)])
  ultimately have "occ v f" by (intro D(6) [OF assms(3)]) auto
  with assms(4) show False ..
qed

lemma shift_inv_keep:
  assumes "shift_inv v cur nxt" "occ v nxt" "cnext N nxt \<noteq> cur"
    and keep: "cdist N (home v nxt) nxt < cdist N cur nxt"
  shows "shift_inv v cur (cnext N nxt)"
proof -
  note D = shift_invD [OF assms(1)]
  have step: "cdist N cur (cnext N nxt) = Suc (cdist N cur nxt)"
    by (rule cdist_cnext [OF D(2,3) assms(3)])
  have "occ v k \<and> cdist N (home v k) k < cdist N cur k"
    if k: "k < N" "0 < cdist N cur k" "cdist N cur k < cdist N cur (cnext N nxt)" for k
  proof (cases "cdist N cur k = cdist N cur nxt")
    case True
    with cdist_inj [OF D(2) k(1) D(3)] have "k = nxt" by simp
    with assms(2) keep show ?thesis by simp
  next
    case False
    with k step D(6,7) [OF k(1)] show ?thesis by simp
  qed
  with D(1-5,8,9) assms(3) show ?thesis
    unfolding shift_inv_def by (blast intro: cnext_less)
qed

lemma shift_inv_move:
  assumes "shift_inv v cur nxt" "occ v nxt"
    and move: "cdist N cur nxt \<le> cdist N (home v nxt) nxt"
  defines "w \<equiv> vupd v cur (\<lambda>_. vfun v nxt)"
  shows "shift_inv w nxt (cnext N nxt)" "occ w i = occ v i"
    "holds_but w nxt k e = holds_but v cur k e"
proof -
  note D = shift_invD [OF assms(1)]
  have occ_w: "occ w i = occ v i" for i
    using assms(2) D(5) by (auto simp: w_def occ_def)
  then show "occ w i = occ v i" .
  have new [simp]: "home w cur = home v nxt" "key w cur = key v nxt" "vfun w cur = vfun v nxt"
    by (simp_all add: w_def home_def key_def)
  have old [simp]: "home w i = home v i" "key w i = key v i" "vfun w i = vfun v i"
    if "i \<noteq> cur" for i
    using that by (simp_all add: w_def)
  have via: "cdist N (home v nxt) nxt = cdist N (home v nxt) cur + cdist N cur nxt"
    using D(2,3) move by (intro cdist_via') simp_all
  have "cdist N nxt (cnext N nxt) = 1"
    using D(3) N_gt_1 by (auto simp: cdist_def cnext_def)
  moreover have "occ v k"
    if "i < N" "i \<noteq> nxt" "occ v i" "k < N" "cdist N (home w i) k < cdist N (home w i) i" for i k
  proof (cases "i = cur")
    case True
    with that via have "cdist N (home v nxt) k < cdist N (home v nxt) nxt" by simp
    with that D(3,4) assms(2) show ?thesis by (intro D(8) [of nxt k]) auto
  next
    case False
    with that show ?thesis by (intro D(8) [of i k]) simp_all
  qed
  moreover have "key w i \<noteq> key w j"
    if "i < N" "j < N" "i \<noteq> nxt" "j \<noteq> nxt" "occ v i" "occ v j" "i \<noteq> j" for i j
    using that D(3,4) assms(2) D(9) [of i j] D(9) [of nxt j] D(9) [of i nxt]
    by (cases "i = cur"; cases "j = cur") simp_all
  moreover have "vlen w = N" using D(1) by (simp add: w_def)
  ultimately show "shift_inv w nxt (cnext N nxt)"
    using D(3) assms(2) N_gt_1 unfolding shift_inv_def occ_w
    by (auto simp: cnext_less cnext_neq [symmetric])
  show "holds_but w nxt k e = holds_but v cur k e"
  proof
    assume "holds_but w nxt k e"
    then obtain i where i: "i < N" "i \<noteq> nxt" "occ v i" "key w i = k" "vfun w i = e"
      unfolding holds_but_def occ_w by blast
    then show "holds_but v cur k e"
      using D(3,4) assms(2) unfolding holds_but_def
      by (cases "i = cur") (auto intro: exI [of _ nxt] exI [of _ i])
  next
    assume "holds_but v cur k e"
    then obtain i where i: "i < N" "i \<noteq> cur" "occ v i" "key v i = k" "vfun v i = e"
      unfolding holds_but_def by blast
    then show "holds_but w nxt k e"
      using D(2,4,5) unfolding holds_but_def occ_w
      by (cases "i = nxt") (auto intro: exI [of _ cur] exI [of _ i])
  qed
qed

lemma shift_inv_done:
  assumes "shift_inv v cur nxt" "\<not> occ v nxt"
  shows "chained (vupd v cur (\<lambda>_. cfg_default C))" "unique_keys (vupd v cur (\<lambda>_. cfg_default C))"
proof -
  note D = shift_invD [OF assms(1)]
  let ?w = "vupd v cur (\<lambda>_. cfg_default C)"
  have old: "i \<noteq> cur" "occ v i" "home ?w i = home v i" "key ?w i = key v i" if "occ ?w i" for i
    using that default_free by (auto split: if_splits)
  show "chained ?w"
  proof (rule chainedI)
    fix i k
    assume i: "i < N" "occ ?w i" and k: "k < N" "cdist N (home ?w i) k < cdist N (home ?w i) i"
    note o = old [OF i(2)]
    let ?h = "home v i"
    from k o(3) have hk: "cdist N ?h k < cdist N ?h i" by simp
    have "occ v k" by (rule D(8) [OF i(1) o(1,2) k(1) hk])
    moreover have "k \<noteq> cur"
    proof
      assume "k = cur"
      with hk D(2) i(1) have via: "cdist N ?h i = cdist N ?h cur + cdist N cur i"
        by (intro cdist_via) simp_all
      have "i \<noteq> nxt" using assms(2) o(2) by auto
      then have ne: "cdist N cur i \<noteq> cdist N cur nxt"
        using cdist_inj [OF D(2) i(1) D(3)] by auto
      have pos: "0 < cdist N cur i" using cdist_0_iff [OF D(2) i(1)] o(1) by auto
      show False
      proof (cases "cdist N cur i < cdist N cur nxt")
        case True
        with D(7) [OF i(1) pos] via hk \<open>k = cur\<close> show False by simp
      next
        case False
        then have "cdist N cur i = cdist N cur nxt + cdist N nxt i"
          using D(2,3) i(1) by (intro cdist_via) simp_all
        moreover from False ne have "cdist N cur nxt < cdist N cur i" by simp
        ultimately have "cdist N ?h nxt < cdist N ?h i"
          using via D(2,3) i(1) cdist_less [of ?h N i] cdist_add [of ?h N cur nxt] by simp
        then have "occ v nxt" by (rule D(8) [OF i(1) o(1,2) D(3)])
        with assms(2) show False ..
      qed
    qed
    ultimately show "occ ?w k" by simp
  qed
  show "unique_keys ?w"
  proof (rule unique_keysI)
    fix i j
    assume *: "i < N" "j < N" "occ ?w i" "occ ?w j" "i \<noteq> j"
    note oi = old [OF *(3)] and oj = old [OF *(4)]
    have "key v i \<noteq> key v j"
      by (rule D(9) [OF *(1,2) oi(1) oj(1) oi(2) oj(2) *(5)])
    then show "key ?w i \<noteq> key ?w j"
      unfolding oi(4) oj(4) .
  qed
qed

abbreviation shift_from :: "'e vec \<Rightarrow> nat \<Rightarrow> nat \<Rightarrow> ('e vec \<times> nat) option" where
  "shift_from \<equiv> bshift (cfg_mask C) (cfg_occupied C) (\<lambda>e. cfg_hash C (cfg_key C e))"

text \<open>The loop returns: the scan comes closer to a free slot in every round.\<close>

lemma bshift_loop:
  assumes "shift_inv v cur nxt" "f < N" "\<not> occ v f"
  shows "\<exists>w c m. shift_from v cur nxt = Some (w, c) \<and> shift_inv w c m \<and> \<not> occ w m \<and>
           (\<forall>i. occ w i = occ v i) \<and> (\<forall>k e. holds_but w c k e = holds_but v cur k e)"
  using assms
proof (induction "cdist N nxt f" arbitrary: v cur nxt rule: less_induct)
  case less
  note D = shift_invD [OF less.prems(1)]
  show ?case
  proof (cases "occ v nxt")
    case False
    then have "shift_from v cur nxt = Some (v, cur)"
      using D(1,3) by (subst bshift.simps) (simp add: occ_def)
    with False less.prems(1) show ?thesis by blast
  next
    case True
    with less.prems(3) have "nxt \<noteq> f" by auto
    with D(3) less.prems(2) have closer: "cdist N (cnext N nxt) f < cdist N nxt f"
      by (simp add: cdist_from_cnext)
    have nw: "cnext N nxt \<noteq> cur"
      by (rule no_wrap [OF less.prems(1) True less.prems(2,3)])
    have cs: "can_shift cur nxt (home v nxt) \<longleftrightarrow> cdist N cur nxt \<le> cdist N (home v nxt) nxt"
      using D(2-4) by (intro can_shift_iff) simp_all
    show ?thesis
    proof (cases "can_shift cur nxt (home v nxt)")
      case move: True
      let ?w = "vupd v cur (\<lambda>_. vfun v nxt)"
      from move cs have le: "cdist N cur nxt \<le> cdist N (home v nxt) nxt" by simp
      note M = shift_inv_move [OF less.prems(1) True le]
      have "shift_from v cur nxt = shift_from ?w nxt (cnext N nxt)"
        using D(1-3) True move mask_step [OF D(3)]
        by (subst bshift.simps) (simp add: occ_def home_def key_def)
      moreover from M(2) less.prems(3) have "\<not> occ ?w f" by blast
      ultimately show ?thesis
        using less.hyps [OF closer M(1) less.prems(2)] unfolding M(2,3) by metis
    next
      case keep: False
      with cs have lt: "cdist N (home v nxt) nxt < cdist N cur nxt" by simp
      have "shift_from v cur nxt = shift_from v cur (cnext N nxt)"
        using D(1-3) True keep mask_step [OF D(3)]
        by (subst bshift.simps) (simp add: occ_def home_def key_def)
      with less.hyps [OF closer shift_inv_keep [OF less.prems(1) True nw lt] less.prems(2,3)]
      show ?thesis by metis
    qed
  qed
qed

lemma remove_absent:
  assumes "inv t" "idx_map t k = None"
  shows "idx_remove C t k = Some (t, None)"
proof -
  from lookup_returns(1) [OF assms(1), of k] assms(2) obtain i entry where
    "probe (cfg_mask C) (stop_at C k) (tb_entries t) (cfg_hash C k) = Some (i, entry)"
    "\<not> cfg_occupied C entry"
    by (auto simp: idx_lookup_def bind_eq_Some_conv split: if_splits)
  then show ?thesis by (simp add: idx_remove_def)
qed

lemma remove_present:
  assumes "inv t" "idx_map t k = Some e"
  obtains t' where "idx_remove C t k = Some (t', Some e)" "inv t'"
    "idx_map t' = (idx_map t)(k := None)"
proof -
  let ?v = "tb_entries t"
  from assms(1) have v: "vlen ?v = N" "chained ?v" "unique_keys ?v" by (simp_all add: inv_def)
  obtain f where f: "f < N" "\<not> occ ?v f" using free_slot [OF assms(1)] .
  obtain j where j: "j < N"
    "probe (cfg_mask C) (stop_at C k) ?v (cfg_hash C k) = Some (j, vfun ?v j)"
    "occ ?v j \<longrightarrow> key ?v j = k"
    "\<forall>i<N. occ ?v i \<and> key ?v i = k \<longrightarrow> j = i"
    "\<forall>i<N. cdist N (cfg_hash C k) i < cdist N (cfg_hash C k) j \<longrightarrow> occ ?v i"
    using probe_key [OF v f, of k] by (elim exE conjE) (rule that)
  have other: "key ?v x \<noteq> k" if "x < N" "occ ?v x" "x \<noteq> j" for x
    using j(4) that by blast
  from j(2) have "idx_lookup C t k = Some (if occ ?v j then Some (vfun ?v j) else None)"
    by (simp add: idx_lookup_def occ_def)
  with lookup_returns(1) [OF assms(1), of k] assms(2)
  have e: "occ ?v j" "vfun ?v j = e" by (auto split: if_splits)
  then have kj: "key ?v j = k" using j(3) by simp
  from bshift_loop [OF shift_inv_start [OF v j(1) e(1)] f] obtain w c m where w:
    "shift_from ?v j (cnext N j) = Some (w, c)" "shift_inv w c m" "\<not> occ w m"
    "\<And>i. occ w i = occ ?v i" "\<And>k e. holds_but w c k e = holds_but ?v j k e"
    by blast
  note D = shift_invD [OF w(2)]
  define u where "u = vupd w c (\<lambda>_. cfg_default C)"
  define t' where "t' = \<lparr>tb_entries = u, tb_count = tb_count t - 1\<rparr>"
  have rem: "idx_remove C t k = Some (t', Some e)"
    using j(1,2) e w(1) D(1,2) mask_step [OF j(1)]
    by (simp add: idx_remove_def t'_def u_def occ_def)
  have slots: "occupied_slots u = occupied_slots ?v - {c}"
    using default_free w(4) by (auto simp: occupied_slots_def u_def)
  have c_in: "c \<in> occupied_slots ?v"
    using D(2,5) w(4) by (simp add: occupied_slots_def)
  have cnt: "tb_count t = card (occupied_slots ?v)" "tb_count t \<le> (N * 8) div 10"
    using assms(1) by (simp_all add: inv_def)
  have "card (occupied_slots u) = tb_count t - 1" "tb_count t - 1 \<le> (N * 8) div 10"
    using cnt c_in by (simp_all add: slots card_Diff_singleton)
  moreover have "vlen u = N" using D(1) by (simp add: u_def)
  ultimately have inv': "inv t'"
    using shift_inv_done [OF w(2,3), folded u_def] by (simp add: inv_def t'_def)
  have "idx_map t' k' = ((idx_map t)(k := None)) k'" for k'
  proof (rule map_eqI [OF inv'])
    fix e'
    have "holds u k' e' \<longleftrightarrow> holds_but w c k' e'"
      using default_free unfolding holds_def holds_but_def u_def by (intro ex_cong1) auto
    also have "\<dots> \<longleftrightarrow> holds_but ?v j k' e'" by (rule w(5))
    also have "\<dots> \<longleftrightarrow> k' \<noteq> k \<and> holds ?v k' e'"
      using other kj unfolding holds_def holds_but_def by blast
    finally show "holds (tb_entries t') k' e' \<longleftrightarrow> ((idx_map t)(k := None)) k' = Some e'"
      using assms(1) by (auto simp: lookup_returns(2) t'_def)
  qed
  then have "idx_map t' = (idx_map t)(k := None)" by blast
  with rem inv' show ?thesis by (rule that)
qed

end

section \<open>The interface of an index\<close>

text \<open>
  What the order book relies on, for each of its three indices: a finite map from keys to entries,
  read by \<open>lookup\<close>, written by \<open>insert\<close> and \<open>remove\<close>, with every operation returning.
\<close>

locale keyed_index =
  fixes new :: 't
    and lookup :: "'t \<Rightarrow> 'k \<Rightarrow> 'e option option"
    and ins :: "'t \<Rightarrow> 'e \<Rightarrow> ('t \<times> (RejectReason + unit)) option"
    and rmv :: "'t \<Rightarrow> 'k \<Rightarrow> ('t \<times> 'e option) option"
    and count :: "'t \<Rightarrow> nat"
    and limit :: nat
    and key_of :: "'e \<Rightarrow> 'k"
    and valid :: "'e \<Rightarrow> bool"
    and invar :: "'t \<Rightarrow> bool"
    and content :: "'t \<Rightarrow> 'k \<Rightarrow> 'e option"
  assumes new_invar: "invar new"
    and new_content: "content new = (\<lambda>_. None)"
    and lookup_content: "invar t \<Longrightarrow> lookup t k = Some (content t k)"
    and ins_content: "invar t \<Longrightarrow> count t < limit \<Longrightarrow> valid e \<Longrightarrow>
          \<exists>t'. ins t e = Some (t', Inr ()) \<and> invar t' \<and> content t' = (content t)(key_of e \<mapsto> e)"
    and ins_full: "limit \<le> count t \<Longrightarrow> ins t e = Some (t, Inl EngineFull)"
    and rmv_content: "invar t \<Longrightarrow>
          \<exists>t'. rmv t k = Some (t', content t k) \<and> invar t' \<and> content t' = (content t)(k := None)"
    and count_content: "invar t \<Longrightarrow> count t = card (dom (content t))"
    and finite_content: "invar t \<Longrightarrow> finite (dom (content t))"
    and content_key: "invar t \<Longrightarrow> content t k = Some e \<Longrightarrow> key_of e = k"
    and content_valid: "invar t \<Longrightarrow> content t k = Some e \<Longrightarrow> valid e"
begin

lemma ins_ok:
  assumes "invar t" "count t < limit" "valid e"
  obtains t' where "ins t e = Some (t', Inr ())" "invar t'" "content t' = (content t)(key_of e \<mapsto> e)"
  using ins_content [OF assms] by blast

lemma rmv_ok:
  assumes "invar t"
  obtains t' where "rmv t k = Some (t', content t k)" "invar t'" "content t' = (content t)(k := None)"
  using rmv_content [OF assms] by blast

lemma lookup_after_ins:
  assumes "invar t" "count t < limit" "valid e" "ins t e = Some (t', r)"
  shows "lookup t' k = (if k = key_of e then Some (Some e) else lookup t k)"
proof -
  obtain u where "ins t e = Some (u, Inr ())" "invar u" "content u = (content t)(key_of e \<mapsto> e)"
    using assms(1-3) by (rule ins_ok)
  with assms show ?thesis by (simp add: lookup_content)
qed

lemma lookup_after_rmv:
  assumes "invar t" "rmv t k = Some (t', r)"
  shows "lookup t k = Some r" "lookup t' k' = (if k' = k then Some None else lookup t k')"
proof -
  obtain u where "rmv t k = Some (u, content t k)" "invar u" "content u = (content t)(k := None)"
    using assms(1) by (rule rmv_ok)
  with assms show "lookup t k = Some r" "lookup t' k' = (if k' = k then Some None else lookup t k')"
    by (simp_all add: lookup_content)
qed

lemma count_after_ins:
  assumes "invar t" "count t < limit" "valid e" "ins t e = Some (t', r)"
  shows "count t' = (if content t (key_of e) = None then Suc (count t) else count t)"
proof -
  obtain u where u: "ins t e = Some (u, Inr ())" "invar u" "content u = (content t)(key_of e \<mapsto> e)"
    using assms(1-3) by (rule ins_ok)
  with assms have "t' = u" by simp
  with u assms(1) show ?thesis
    by (auto simp: count_content finite_content card_insert_if domIff)
qed

lemma count_after_rmv:
  assumes "invar t" "rmv t k = Some (t', r)"
  shows "count t' = (if r = None then count t else count t - 1)"
proof -
  obtain u where u: "rmv t k = Some (u, content t k)" "invar u" "content u = (content t)(k := None)"
    using assms(1) by (rule rmv_ok)
  with assms have "t' = u" "r = content t k" by simp_all
  with u assms(1) show ?thesis
    by (auto simp: count_content finite_content card_Diff_singleton_if domIff fun_upd_idem)
qed

end

sublocale open_index \<subseteq> keyed_index
  "idx_new C" "idx_lookup C" "idx_insert C" "idx_remove C" tb_count
  "(cfg_capacity C * 8) div 10" "cfg_key C" "cfg_occupied C" inv idx_map
proof unfold_locales
  show "inv (idx_new C)" by (rule inv_new)
  show "idx_map (idx_new C) = (\<lambda>_. None)" by (rule map_new)
  fix t :: "'e table" and k :: 'k and e :: 'e
  show "cfg_capacity C * 8 div 10 \<le> tb_count t \<Longrightarrow> idx_insert C t e = Some (t, Inl EngineFull)"
    by (rule insert_full)
  assume t: "inv t"
  show "idx_lookup C t k = Some (idx_map t k)" by (rule lookup_returns(1) [OF t])
  show "\<exists>t'. idx_insert C t e = Some (t', Inr ()) \<and> inv t' \<and>
          idx_map t' = (idx_map t)(cfg_key C e \<mapsto> e)"
    if "tb_count t < cfg_capacity C * 8 div 10" "cfg_occupied C e"
    using insert_ok [OF t that] by metis
  show "\<exists>t'. idx_remove C t k = Some (t', idx_map t k) \<and> inv t' \<and> idx_map t' = (idx_map t)(k := None)"
    using remove_absent [OF t, of k] remove_present [OF t, of k] t
    by (cases "idx_map t k") (auto simp: fun_upd_idem)
  show "tb_count t = card (dom (idx_map t))" "finite (dom (idx_map t))"
    using card_dom [OF t] by simp_all
  show "idx_map t k = Some e \<Longrightarrow> cfg_key C e = k" by (rule map_key [OF t])
  show "idx_map t k = Some e \<Longrightarrow> cfg_occupied C e" by (rule map_occupied [OF t])
qed

end
