(* ===== verification/Fast_Indices.thy ===== *)
theory Fast_Indices
  imports Hash_Index
begin

text \<open>
  The three hash tables of \<open>src/book.rs\<close> as instances of \<open>Hash_Index\<close>: \<open>FastOrderIndex\<close> (order id to
  location), \<open>FastPriceIndex\<close> (price to level) and \<open>FastClientIndex\<close> (user and client order id to
  order id), with their entry types, hash functions and capacities. Each is an interpretation of
  \<open>open_index\<close>, so the map laws of \<open>keyed_index\<close> hold of it under the qualifiers \<open>oix\<close>, \<open>pix\<close> and
  \<open>cix\<close>.
\<close>

definition NULL_IDX :: u32 where
  "NULL_IDX = - 1"

definition FAST_MAP_CAPACITY :: nat where
  "FAST_MAP_CAPACITY = 262144"

definition FAST_PRICE_CAPACITY :: nat where
  "FAST_PRICE_CAPACITY = 8192"

definition FAST_CLIENT_CAPACITY :: nat where
  "FAST_CLIENT_CAPACITY = 262144"

definition FAST_MAP_MASK :: nat where
  "FAST_MAP_MASK = FAST_MAP_CAPACITY - 1"

definition FAST_PRICE_MASK :: nat where
  "FAST_PRICE_MASK = FAST_PRICE_CAPACITY - 1"

definition FAST_CLIENT_MASK :: nat where
  "FAST_CLIENT_MASK = FAST_CLIENT_CAPACITY - 1"

section \<open>Hash functions\<close>

text \<open>The 64-bit mix that all three hashes end with.\<close>

definition mix64 :: "u64 \<Rightarrow> u64" where
  "mix64 x0 =
     (let x = x0 * 0x9E3779B97F4A7C15;
          x = x XOR drop_bit 30 x;
          x = x * 0xBF58476D1CE4E5B9
      in x XOR drop_bit 27 x)"

definition order_hash :: "u64 \<Rightarrow> nat" where
  "order_hash order_id = unat (mix64 order_id) AND FAST_MAP_MASK"

definition price_hash :: "u64 \<Rightarrow> nat" where
  "price_hash price = unat (mix64 price) AND FAST_PRICE_MASK"

definition client_hash :: "u64 \<times> u64 \<Rightarrow> nat" where
  "client_hash k =
     (case k of (user_id, client_order_id) \<Rightarrow>
        unat (mix64 (user_id XOR word_rotl 32 client_order_id)) AND FAST_CLIENT_MASK)"

lemma and_mask_less: "(n :: nat) AND (2 ^ b - 1) < 2 ^ b"
  by (simp only: mask_eq_exp_minus_1 [symmetric] take_bit_eq_mask [symmetric] take_bit_nat_less_exp)

section \<open>The order index\<close>

record FastIndexEntry =
  fi_order_id :: u64
  fi_client_order_id :: u64
  fi_user_id :: u64
  fi_price :: u64
  fi_node_idx :: u32
  fi_side :: u8
  fi_occupied :: bool

definition FastIndexEntry_default :: FastIndexEntry where
  "FastIndexEntry_default =
     \<lparr>fi_order_id = 0, fi_client_order_id = 0, fi_user_id = 0, fi_price = 0,
      fi_node_idx = NULL_IDX, fi_side = 0, fi_occupied = False\<rparr>"

type_synonym FastOrderIndex = "FastIndexEntry table"

definition order_cfg :: "(FastIndexEntry, u64) index_cfg" where
  "order_cfg =
     \<lparr>cfg_capacity = FAST_MAP_CAPACITY, cfg_occupied = fi_occupied, cfg_key = fi_order_id,
      cfg_hash = order_hash, cfg_default = FastIndexEntry_default\<rparr>"

definition foi_new :: FastOrderIndex where
  "foi_new = idx_new order_cfg"

definition foi_insert ::
  "FastOrderIndex \<Rightarrow> u64 \<Rightarrow> u64 \<Rightarrow> u64 \<Rightarrow> u64 \<Rightarrow> u32 \<Rightarrow> u8 \<Rightarrow>
     (FastOrderIndex \<times> (RejectReason + unit)) option" where
  "foi_insert t order_id client_order_id user_id price node_idx side =
     idx_insert order_cfg t
       \<lparr>fi_order_id = order_id, fi_client_order_id = client_order_id, fi_user_id = user_id,
        fi_price = price, fi_node_idx = node_idx, fi_side = side, fi_occupied = True\<rparr>"

definition foi_lookup :: "FastOrderIndex \<Rightarrow> u64 \<Rightarrow> FastIndexEntry option option" where
  "foi_lookup t order_id = idx_lookup order_cfg t order_id"

definition foi_remove :: "FastOrderIndex \<Rightarrow> u64 \<Rightarrow> (FastOrderIndex \<times> FastIndexEntry option) option" where
  "foi_remove t order_id = idx_remove order_cfg t order_id"

definition foi_len :: "FastOrderIndex \<Rightarrow> nat" where
  "foi_len t = tb_count t"

definition foi_is_empty :: "FastOrderIndex \<Rightarrow> bool" where
  "foi_is_empty t \<longleftrightarrow> tb_count t = 0"

lemma order_cfg_sel [simp]:
  "cfg_capacity order_cfg = 262144" "cfg_occupied order_cfg = fi_occupied" "cfg_key order_cfg = fi_order_id"
  "cfg_hash order_cfg = order_hash" "cfg_default order_cfg = FastIndexEntry_default"
  by (simp_all add: order_cfg_def FAST_MAP_CAPACITY_def)

interpretation oix: open_index order_cfg 18
proof unfold_locales
  fix k
  show "cfg_hash order_cfg k < cfg_capacity order_cfg"
    using and_mask_less [of "unat (mix64 k)" 18]
    by (simp add: order_hash_def FAST_MAP_MASK_def FAST_MAP_CAPACITY_def)
qed (simp_all add: FastIndexEntry_default_def)

section \<open>The price index\<close>

record PriceIndexEntry =
  pi_price :: u64
  pi_level_idx :: u32
  pi_occupied :: bool

definition PriceIndexEntry_default :: PriceIndexEntry where
  "PriceIndexEntry_default = \<lparr>pi_price = 0, pi_level_idx = NULL_IDX, pi_occupied = False\<rparr>"

type_synonym FastPriceIndex = "PriceIndexEntry table"

definition price_cfg :: "(PriceIndexEntry, u64) index_cfg" where
  "price_cfg =
     \<lparr>cfg_capacity = FAST_PRICE_CAPACITY, cfg_occupied = pi_occupied, cfg_key = pi_price,
      cfg_hash = price_hash, cfg_default = PriceIndexEntry_default\<rparr>"

definition fpi_new :: FastPriceIndex where
  "fpi_new = idx_new price_cfg"

definition fpi_insert ::
  "FastPriceIndex \<Rightarrow> u64 \<Rightarrow> u32 \<Rightarrow> (FastPriceIndex \<times> (RejectReason + unit)) option" where
  "fpi_insert t price level_idx =
     idx_insert price_cfg t \<lparr>pi_price = price, pi_level_idx = level_idx, pi_occupied = True\<rparr>"

definition fpi_lookup :: "FastPriceIndex \<Rightarrow> u64 \<Rightarrow> u32 option option" where
  "fpi_lookup t price = map_option (map_option pi_level_idx) (idx_lookup price_cfg t price)"

definition fpi_remove :: "FastPriceIndex \<Rightarrow> u64 \<Rightarrow> (FastPriceIndex \<times> u32 option) option" where
  "fpi_remove t price =
     map_option (\<lambda>(t', r). (t', map_option pi_level_idx r)) (idx_remove price_cfg t price)"

lemma price_cfg_sel [simp]:
  "cfg_capacity price_cfg = 8192" "cfg_occupied price_cfg = pi_occupied" "cfg_key price_cfg = pi_price"
  "cfg_hash price_cfg = price_hash" "cfg_default price_cfg = PriceIndexEntry_default"
  by (simp_all add: price_cfg_def FAST_PRICE_CAPACITY_def)

interpretation pix: open_index price_cfg 13
proof unfold_locales
  fix k
  show "cfg_hash price_cfg k < cfg_capacity price_cfg"
    using and_mask_less [of "unat (mix64 k)" 13]
    by (simp add: price_hash_def FAST_PRICE_MASK_def FAST_PRICE_CAPACITY_def)
qed (simp_all add: PriceIndexEntry_default_def)

section \<open>The client index\<close>

record ClientIndexEntry =
  ci_user_id :: u64
  ci_client_order_id :: u64
  ci_exchange_order_id :: u64
  ci_occupied :: bool

definition ClientIndexEntry_default :: ClientIndexEntry where
  "ClientIndexEntry_default =
     \<lparr>ci_user_id = 0, ci_client_order_id = 0, ci_exchange_order_id = 0, ci_occupied = False\<rparr>"

type_synonym FastClientIndex = "ClientIndexEntry table"

definition client_cfg :: "(ClientIndexEntry, u64 \<times> u64) index_cfg" where
  "client_cfg =
     \<lparr>cfg_capacity = FAST_CLIENT_CAPACITY, cfg_occupied = ci_occupied,
      cfg_key = (\<lambda>e. (ci_user_id e, ci_client_order_id e)),
      cfg_hash = client_hash, cfg_default = ClientIndexEntry_default\<rparr>"

definition fci_new :: FastClientIndex where
  "fci_new = idx_new client_cfg"

definition fci_insert ::
  "FastClientIndex \<Rightarrow> u64 \<Rightarrow> u64 \<Rightarrow> u64 \<Rightarrow> (FastClientIndex \<times> (RejectReason + unit)) option" where
  "fci_insert t user_id client_order_id exchange_order_id =
     idx_insert client_cfg t
       \<lparr>ci_user_id = user_id, ci_client_order_id = client_order_id,
        ci_exchange_order_id = exchange_order_id, ci_occupied = True\<rparr>"

definition fci_lookup :: "FastClientIndex \<Rightarrow> u64 \<Rightarrow> u64 \<Rightarrow> u64 option option" where
  "fci_lookup t user_id client_order_id =
     map_option (map_option ci_exchange_order_id) (idx_lookup client_cfg t (user_id, client_order_id))"

definition fci_remove :: "FastClientIndex \<Rightarrow> u64 \<Rightarrow> u64 \<Rightarrow> (FastClientIndex \<times> u64 option) option" where
  "fci_remove t user_id client_order_id =
     map_option (\<lambda>(t', r). (t', map_option ci_exchange_order_id r))
       (idx_remove client_cfg t (user_id, client_order_id))"

lemma client_cfg_sel [simp]:
  "cfg_capacity client_cfg = 262144" "cfg_occupied client_cfg = ci_occupied" "cfg_key client_cfg = (\<lambda>e. (ci_user_id e, ci_client_order_id e))"
  "cfg_hash client_cfg = client_hash" "cfg_default client_cfg = ClientIndexEntry_default"
  by (simp_all add: client_cfg_def FAST_CLIENT_CAPACITY_def)

interpretation cix: open_index client_cfg 18
proof unfold_locales
  fix k
  show "cfg_hash client_cfg k < cfg_capacity client_cfg"
    using and_mask_less [of "unat (mix64 (fst k XOR word_rotl 32 (snd k)))" 18]
    by (cases k) (simp add: client_hash_def FAST_CLIENT_MASK_def FAST_CLIENT_CAPACITY_def)
qed (simp_all add: ClientIndexEntry_default_def)

section \<open>The tables as maps\<close>

text \<open>
  The maps that the tables represent: order id to entry, price to level, and client key to order
  id. The lemmas below restate the laws of \<open>keyed_index\<close> for the operations as the book calls them.
\<close>

definition order_map :: "FastOrderIndex \<Rightarrow> u64 \<Rightarrow> FastIndexEntry option" where
  "order_map t = oix.idx_map t"

definition price_map :: "FastPriceIndex \<Rightarrow> u64 \<Rightarrow> u32 option" where
  "price_map t k = map_option pi_level_idx (pix.idx_map t k)"

definition client_map :: "FastClientIndex \<Rightarrow> u64 \<times> u64 \<Rightarrow> u64 option" where
  "client_map t k = map_option ci_exchange_order_id (cix.idx_map t k)"

abbreviation order_index_ok :: "FastOrderIndex \<Rightarrow> bool" where
  "order_index_ok \<equiv> oix.inv"

abbreviation price_index_ok :: "FastPriceIndex \<Rightarrow> bool" where
  "price_index_ok \<equiv> pix.inv"

abbreviation client_index_ok :: "FastClientIndex \<Rightarrow> bool" where
  "client_index_ok \<equiv> cix.inv"

lemma dom_price_map: "dom (price_map t) = dom (pix.idx_map t)"
  by (auto simp: price_map_def dom_def)

lemma dom_client_map: "dom (client_map t) = dom (cix.idx_map t)"
  by (auto simp: client_map_def dom_def)

lemma foi_new_ok [simp]: "order_index_ok foi_new" "order_map foi_new = Map.empty" "tb_count foi_new = 0"
  using oix.new_invar oix.new_content by (simp_all add: foi_new_def order_map_def idx_new_def)

lemma fpi_new_ok [simp]: "price_index_ok fpi_new" "price_map fpi_new = Map.empty" "tb_count fpi_new = 0"
  using pix.new_invar pix.new_content by (simp_all add: fpi_new_def price_map_def idx_new_def fun_eq_iff)

lemma fci_new_ok [simp]: "client_index_ok fci_new" "client_map fci_new = Map.empty" "tb_count fci_new = 0"
  using cix.new_invar cix.new_content by (simp_all add: fci_new_def client_map_def idx_new_def fun_eq_iff)

lemma foi_lookup_eq: "order_index_ok t \<Longrightarrow> foi_lookup t k = Some (order_map t k)"
  by (simp add: foi_lookup_def order_map_def oix.lookup_content)

lemma fpi_lookup_eq: "price_index_ok t \<Longrightarrow> fpi_lookup t k = Some (price_map t k)"
  by (simp add: fpi_lookup_def price_map_def pix.lookup_content)

lemma fci_lookup_eq: "client_index_ok t \<Longrightarrow> fci_lookup t u c = Some (client_map t (u, c))"
  by (simp add: fci_lookup_def client_map_def cix.lookup_content)

lemma order_map_entry: "order_index_ok t \<Longrightarrow> order_map t k = Some e \<Longrightarrow> fi_order_id e = k \<and> fi_occupied e"
  using oix.content_key oix.content_valid by (fastforce simp: order_map_def)

lemma count_order_index:
  "order_index_ok t \<Longrightarrow> tb_count t = card (dom (order_map t)) \<and> finite (dom (order_map t))"
  using oix.count_content oix.finite_content by (simp add: order_map_def)

lemma count_price_index:
  "price_index_ok t \<Longrightarrow> tb_count t = card (dom (price_map t)) \<and> finite (dom (price_map t))"
  using pix.count_content pix.finite_content by (simp add: dom_price_map)

lemma count_client_index:
  "client_index_ok t \<Longrightarrow> tb_count t = card (dom (client_map t)) \<and> finite (dom (client_map t))"
  using cix.count_content cix.finite_content by (simp add: dom_client_map)

lemma foi_insert_ok:
  assumes "order_index_ok t" "tb_count t < 209715"
  shows "\<exists>t'. foi_insert t oid cid uid p n s = Some (t', Inr ()) \<and> order_index_ok t' \<and>
           order_map t' = (order_map t)(oid \<mapsto>
             \<lparr>fi_order_id = oid, fi_client_order_id = cid, fi_user_id = uid, fi_price = p,
              fi_node_idx = n, fi_side = s, fi_occupied = True\<rparr>)"
proof -
  let ?e = "\<lparr>fi_order_id = oid, fi_client_order_id = cid, fi_user_id = uid, fi_price = p,
              fi_node_idx = n, fi_side = s, fi_occupied = True\<rparr>"
  have "tb_count t < cfg_capacity order_cfg * 8 div 10" "cfg_occupied order_cfg ?e"
    using assms(2) by simp_all
  from oix.ins_content [OF assms(1) this] show ?thesis
    by (simp add: foi_insert_def order_map_def)
qed

lemma foi_insert_full: "209715 \<le> tb_count t \<Longrightarrow> foi_insert t oid cid uid p n s = Some (t, Inl EngineFull)"
  by (simp add: foi_insert_def idx_insert_def)

lemma foi_remove_ok:
  assumes "order_index_ok t"
  shows "\<exists>t'. foi_remove t k = Some (t', order_map t k) \<and> order_index_ok t' \<and>
           order_map t' = (order_map t)(k := None)"
  using oix.rmv_content [OF assms] by (simp add: foi_remove_def order_map_def)

lemma fpi_insert_ok:
  assumes "price_index_ok t" "tb_count t < 6553"
  shows "\<exists>t'. fpi_insert t p l = Some (t', Inr ()) \<and> price_index_ok t' \<and>
           price_map t' = (price_map t)(p \<mapsto> l)"
proof -
  let ?e = "\<lparr>pi_price = p, pi_level_idx = l, pi_occupied = True\<rparr>"
  have "tb_count t < cfg_capacity price_cfg * 8 div 10" "cfg_occupied price_cfg ?e"
    using assms(2) by simp_all
  from pix.ins_content [OF assms(1) this] show ?thesis
    by (force simp: fpi_insert_def price_map_def fun_eq_iff)
qed

lemma fpi_remove_ok:
  assumes "price_index_ok t"
  shows "\<exists>t'. fpi_remove t k = Some (t', price_map t k) \<and> price_index_ok t' \<and>
           price_map t' = (price_map t)(k := None)"
  using pix.rmv_content [OF assms, of k] by (force simp: fpi_remove_def price_map_def fun_eq_iff)

lemma fci_insert_ok:
  assumes "client_index_ok t" "tb_count t < 209715"
  shows "\<exists>t'. fci_insert t u c x = Some (t', Inr ()) \<and> client_index_ok t' \<and>
           client_map t' = (client_map t)((u, c) \<mapsto> x)"
proof -
  let ?e = "\<lparr>ci_user_id = u, ci_client_order_id = c, ci_exchange_order_id = x, ci_occupied = True\<rparr>"
  have "tb_count t < cfg_capacity client_cfg * 8 div 10" "cfg_occupied client_cfg ?e"
    using assms(2) by simp_all
  from cix.ins_content [OF assms(1) this] show ?thesis
    by (force simp: fci_insert_def client_map_def fun_eq_iff)
qed

lemma fci_remove_ok:
  assumes "client_index_ok t"
  shows "\<exists>t'. fci_remove t u c = Some (t', client_map t (u, c)) \<and> client_index_ok t' \<and>
           client_map t' = (client_map t)((u, c) := None)"
  using cix.rmv_content [OF assms, of "(u, c)"]
  by (force simp: fci_remove_def client_map_def fun_eq_iff)

end
