(* ===== verification/Arenas.thy ===== *)
theory Arenas
  imports Fast_Indices
begin

text \<open>
  The two pre-allocated arenas of \<open>src/book.rs\<close>: \<open>OrderArena\<close> and \<open>PriceLevelArena\<close>. Nodes live in a
  vector of fixed length and are named by 32-bit indices; the free nodes form a singly linked list
  through the nodes themselves. The locale \<open>free_list\<close> states what both promise: allocation hands
  out the head of the free list and fails only when the list is empty, deallocation pushes.
\<close>

definition MAX_ARENA_ORDERS :: nat where
  "MAX_ARENA_ORDERS = 131072"

definition MAX_PRICE_LEVELS :: nat where
  "MAX_PRICE_LEVELS = 4096"

lemma unat_eq_iff [simp]: "unat a = unat b \<longleftrightarrow> a = (b :: 'n::len word)"
  by (auto intro: unsigned_word_eqI)

lemma unat_NULL_IDX: "unat NULL_IDX = 4294967295"
  by (simp add: NULL_IDX_def unat_minus_one)

lemma in_range_not_NULL: "unat i < n \<Longrightarrow> n \<le> 4294967295 \<Longrightarrow> i \<noteq> NULL_IDX"
  using unat_NULL_IDX by auto

section \<open>Order arena\<close>

record OrderNode =
  on_order :: Order
  on_prev :: u32
  on_next :: u32
  on_client_id :: u64
  on_active :: bool

definition OrderNode_default :: OrderNode where
  "OrderNode_default =
     \<lparr>on_order = Order_default, on_prev = NULL_IDX, on_next = NULL_IDX, on_client_id = 0,
      on_active = False\<rparr>"

record OrderArena =
  oa_nodes :: "OrderNode vec"
  oa_free_head :: u32
  oa_active_count :: nat
  oa_capacity :: nat

definition OrderArena_new :: "nat \<Rightarrow> OrderArena" where
  "OrderArena_new capacity =
     \<lparr>oa_nodes = Vec capacity
        (\<lambda>i. OrderNode_default\<lparr>on_prev := NULL_IDX,
               on_next := (if i + 1 < capacity then of_nat (i + 1) else NULL_IDX),
               on_client_id := 0, on_active := False\<rparr>),
      oa_free_head = 0, oa_active_count = 0, oa_capacity = capacity\<rparr>"

definition oa_allocate ::
  "OrderArena \<Rightarrow> Order \<Rightarrow> u64 \<Rightarrow> (OrderArena \<times> (RejectReason + u32)) option" where
  "oa_allocate a order client_id =
     (if oa_free_head a = NULL_IDX then Some (a, Inl EngineFull)
      else do {
        let idx = oa_free_head a;
        n \<leftarrow> vget (oa_nodes a) (unat idx);
        nodes \<leftarrow> vset (oa_nodes a) (unat idx)
          \<lparr>on_order = order, on_prev = NULL_IDX, on_next = NULL_IDX, on_client_id = client_id,
           on_active = True\<rparr>;
        Some (a\<lparr>oa_free_head := on_next n, oa_nodes := nodes,
                oa_active_count := oa_active_count a + 1\<rparr>, Inr idx)
      })"

definition oa_deallocate :: "OrderArena \<Rightarrow> u32 \<Rightarrow> OrderArena" where
  "oa_deallocate a idx =
     (if idx = NULL_IDX \<or> unat idx \<ge> vlen (oa_nodes a) then a
      else a\<lparr>oa_nodes := vupd (oa_nodes a) (unat idx)
               (\<lambda>n. n\<lparr>on_active := False, on_next := oa_free_head a, on_prev := NULL_IDX\<rparr>),
             oa_free_head := idx,
             oa_active_count := oa_active_count a - 1\<rparr>)"

section \<open>Price level arena\<close>

record PriceLevelNode =
  pl_price :: u64
  pl_head_order :: u32
  pl_tail_order :: u32
  pl_prev_level :: u32
  pl_next_level :: u32
  pl_total_qty :: u64
  pl_order_count :: u32
  pl_next_free :: u32
  pl_active :: bool

definition PriceLevelNode_default :: PriceLevelNode where
  "PriceLevelNode_default =
     \<lparr>pl_price = 0, pl_head_order = NULL_IDX, pl_tail_order = NULL_IDX, pl_prev_level = NULL_IDX,
      pl_next_level = NULL_IDX, pl_total_qty = 0, pl_order_count = 0, pl_next_free = NULL_IDX,
      pl_active = False\<rparr>"

record PriceLevelArena =
  la_nodes :: "PriceLevelNode vec"
  la_free_head :: u32

definition PriceLevelArena_new :: "nat \<Rightarrow> PriceLevelArena" where
  "PriceLevelArena_new capacity =
     \<lparr>la_nodes = Vec capacity
        (\<lambda>i. PriceLevelNode_default
               \<lparr>pl_next_free := (if i + 1 < capacity then of_nat (i + 1) else NULL_IDX),
                pl_active := False\<rparr>),
      la_free_head = 0\<rparr>"

definition la_allocate ::
  "PriceLevelArena \<Rightarrow> u64 \<Rightarrow> (PriceLevelArena \<times> (RejectReason + u32)) option" where
  "la_allocate a price =
     (if la_free_head a = NULL_IDX then Some (a, Inl EngineFull)
      else do {
        let idx = la_free_head a;
        n \<leftarrow> vget (la_nodes a) (unat idx);
        nodes \<leftarrow> vset (la_nodes a) (unat idx)
          \<lparr>pl_price = price, pl_head_order = NULL_IDX, pl_tail_order = NULL_IDX,
           pl_prev_level = NULL_IDX, pl_next_level = NULL_IDX, pl_total_qty = 0,
           pl_order_count = 0, pl_next_free = NULL_IDX, pl_active = True\<rparr>;
        Some (a\<lparr>la_free_head := pl_next_free n, la_nodes := nodes\<rparr>, Inr idx)
      })"

definition la_deallocate :: "PriceLevelArena \<Rightarrow> u32 \<Rightarrow> PriceLevelArena" where
  "la_deallocate a idx =
     (if idx = NULL_IDX \<or> unat idx \<ge> vlen (la_nodes a) then a
      else a\<lparr>la_nodes := vupd (la_nodes a) (unat idx)
               (\<lambda>n. n\<lparr>pl_active := False, pl_head_order := NULL_IDX, pl_tail_order := NULL_IDX,
                      pl_prev_level := NULL_IDX, pl_next_level := NULL_IDX, pl_total_qty := 0,
                      pl_order_count := 0, pl_next_free := la_free_head a\<rparr>),
             la_free_head := idx\<rparr>)"

section \<open>Invariants\<close>

text \<open>The node that an index names (total: it is used for indices in range).\<close>

definition ond :: "OrderArena \<Rightarrow> u32 \<Rightarrow> OrderNode" where
  "ond a i = vfun (oa_nodes a) (unat i)"

definition lnd :: "PriceLevelArena \<Rightarrow> u32 \<Rightarrow> PriceLevelNode" where
  "lnd a i = vfun (la_nodes a) (unat i)"

definition free_nodes :: "(u32 \<Rightarrow> u32) \<Rightarrow> nat \<Rightarrow> u32 \<Rightarrow> u32 list \<Rightarrow> bool" where
  "free_nodes nx n h fs \<longleftrightarrow>
     h = hd_or fs NULL_IDX \<and> chain nx fs NULL_IDX \<and> distinct fs \<and> (\<forall>i\<in>set fs. unat i < n)"

text \<open>
  \<open>oa_free a fs\<close>: \<open>fs\<close> is the free list of the order arena; every node outside it is counted as
  active, and indices in range are not the null index.
\<close>

definition oa_free :: "OrderArena \<Rightarrow> u32 list \<Rightarrow> bool" where
  "oa_free a fs \<longleftrightarrow>
     vlen (oa_nodes a) \<le> 4294967295 \<and> oa_active_count a + length fs = vlen (oa_nodes a) \<and>
     free_nodes (\<lambda>i. on_next (ond a i)) (vlen (oa_nodes a)) (oa_free_head a) fs"

definition la_free :: "PriceLevelArena \<Rightarrow> u32 list \<Rightarrow> bool" where
  "la_free a fs \<longleftrightarrow>
     vlen (la_nodes a) \<le> 4294967295 \<and>
     free_nodes (\<lambda>i. pl_next_free (lnd a i)) (vlen (la_nodes a)) (la_free_head a) fs"

lemma ond_vupd [simp]:
  "ond (a\<lparr>oa_nodes := vupd (oa_nodes a) (unat i) f\<rparr>) j = (if j = i then f (ond a i) else ond a j)"
  by (simp add: ond_def)

lemma ond_update [simp]:
  "ond (a\<lparr>oa_free_head := h\<rparr>) j = ond a j" "ond (a\<lparr>oa_active_count := c\<rparr>) j = ond a j"
  by (simp_all add: ond_def)

lemma lnd_vupd [simp]:
  "lnd (a\<lparr>la_nodes := vupd (la_nodes a) (unat i) f\<rparr>) j = (if j = i then f (lnd a i) else lnd a j)"
  by (simp add: lnd_def)

lemma lnd_update [simp]: "lnd (a\<lparr>la_free_head := h\<rparr>) j = lnd a j"
  by (simp add: lnd_def)

lemma free_nodes_Nil: "free_nodes nx n h [] \<longleftrightarrow> h = NULL_IDX"
  by (simp add: free_nodes_def)

lemma free_nodes_Cons:
  "free_nodes nx n h (i # fs) \<longleftrightarrow>
     h = i \<and> unat i < n \<and> i \<notin> set fs \<and> free_nodes nx n (nx i) fs"
  by (auto simp: free_nodes_def)

lemma free_nodes_cong:
  "(\<And>i. i \<in> set fs \<Longrightarrow> nx i = nx' i) \<Longrightarrow> free_nodes nx n h fs = free_nodes nx' n h fs"
  using chain_cong [of fs nx nx'] by (simp add: free_nodes_def)

lemma free_nodes_head_not_NULL:
  "free_nodes nx n h (i # fs) \<Longrightarrow> n \<le> 4294967295 \<Longrightarrow> h \<noteq> NULL_IDX"
  using in_range_not_NULL by (auto simp: free_nodes_Cons)

text \<open>The free list of a new arena: all indices, in order.\<close>

lemma free_nodes_upt:
  assumes "\<And>k. k < n \<Longrightarrow> nx (of_nat k) = (if k + 1 < n then of_nat (k + 1) else NULL_IDX)"
    and "n \<le> 4294967295" and "m \<le> n"
  shows "free_nodes nx n (if m < n then of_nat m else NULL_IDX) (map of_nat [m..<n])"
  using assms(3)
proof (induction m rule: inc_induct)
  case base
  show ?case by (simp add: free_nodes_Nil)
next
  case (step k)
  have "unat (of_nat j :: u32) = j" if "j < n" for j
    using that assms(2) by (simp add: unat_of_nat)
  then have "of_nat k \<notin> set (map (of_nat :: nat \<Rightarrow> u32) [Suc k..<n])" "unat (of_nat k :: u32) < n"
    using step.hyps by (auto dest!: arg_cong [where f = unat])
  moreover have "map (of_nat :: nat \<Rightarrow> u32) [k..<n] = of_nat k # map of_nat [Suc k..<n]"
    using step.hyps by (simp add: upt_conv_Cons)
  moreover have "nx (of_nat k) = (if Suc k < n then of_nat (Suc k) else NULL_IDX)"
    using assms(1) [OF step.hyps(2)] by simp
  ultimately show ?case
    using step.hyps step.IH by (simp only: free_nodes_Cons if_True simp_thms)
qed

lemma oa_free_new:
  assumes "0 < n" "n \<le> 4294967295"
  shows "oa_free (OrderArena_new n) (map of_nat [0..<n])"
proof -
  have "on_next (ond (OrderArena_new n) (of_nat k)) = (if k + 1 < n then of_nat (k + 1) else NULL_IDX)"
    if "k < n" for k
    using that assms(2) by (simp add: ond_def OrderArena_new_def unat_of_nat)
  from free_nodes_upt [where m = 0, OF this assms(2)] assms show ?thesis
    by (simp add: oa_free_def OrderArena_new_def)
qed

lemma la_free_new:
  assumes "0 < n" "n \<le> 4294967295"
  shows "la_free (PriceLevelArena_new n) (map of_nat [0..<n])"
proof -
  have "pl_next_free (lnd (PriceLevelArena_new n) (of_nat k)) =
      (if k + 1 < n then of_nat (k + 1) else NULL_IDX)" if "k < n" for k
    using that assms(2) by (simp add: lnd_def PriceLevelArena_new_def unat_of_nat)
  from free_nodes_upt [where m = 0, OF this assms(2)] assms show ?thesis
    by (simp add: la_free_def PriceLevelArena_new_def)
qed

section \<open>Allocation and deallocation\<close>

lemma oa_allocate_full: "oa_free a [] \<Longrightarrow> oa_allocate a ord cid = Some (a, Inl EngineFull)"
  by (simp add: oa_free_def free_nodes_Nil oa_allocate_def)

lemma oa_allocate_ok:
  fixes ord :: Order and cid :: u64
  assumes "oa_free a (i # fs)"
  defines "a' \<equiv> a\<lparr>oa_free_head := on_next (ond a i),
      oa_nodes := vupd (oa_nodes a) (unat i)
        (\<lambda>_. \<lparr>on_order = ord, on_prev = NULL_IDX, on_next = NULL_IDX, on_client_id = cid, on_active = True\<rparr>),
      oa_active_count := oa_active_count a + 1\<rparr>"
  shows "oa_allocate a ord cid = Some (a', Inr i)" "oa_free a' fs"
proof -
  from assms(1) have i: "oa_free_head a = i" "unat i < vlen (oa_nodes a)" "i \<noteq> NULL_IDX" "i \<notin> set fs"
    using in_range_not_NULL by (auto simp: oa_free_def free_nodes_Cons)
  then show "oa_allocate a ord cid = Some (a', Inr i)"
    by (simp add: oa_allocate_def a'_def ond_def Let_def)
  have "free_nodes (\<lambda>j. on_next (ond a' j)) n h fs = free_nodes (\<lambda>j. on_next (ond a j)) n h fs" for n h
    using i(4) by (intro free_nodes_cong) (auto simp: a'_def ond_def)
  with assms(1) show "oa_free a' fs"
    by (auto simp: oa_free_def free_nodes_Cons a'_def)
qed

lemma oa_deallocate_ok:
  assumes "oa_free a fs" "unat i < vlen (oa_nodes a)" "i \<notin> set fs"
  defines "a' \<equiv> a\<lparr>oa_nodes := vupd (oa_nodes a) (unat i)
               (\<lambda>n. n\<lparr>on_active := False, on_next := oa_free_head a, on_prev := NULL_IDX\<rparr>),
             oa_free_head := i, oa_active_count := oa_active_count a - 1\<rparr>"
  shows "oa_deallocate a i = a'" "oa_free a' (i # fs)"
proof -
  from assms(1,2) have i: "i \<noteq> NULL_IDX" using in_range_not_NULL by (auto simp: oa_free_def)
  with assms(2) show "oa_deallocate a i = a'" by (simp add: oa_deallocate_def a'_def)
  have "free_nodes (\<lambda>j. on_next (ond a' j)) n h fs = free_nodes (\<lambda>j. on_next (ond a j)) n h fs" for n h
    using assms(3) by (intro free_nodes_cong) (auto simp: a'_def ond_def)
  moreover have "length fs < vlen (oa_nodes a)"
  proof -
    have "unat ` set (i # fs) \<subseteq> {..<vlen (oa_nodes a)}"
      using assms(1,2) by (auto simp: oa_free_def free_nodes_def)
    then have "card (unat ` set (i # fs)) \<le> vlen (oa_nodes a)"
      using card_mono [of "{..<vlen (oa_nodes a)}"] by fastforce
    moreover have "card (unat ` set (i # fs)) = length (i # fs)"
      using assms(1,3) by (subst card_image) (auto simp: inj_on_def distinct_card oa_free_def free_nodes_def)
    ultimately show ?thesis by simp
  qed
  ultimately show "oa_free a' (i # fs)"
    using assms(1-3) by (auto simp: oa_free_def free_nodes_Cons a'_def ond_def)
qed

lemma la_allocate_full: "la_free a [] \<Longrightarrow> la_allocate a p = Some (a, Inl EngineFull)"
  by (simp add: la_free_def free_nodes_Nil la_allocate_def)

lemma la_allocate_ok:
  fixes p :: u64
  assumes "la_free a (i # fs)"
  defines "a' \<equiv> a\<lparr>la_free_head := pl_next_free (lnd a i),
      la_nodes := vupd (la_nodes a) (unat i)
        (\<lambda>_. PriceLevelNode_default\<lparr>pl_price := p, pl_active := True\<rparr>)\<rparr>"
  shows "la_allocate a p = Some (a', Inr i)" "la_free a' fs"
proof -
  from assms(1) have i: "la_free_head a = i" "unat i < vlen (la_nodes a)" "i \<noteq> NULL_IDX" "i \<notin> set fs"
    using in_range_not_NULL by (auto simp: la_free_def free_nodes_Cons)
  then show "la_allocate a p = Some (a', Inr i)"
    by (simp add: la_allocate_def a'_def lnd_def Let_def PriceLevelNode_default_def)
  have "free_nodes (\<lambda>j. pl_next_free (lnd a' j)) n h fs =
      free_nodes (\<lambda>j. pl_next_free (lnd a j)) n h fs" for n h
    using i(4) by (intro free_nodes_cong) (auto simp: a'_def lnd_def)
  with assms(1) show "la_free a' fs"
    by (auto simp: la_free_def free_nodes_Cons a'_def)
qed

lemma la_deallocate_ok:
  assumes "la_free a fs" "unat i < vlen (la_nodes a)" "i \<notin> set fs"
  defines "a' \<equiv> a\<lparr>la_nodes := vupd (la_nodes a) (unat i)
               (\<lambda>n. n\<lparr>pl_active := False, pl_head_order := NULL_IDX, pl_tail_order := NULL_IDX,
                      pl_prev_level := NULL_IDX, pl_next_level := NULL_IDX, pl_total_qty := 0,
                      pl_order_count := 0, pl_next_free := la_free_head a\<rparr>),
             la_free_head := i\<rparr>"
  shows "la_deallocate a i = a'" "la_free a' (i # fs)"
proof -
  from assms(1,2) have i: "i \<noteq> NULL_IDX" using in_range_not_NULL by (auto simp: la_free_def)
  with assms(2) show "la_deallocate a i = a'" by (simp add: la_deallocate_def a'_def)
  have "free_nodes (\<lambda>j. pl_next_free (lnd a' j)) n h fs =
      free_nodes (\<lambda>j. pl_next_free (lnd a j)) n h fs" for n h
    using assms(3) by (intro free_nodes_cong) (auto simp: a'_def lnd_def)
  with assms(1-3) show "la_free a' (i # fs)"
    by (auto simp: la_free_def free_nodes_Cons a'_def lnd_def)
qed

section \<open>The interface of an arena\<close>

locale free_list =
  fixes alloc :: "'a \<Rightarrow> 'x \<Rightarrow> ('a \<times> (RejectReason + u32)) option"
    and dealloc :: "'a \<Rightarrow> u32 \<Rightarrow> 'a"
    and size_of :: "'a \<Rightarrow> nat"
    and is_free :: "'a \<Rightarrow> u32 list \<Rightarrow> bool"
  assumes alloc_full: "is_free a [] \<Longrightarrow> alloc a x = Some (a, Inl EngineFull)"
    and alloc_head: "is_free a (i # fs) \<Longrightarrow>
          \<exists>a'. alloc a x = Some (a', Inr i) \<and> is_free a' fs \<and> size_of a' = size_of a"
    and dealloc_push: "is_free a fs \<Longrightarrow> unat i < size_of a \<Longrightarrow> i \<notin> set fs \<Longrightarrow>
          is_free (dealloc a i) (i # fs) \<and> size_of (dealloc a i) = size_of a"
    and free_in_range: "is_free a fs \<Longrightarrow> i \<in> set fs \<Longrightarrow> unat i < size_of a"
    and free_distinct: "is_free a fs \<Longrightarrow> distinct fs"
begin

text \<open>Allocation never panics, and it fails exactly when no node is free.\<close>

lemma alloc_returns:
  assumes "is_free a fs"
  shows "\<exists>a' r. alloc a x = Some (a', r) \<and> (r = Inl EngineFull \<longleftrightarrow> fs = [])"
  using assms alloc_full alloc_head by (cases fs) blast+

lemma alloc_after_dealloc:
  assumes "is_free a fs" "unat i < size_of a" "i \<notin> set fs"
  shows "\<exists>a'. alloc (dealloc a i) x = Some (a', Inr i) \<and> is_free a' fs"
  using alloc_head [of "dealloc a i" i fs x] dealloc_push [OF assms] by blast

text \<open>Allocating \<open>n\<close> times in a row, stopping at the first failure.\<close>

primrec alloc_many :: "'a \<Rightarrow> 'x \<Rightarrow> nat \<Rightarrow> (u32 list) option" where
  "alloc_many a x 0 = Some []"
| "alloc_many a x (Suc n) =
     do {
       (a', r) \<leftarrow> alloc a x;
       (case r of Inl _ \<Rightarrow> Some [] | Inr i \<Rightarrow> do { is \<leftarrow> alloc_many a' x n; Some (i # is) })
     }"

lemma alloc_many_take:
  "is_free a fs \<Longrightarrow> alloc_many a x n = Some (take n fs)"
proof (induction n arbitrary: a fs)
  case 0
  show ?case by simp
next
  case (Suc n)
  show ?case
  proof (cases fs)
    case Nil
    with Suc.prems show ?thesis by (simp add: alloc_full)
  next
    case (Cons i fs')
    with Suc.prems alloc_head obtain a' where "alloc a x = Some (a', Inr i)" "is_free a' fs'"
      by blast
    with Cons Suc.IH show ?thesis by simp
  qed
qed

end

interpretation oal: free_list "\<lambda>a x. oa_allocate a (fst x) (snd x)" oa_deallocate
  "\<lambda>a. vlen (oa_nodes a)" oa_free
proof unfold_locales
  fix a fs i and x :: "Order \<times> u64"
  show "oa_free a [] \<Longrightarrow> oa_allocate a (fst x) (snd x) = Some (a, Inl EngineFull)"
    by (rule oa_allocate_full)
  show "oa_free a (i # fs) \<Longrightarrow> \<exists>a'. oa_allocate a (fst x) (snd x) = Some (a', Inr i) \<and>
      oa_free a' fs \<and> vlen (oa_nodes a') = vlen (oa_nodes a)"
    using oa_allocate_ok [of a i fs "fst x" "snd x"] by auto
  show "oa_free a fs \<Longrightarrow> unat i < vlen (oa_nodes a) \<Longrightarrow> i \<notin> set fs \<Longrightarrow>
      oa_free (oa_deallocate a i) (i # fs) \<and> vlen (oa_nodes (oa_deallocate a i)) = vlen (oa_nodes a)"
    using oa_deallocate_ok [of a fs i] by simp
qed (auto simp: oa_free_def free_nodes_def)

interpretation lal: free_list la_allocate la_deallocate "\<lambda>a. vlen (la_nodes a)" la_free
proof unfold_locales
  fix a fs i and x :: u64
  show "la_free a [] \<Longrightarrow> la_allocate a x = Some (a, Inl EngineFull)"
    by (rule la_allocate_full)
  show "la_free a (i # fs) \<Longrightarrow> \<exists>a'. la_allocate a x = Some (a', Inr i) \<and>
      la_free a' fs \<and> vlen (la_nodes a') = vlen (la_nodes a)"
    using la_allocate_ok [of a i fs x] by auto
  show "la_free a fs \<Longrightarrow> unat i < vlen (la_nodes a) \<Longrightarrow> i \<notin> set fs \<Longrightarrow>
      la_free (la_deallocate a i) (i # fs) \<and> vlen (la_nodes (la_deallocate a i)) = vlen (la_nodes a)"
    using la_deallocate_ok [of a fs i] by simp
qed (auto simp: la_free_def free_nodes_def)

end
