(* ===== verification/Level_Queue.thy ===== *)
theory Level_Queue
  imports Arenas
begin

text \<open>
  The FIFO order queue of a price level (\<open>PriceLevelNode::push_order\<close>, \<open>pop_order\<close>, \<open>unlink_order\<close>
  of \<open>src/book.rs\<close>): an intrusive doubly linked list through the order arena, with its head, tail,
  length and total quantity in the level node. \<open>queue_ok a l q\<close> says that level node \<open>l\<close> and arena
  \<open>a\<close> hold the queue \<open>q\<close> (a list of node indices, oldest first); the lemmas show that the three
  operations append, drop the head and delete in the middle, touch link fields only, and never
  index out of range.
\<close>

section \<open>Model\<close>

definition oget :: "OrderArena \<Rightarrow> u32 \<Rightarrow> OrderNode option" where
  "oget a i = vget (oa_nodes a) (unat i)"

definition omod :: "OrderArena \<Rightarrow> u32 \<Rightarrow> (OrderNode \<Rightarrow> OrderNode) \<Rightarrow> OrderArena option" where
  "omod a i f = do { nodes \<leftarrow> vmod (oa_nodes a) (unat i) f; Some (a\<lparr>oa_nodes := nodes\<rparr>) }"

definition pl_is_empty :: "PriceLevelNode \<Rightarrow> bool" where
  "pl_is_empty l \<longleftrightarrow> pl_head_order l = NULL_IDX"

definition push_order ::
  "PriceLevelNode \<Rightarrow> u32 \<Rightarrow> OrderArena \<Rightarrow> (PriceLevelNode \<times> OrderArena) option" where
  "push_order l node_idx a =
     do {
       a \<leftarrow> omod a node_idx (\<lambda>n. n\<lparr>on_prev := pl_tail_order l\<rparr>);
       a \<leftarrow> omod a node_idx (\<lambda>n. n\<lparr>on_next := NULL_IDX\<rparr>);
       (l, a) \<leftarrow>
         (if pl_tail_order l \<noteq> NULL_IDX
          then do { a \<leftarrow> omod a (pl_tail_order l) (\<lambda>n. n\<lparr>on_next := node_idx\<rparr>); Some (l, a) }
          else Some (l\<lparr>pl_head_order := node_idx\<rparr>, a));
       n \<leftarrow> oget a node_idx;
       Some (l\<lparr>pl_tail_order := node_idx,
               pl_total_qty := pl_total_qty l + ord_qty (on_order n),
               pl_order_count := pl_order_count l + 1\<rparr>, a)
     }"

definition pop_order ::
  "PriceLevelNode \<Rightarrow> OrderArena \<Rightarrow> (PriceLevelNode \<times> OrderArena \<times> u32 option) option" where
  "pop_order l a =
     (if pl_head_order l = NULL_IDX then Some (l, a, None)
      else do {
        let head_idx = pl_head_order l;
        h \<leftarrow> oget a head_idx;
        let next_idx = on_next h;
        let l = l\<lparr>pl_head_order := next_idx\<rparr>;
        (l, a) \<leftarrow>
          (if next_idx \<noteq> NULL_IDX
           then do { a \<leftarrow> omod a next_idx (\<lambda>n. n\<lparr>on_prev := NULL_IDX\<rparr>); Some (l, a) }
           else Some (l\<lparr>pl_tail_order := NULL_IDX\<rparr>, a));
        h \<leftarrow> oget a head_idx;
        Some (l\<lparr>pl_total_qty := sat_sub (pl_total_qty l) (ord_qty (on_order h)),
                pl_order_count := sat_sub (pl_order_count l) 1\<rparr>, a, Some head_idx)
      })"

definition unlink_order ::
  "PriceLevelNode \<Rightarrow> u32 \<Rightarrow> OrderArena \<Rightarrow> (PriceLevelNode \<times> OrderArena) option" where
  "unlink_order l node_idx a =
     do {
       n \<leftarrow> oget a node_idx;
       let prv = on_prev n;
       let nxt = on_next n;
       (l, a) \<leftarrow>
         (if prv \<noteq> NULL_IDX
          then do { a \<leftarrow> omod a prv (\<lambda>n. n\<lparr>on_next := nxt\<rparr>); Some (l, a) }
          else Some (l\<lparr>pl_head_order := nxt\<rparr>, a));
       (l, a) \<leftarrow>
         (if nxt \<noteq> NULL_IDX
          then do { a \<leftarrow> omod a nxt (\<lambda>n. n\<lparr>on_prev := prv\<rparr>); Some (l, a) }
          else Some (l\<lparr>pl_tail_order := prv\<rparr>, a));
       n \<leftarrow> oget a node_idx;
       Some (l\<lparr>pl_total_qty := sat_sub (pl_total_qty l) (ord_qty (on_order n)),
               pl_order_count := sat_sub (pl_order_count l) 1\<rparr>, a)
     }"

section \<open>Symbolic execution\<close>

definition oset :: "OrderArena \<Rightarrow> u32 \<Rightarrow> (OrderNode \<Rightarrow> OrderNode) \<Rightarrow> OrderArena" where
  "oset a i f = a\<lparr>oa_nodes := vupd (oa_nodes a) (unat i) f\<rparr>"

abbreviation olen :: "OrderArena \<Rightarrow> nat" where
  "olen a \<equiv> vlen (oa_nodes a)"

lemma oget_in [simp]: "unat i < olen a \<Longrightarrow> oget a i = Some (ond a i)"
  by (simp add: oget_def ond_def)

lemma omod_in [simp]: "unat i < olen a \<Longrightarrow> omod a i f = Some (oset a i f)"
  by (simp add: omod_def oset_def)

lemma ond_oset [simp]: "ond (oset a i f) j = (if j = i then f (ond a i) else ond a j)"
  by (simp add: oset_def)

lemma oset_fields [simp]:
  "olen (oset a i f) = olen a" "oa_free_head (oset a i f) = oa_free_head a"
  "oa_active_count (oset a i f) = oa_active_count a" "oa_capacity (oset a i f) = oa_capacity a"
  by (simp_all add: oset_def)

section \<open>The queue invariant\<close>

definition queue_ok :: "OrderArena \<Rightarrow> PriceLevelNode \<Rightarrow> u32 list \<Rightarrow> bool" where
  "queue_ok a l q \<longleftrightarrow>
     pl_head_order l = hd_or q NULL_IDX \<and> pl_tail_order l = last_or q NULL_IDX \<and>
     links (\<lambda>i. on_next (ond a i)) (\<lambda>i. on_prev (ond a i)) NULL_IDX q NULL_IDX \<and>
     distinct q \<and> (\<forall>i\<in>set q. unat i < olen a) \<and> olen a \<le> 4294967295 \<and>
     pl_order_count l = of_nat (length q)"

text \<open>What an arena update leaves alone when it changes links only.\<close>

definition same_data :: "OrderArena \<Rightarrow> OrderArena \<Rightarrow> bool" where
  "same_data a a' \<longleftrightarrow>
     olen a' = olen a \<and> oa_free_head a' = oa_free_head a \<and>
     oa_active_count a' = oa_active_count a \<and> oa_capacity a' = oa_capacity a \<and>
     (\<forall>i. on_order (ond a' i) = on_order (ond a i) \<and>
          on_client_id (ond a' i) = on_client_id (ond a i) \<and>
          on_active (ond a' i) = on_active (ond a i))"

lemma same_data_refl [simp]: "same_data a a"
  by (simp add: same_data_def)

lemma same_data_trans: "same_data a b \<Longrightarrow> same_data b c \<Longrightarrow> same_data a c"
  by (simp add: same_data_def)

lemma same_data_oset:
  assumes "same_data a b" "\<And>n. on_order (f n) = on_order n"
    "\<And>n. on_client_id (f n) = on_client_id n" "\<And>n. on_active (f n) = on_active n"
  shows "same_data a (oset b i f)"
  using assms by (simp add: same_data_def)

lemma same_dataD:
  "same_data a a' \<Longrightarrow> on_order (ond a' i) = on_order (ond a i)"
  "same_data a a' \<Longrightarrow> on_client_id (ond a' i) = on_client_id (ond a i)"
  "same_data a a' \<Longrightarrow> on_active (ond a' i) = on_active (ond a i)"
  "same_data a a' \<Longrightarrow> olen a' = olen a"
  by (simp_all add: same_data_def)

lemma queue_okD:
  assumes "queue_ok a l q"
  shows "pl_head_order l = hd_or q NULL_IDX" "pl_tail_order l = last_or q NULL_IDX"
    "links (\<lambda>i. on_next (ond a i)) (\<lambda>i. on_prev (ond a i)) NULL_IDX q NULL_IDX"
    "distinct q" "i \<in> set q \<Longrightarrow> unat i < olen a" "olen a \<le> 4294967295"
    "pl_order_count l = of_nat (length q)" "NULL_IDX \<notin> set q"
  using assms unat_NULL_IDX by (auto simp: queue_ok_def)

lemma queue_ok_cong:
  assumes "\<And>i. i \<in> set q \<Longrightarrow> on_next (ond a' i) = on_next (ond a i)"
    and "\<And>i. i \<in> set q \<Longrightarrow> on_prev (ond a' i) = on_prev (ond a i)"
    and "olen a' = olen a" "pl_head_order l' = pl_head_order l" "pl_tail_order l' = pl_tail_order l"
    and "pl_order_count l' = pl_order_count l"
  shows "queue_ok a' l' q = queue_ok a l q"
  unfolding queue_ok_def assms(3-6)
  using links_cong [of q "\<lambda>i. on_next (ond a' i)" "\<lambda>i. on_next (ond a i)"
      "\<lambda>i. on_prev (ond a' i)" "\<lambda>i. on_prev (ond a i)" NULL_IDX NULL_IDX] assms(1,2)
  by simp

lemma is_empty_iff: "queue_ok a l q \<Longrightarrow> pl_is_empty l \<longleftrightarrow> q = []"
  using hd_or_default_iff [of NULL_IDX q] by (simp add: pl_is_empty_def queue_okD)

lemma queue_ok_Nil:
  "queue_ok a l [] \<longleftrightarrow>
     pl_head_order l = NULL_IDX \<and> pl_tail_order l = NULL_IDX \<and> olen a \<le> 4294967295 \<and>
     pl_order_count l = 0"
  by (auto simp: queue_ok_def)

lemma distinct_indices_length:
  assumes "distinct q" "\<forall>i\<in>set q. unat (i :: u32) < n"
  shows "length q \<le> n"
proof -
  have "card (unat ` set q) \<le> card {..<n}"
    using assms(2) by (intro card_mono) auto
  moreover have "card (unat ` set q) = length q"
    using assms(1) by (subst card_image) (auto simp: inj_on_def distinct_card)
  ultimately show ?thesis by simp
qed

lemma queue_length: "queue_ok a l q \<Longrightarrow> length q \<le> olen a"
  by (rule distinct_indices_length) (simp_all add: queue_ok_def)

lemma count_pred:
  assumes "Suc n \<le> 4294967295"
  shows "sat_sub (of_nat (Suc n)) 1 = (of_nat n :: u32)"
proof -
  from assms have "(1 :: u32) \<le> of_nat (Suc n)"
    by (simp add: word_le_nat_alt unat_of_nat del: of_nat_Suc)
  then show ?thesis by (simp add: sat_sub_def)
qed

section \<open>The operations on the queue\<close>

lemma push_order_ok:
  assumes q: "queue_ok a l q" and i: "unat i < olen a" "i \<notin> set q"
  obtains a' where
    "push_order l i a =
       Some (l\<lparr>pl_head_order := hd_or q i, pl_tail_order := i,
               pl_total_qty := pl_total_qty l + ord_qty (on_order (ond a i)),
               pl_order_count := pl_order_count l + 1\<rparr>, a')"
    "queue_ok a' (l\<lparr>pl_head_order := hd_or q i, pl_tail_order := i,
               pl_total_qty := pl_total_qty l + ord_qty (on_order (ond a i)),
               pl_order_count := pl_order_count l + 1\<rparr>) (q @ [i])"
    "same_data a a'" "\<And>j. j \<noteq> i \<Longrightarrow> j \<notin> set q \<Longrightarrow> ond a' j = ond a j"
proof -
  note D = queue_okD [OF q]
  let ?t = "last_or q NULL_IDX"
  define b where "b = oset (oset a i (\<lambda>n. n\<lparr>on_prev := ?t\<rparr>)) i (\<lambda>n. n\<lparr>on_next := NULL_IDX\<rparr>)"
  define a' where "a' = (if q = [] then b else oset b ?t (\<lambda>n. n\<lparr>on_next := i\<rparr>))"
  let ?l = "l\<lparr>pl_head_order := hd_or q i, pl_tail_order := i,
               pl_total_qty := pl_total_qty l + ord_qty (on_order (ond a i)),
               pl_order_count := pl_order_count l + 1\<rparr>"
  have t: "?t \<in> set q" "?t \<noteq> NULL_IDX" "?t \<noteq> i" "unat ?t < olen a" if "q \<noteq> []"
    using last_or_in [OF that, of NULL_IDX] D(5,8) i(2) by auto
  have data: "same_data a a'"
    unfolding a'_def b_def by (auto intro!: same_data_oset)
  have "push_order l i a = Some (?l, a')"
  proof (cases "q = []")
    case True
    with i(1) D(1,2) show ?thesis by (simp add: push_order_def a'_def b_def)
  next
    case False
    with i(1) D(1,2) t(2-4) [OF False] show ?thesis
      by (cases l) (simp add: push_order_def a'_def b_def Let_def hd_or_hd)
  qed
  moreover have "queue_ok a' ?l (q @ [i])"
  proof -
    let ?nx = "\<lambda>j. on_next (ond a j)" and ?pv = "\<lambda>j. on_prev (ond a j)"
    let ?nx' = "\<lambda>j. on_next (ond a' j)" and ?pv' = "\<lambda>j. on_prev (ond a' j)"
    have "links ?nx' ?pv' NULL_IDX q i"
    proof (cases "q = []")
      case False
      have "links (?nx(?t := i)) ?pv NULL_IDX q i"
        by (rule links_set_last [OF D(3) False D(4)])
      then show ?thesis
        using False i(2) t by (subst links_cong [where nx' = "?nx(?t := i)" and pv' = ?pv])
          (auto simp: a'_def b_def)
    qed simp
    moreover have "links ?nx' ?pv' ?t [i] NULL_IDX"
      using t by (auto simp: a'_def b_def)
    ultimately show ?thesis
      using D i data by (auto simp: queue_ok_def links_append same_dataD(4))
  qed
  moreover have "ond a' j = ond a j" if "j \<noteq> i" "j \<notin> set q" for j
    using that t by (auto simp: a'_def b_def)
  ultimately show ?thesis using that data by blast
qed

lemma pop_order_Nil: "queue_ok a l [] \<Longrightarrow> pop_order l a = Some (l, a, None)"
  by (simp add: pop_order_def queue_ok_Nil)

lemma pop_order_Cons:
  assumes q: "queue_ok a l (i # q)"
  obtains a' where
    "pop_order l a =
       Some (l\<lparr>pl_head_order := hd_or q NULL_IDX, pl_tail_order := last_or q NULL_IDX,
               pl_total_qty := sat_sub (pl_total_qty l) (ord_qty (on_order (ond a i))),
               pl_order_count := sat_sub (pl_order_count l) 1\<rparr>, a', Some i)"
    "queue_ok a' (l\<lparr>pl_head_order := hd_or q NULL_IDX, pl_tail_order := last_or q NULL_IDX,
               pl_total_qty := sat_sub (pl_total_qty l) (ord_qty (on_order (ond a i))),
               pl_order_count := sat_sub (pl_order_count l) 1\<rparr>) q"
    "same_data a a'" "\<And>j. j \<notin> set q \<Longrightarrow> ond a' j = ond a j"
proof -
  note D = queue_okD [OF q]
  let ?h = "hd_or q NULL_IDX"
  define a' where "a' = (if q = [] then a else oset a ?h (\<lambda>n. n\<lparr>on_prev := NULL_IDX\<rparr>))"
  let ?l = "l\<lparr>pl_head_order := hd_or q NULL_IDX, pl_tail_order := last_or q NULL_IDX,
               pl_total_qty := sat_sub (pl_total_qty l) (ord_qty (on_order (ond a i))),
               pl_order_count := sat_sub (pl_order_count l) 1\<rparr>"
  have h: "?h \<in> set q" "?h \<noteq> NULL_IDX" "?h \<noteq> i" "unat ?h < olen a" if "q \<noteq> []"
    using hd_or_in [OF that, of NULL_IDX] D(4,5,8) by auto
  have i: "i \<noteq> NULL_IDX" "unat i < olen a" "on_next (ond a i) = ?h" "pl_head_order l = i"
    using D(1,3,5,8) by auto
  have data: "same_data a a'"
    unfolding a'_def by (auto intro!: same_data_oset)
  have "pop_order l a = Some (?l, a', Some i)"
  proof (cases "q = []")
    case True
    with i show ?thesis by (simp add: pop_order_def a'_def Let_def)
  next
    case False
    then obtain x q' where "q = x # q'" by (cases q) simp_all
    with False i h D(2) show ?thesis by (simp add: pop_order_def a'_def Let_def)
  qed
  moreover have "queue_ok a' ?l q"
  proof -
    let ?nx = "\<lambda>j. on_next (ond a j)" and ?pv = "\<lambda>j. on_prev (ond a j)"
    let ?nx' = "\<lambda>j. on_next (ond a' j)" and ?pv' = "\<lambda>j. on_prev (ond a' j)"
    have "links ?nx' ?pv' NULL_IDX q NULL_IDX"
    proof (cases "q = []")
      case False
      have "links ?nx (?pv(?h := NULL_IDX)) NULL_IDX q NULL_IDX"
        by (rule links_set_first [where p = i, OF _ False]) (use D(3,4) in simp_all)
      then show ?thesis
        using False by (subst links_cong [where nx' = ?nx and pv' = "?pv(?h := NULL_IDX)"])
          (auto simp: a'_def)
    qed simp
    moreover have "sat_sub (pl_order_count l) 1 = of_nat (length q)"
      using count_pred [of "length q"] queue_length [OF q] D(6,7) by simp
    ultimately show ?thesis
      using D(4-7) data by (auto simp: queue_ok_def same_dataD(4))
  qed
  moreover have "ond a' j = ond a j" if "j \<notin> set q" for j
    using that h by (auto simp: a'_def)
  ultimately show ?thesis using that data by blast
qed

lemma unlink_order_ok:
  assumes q: "queue_ok a l (xs @ i # ys)"
  obtains a' where
    "unlink_order l i a =
       Some (l\<lparr>pl_head_order := hd_or (xs @ ys) NULL_IDX, pl_tail_order := last_or (xs @ ys) NULL_IDX,
               pl_total_qty := sat_sub (pl_total_qty l) (ord_qty (on_order (ond a i))),
               pl_order_count := sat_sub (pl_order_count l) 1\<rparr>, a')"
    "queue_ok a' (l\<lparr>pl_head_order := hd_or (xs @ ys) NULL_IDX, pl_tail_order := last_or (xs @ ys) NULL_IDX,
               pl_total_qty := sat_sub (pl_total_qty l) (ord_qty (on_order (ond a i))),
               pl_order_count := sat_sub (pl_order_count l) 1\<rparr>) (xs @ ys)"
    "same_data a a'" "\<And>j. j \<notin> set (xs @ ys) \<Longrightarrow> ond a' j = ond a j"
proof -
  note D = queue_okD [OF q]
  let ?p = "last_or xs NULL_IDX" and ?n = "hd_or ys NULL_IDX"
  define b where "b = (if xs = [] then a else oset a ?p (\<lambda>n. n\<lparr>on_next := ?n\<rparr>))"
  define a' where "a' = (if ys = [] then b else oset b ?n (\<lambda>n. n\<lparr>on_prev := ?p\<rparr>))"
  let ?l = "l\<lparr>pl_head_order := hd_or (xs @ ys) NULL_IDX, pl_tail_order := last_or (xs @ ys) NULL_IDX,
               pl_total_qty := sat_sub (pl_total_qty l) (ord_qty (on_order (ond a i))),
               pl_order_count := sat_sub (pl_order_count l) 1\<rparr>"
  have p: "?p \<in> set xs" "?p \<noteq> NULL_IDX" "?p \<noteq> i" "?p \<notin> set ys" "unat ?p < olen a" if "xs \<noteq> []"
    using last_or_in [OF that, of NULL_IDX] D(4,5,8) by auto
  have n: "?n \<in> set ys" "?n \<noteq> NULL_IDX" "?n \<noteq> i" "?n \<notin> set xs" "unat ?n < olen a" if "ys \<noteq> []"
    using hd_or_in [OF that, of NULL_IDX] D(4,5,8) by auto
  have i: "unat i < olen a" "on_next (ond a i) = ?n" "on_prev (ond a i) = ?p"
    using D(3,5) by (auto simp: links_append)
  have data: "same_data a a'"
    unfolding a'_def b_def by (auto intro!: same_data_oset)
  have "unlink_order l i a = Some (?l, a')"
    using i p(2,5) n(2,5) D(1,2)
    by (cases l; cases "xs = []"; cases "ys = []")
      (simp_all add: unlink_order_def a'_def b_def Let_def hd_or_hd last_or_last)
  moreover have "queue_ok a' ?l (xs @ ys)"
  proof -
    let ?nx = "\<lambda>j. on_next (ond a j)" and ?pv = "\<lambda>j. on_prev (ond a j)"
    let ?nx' = "\<lambda>j. on_next (ond a' j)" and ?pv' = "\<lambda>j. on_prev (ond a' j)"
    have L: "links ?nx ?pv NULL_IDX xs i" "links ?nx ?pv i ys NULL_IDX" "distinct xs" "distinct ys"
      using D(3,4) by (auto simp: links_append)
    have "links ?nx' ?pv' NULL_IDX xs ?n"
    proof (cases "xs = []")
      case False
      have "links (?nx(?p := ?n)) ?pv NULL_IDX xs ?n"
        by (rule links_set_last [OF L(1) False L(3)])
      then show ?thesis
        using False p n by (subst links_cong [where nx' = "?nx(?p := ?n)" and pv' = ?pv])
          (auto simp: a'_def b_def)
    qed simp
    moreover have "links ?nx' ?pv' ?p ys NULL_IDX"
    proof (cases "ys = []")
      case False
      have "links ?nx (?pv(?n := ?p)) ?p ys NULL_IDX"
        by (rule links_set_first [OF L(2) False L(4)])
      then show ?thesis
        using False p n by (subst links_cong [where nx' = ?nx and pv' = "?pv(?n := ?p)"])
          (auto simp: a'_def b_def)
    qed simp
    moreover have "sat_sub (pl_order_count l) 1 = of_nat (length (xs @ ys))"
      using count_pred [of "length (xs @ ys)"] queue_length [OF q] D(6,7) by simp
    ultimately show ?thesis
      using D(4-7) data by (auto simp: queue_ok_def same_dataD(4) links_append)
  qed
  moreover have "ond a' j = ond a j" if "j \<notin> set (xs @ ys)" for j
    using that p n by (auto simp: a'_def b_def)
  ultimately show ?thesis using that data by blast
qed

end
