(* ===== verification/Order_Book.thy ===== *)
theory Order_Book
  imports Level_Queue
begin

text \<open>
  The matching engine of one symbol, \<open>OrderBook\<close> of \<open>src/book.rs\<close>, as the code has it: the two
  price ladders threaded through the level arena, the order queues threaded through the order
  arena, the three indices and the two counters. The two halves of the code that differ in the
  side only (linking a level, sweeping the opposite side) are one definition with an \<open>is_sell\<close>
  argument, as \<open>unlink_price_level\<close> has in the source. A \<open>&mut Vec<Trade>\<close> is a list that the
  function receives and returns extended.
\<close>

section \<open>State\<close>

record ExecutionReport =
  er_executed_qty :: u64
  er_remaining_qty :: u64
  er_stp_triggered :: bool

record OrderBook =
  ob_symbol :: Symbol
  ob_best_bid :: u32
  ob_best_ask :: u32
  ob_price_index :: FastPriceIndex
  ob_level_arena :: PriceLevelArena
  ob_order_arena :: OrderArena
  ob_order_index :: FastOrderIndex
  ob_client_order_index :: FastClientIndex
  ob_trade_id_counter :: u64
  ob_order_id_counter :: u64

definition OrderBook_new :: "Symbol \<Rightarrow> OrderBook" where
  "OrderBook_new symbol =
     \<lparr>ob_symbol = symbol, ob_best_bid = NULL_IDX, ob_best_ask = NULL_IDX,
      ob_price_index = fpi_new, ob_level_arena = PriceLevelArena_new MAX_PRICE_LEVELS,
      ob_order_arena = OrderArena_new MAX_ARENA_ORDERS, ob_order_index = foi_new,
      ob_client_order_index = fci_new, ob_trade_id_counter = 1, ob_order_id_counter = 1\<rparr>"

definition ob_next_order_id :: "OrderBook \<Rightarrow> OrderBook \<times> u64" where
  "ob_next_order_id b =
     (b\<lparr>ob_order_id_counter := ob_order_id_counter b + 1\<rparr>, ob_order_id_counter b)"

definition lget :: "PriceLevelArena \<Rightarrow> u32 \<Rightarrow> PriceLevelNode option" where
  "lget a i = vget (la_nodes a) (unat i)"

definition lmod ::
  "PriceLevelArena \<Rightarrow> u32 \<Rightarrow> (PriceLevelNode \<Rightarrow> PriceLevelNode) \<Rightarrow> PriceLevelArena option" where
  "lmod a i f = do { nodes \<leftarrow> vmod (la_nodes a) (unat i) f; Some (a\<lparr>la_nodes := nodes\<rparr>) }"

section \<open>The price ladders\<close>

definition best :: "bool \<Rightarrow> OrderBook \<Rightarrow> u32" where
  "best is_sell b = (if is_sell then ob_best_ask b else ob_best_bid b)"

definition set_best :: "bool \<Rightarrow> u32 \<Rightarrow> OrderBook \<Rightarrow> OrderBook" where
  "set_best is_sell i b = (if is_sell then b\<lparr>ob_best_ask := i\<rparr> else b\<lparr>ob_best_bid := i\<rparr>)"

text \<open>Asks are sorted ascending, bids descending: \<open>better is_sell p q\<close> is the source's comparison.\<close>

definition better :: "bool \<Rightarrow> u64 \<Rightarrow> u64 \<Rightarrow> bool" where
  "better is_sell p q \<longleftrightarrow> (if is_sell then p < q else p > q)"

text \<open>The \<open>while\<close> loop that walks to the last level better than the new price.\<close>

partial_function (option) find_slot :: "bool \<Rightarrow> PriceLevelArena \<Rightarrow> u64 \<Rightarrow> u32 \<Rightarrow> u32 option" where
  "find_slot is_sell la price cur =
     do {
       c \<leftarrow> lget la cur;
       if pl_next_level c = NULL_IDX then Some cur
       else do {
         n \<leftarrow> lget la (pl_next_level c);
         if better is_sell (pl_price n) price then find_slot is_sell la price (pl_next_level c)
         else Some cur
       }
     }"

definition link_price_level :: "OrderBook \<Rightarrow> u32 \<Rightarrow> bool \<Rightarrow> OrderBook option" where
  "link_price_level b level_idx is_sell =
     do {
       let la = ob_level_arena b;
       lvl \<leftarrow> lget la level_idx;
       let price = pl_price lvl;
       if best is_sell b = NULL_IDX then
         do {
           la \<leftarrow> lmod la level_idx (\<lambda>n. n\<lparr>pl_prev_level := NULL_IDX, pl_next_level := NULL_IDX\<rparr>);
           Some ((set_best is_sell level_idx b)\<lparr>ob_level_arena := la\<rparr>)
         }
       else do {
         head \<leftarrow> lget la (best is_sell b);
         if better is_sell price (pl_price head) then
           do {
             let old_head = best is_sell b;
             la \<leftarrow> lmod la level_idx (\<lambda>n. n\<lparr>pl_next_level := old_head, pl_prev_level := NULL_IDX\<rparr>);
             la \<leftarrow> lmod la old_head (\<lambda>n. n\<lparr>pl_prev_level := level_idx\<rparr>);
             Some ((set_best is_sell level_idx b)\<lparr>ob_level_arena := la\<rparr>)
           }
         else do {
           cur \<leftarrow> find_slot is_sell la price (best is_sell b);
           c \<leftarrow> lget la cur;
           let nxt = pl_next_level c;
           la \<leftarrow> lmod la cur (\<lambda>n. n\<lparr>pl_next_level := level_idx\<rparr>);
           la \<leftarrow> lmod la level_idx (\<lambda>n. n\<lparr>pl_prev_level := cur, pl_next_level := nxt\<rparr>);
           la \<leftarrow> (if nxt \<noteq> NULL_IDX then lmod la nxt (\<lambda>n. n\<lparr>pl_prev_level := level_idx\<rparr>)
                 else Some la);
           Some (b\<lparr>ob_level_arena := la\<rparr>)
         }
       }
     }"

definition unlink_price_level :: "OrderBook \<Rightarrow> u32 \<Rightarrow> bool \<Rightarrow> OrderBook option" where
  "unlink_price_level b level_idx is_sell =
     do {
       lvl \<leftarrow> lget (ob_level_arena b) level_idx;
       let prv = pl_prev_level lvl;
       let nxt = pl_next_level lvl;
       b \<leftarrow>
         (if prv \<noteq> NULL_IDX
          then do {
            la \<leftarrow> lmod (ob_level_arena b) prv (\<lambda>n. n\<lparr>pl_next_level := nxt\<rparr>);
            Some (b\<lparr>ob_level_arena := la\<rparr>)
          }
          else Some (set_best is_sell nxt b));
       la \<leftarrow>
         (if nxt \<noteq> NULL_IDX then lmod (ob_level_arena b) nxt (\<lambda>n. n\<lparr>pl_prev_level := prv\<rparr>)
          else Some (ob_level_arena b));
       la \<leftarrow> lmod la level_idx (\<lambda>n. n\<lparr>pl_prev_level := NULL_IDX, pl_next_level := NULL_IDX\<rparr>);
       Some (b\<lparr>ob_level_arena := la\<rparr>)
     }"

section \<open>Matching one level\<close>

text \<open>The state of the \<open>while\<close> loop of \<open>match_level\<close>: what its \<open>&mut\<close> arguments point to.\<close>

record match_state =
  ms_incoming :: Order
  ms_level :: PriceLevelNode
  ms_order_arena :: OrderArena
  ms_order_index :: FastOrderIndex
  ms_client_order_index :: FastClientIndex
  ms_trades :: "Trade list"
  ms_trade_id_counter :: u64

definition mk_trade :: "Order \<Rightarrow> u64 \<Rightarrow> Order \<Rightarrow> u64 \<Rightarrow> u64 \<Rightarrow> u64 \<Rightarrow> Trade" where
  "mk_trade incoming taker_client_id resting maker_client_id match_id trade_qty =
     (let (buyer_id, seller_id) =
        (if ord_side incoming = Side_as Buy then (ord_user_id incoming, ord_user_id resting)
         else (ord_user_id resting, ord_user_id incoming))
      in \<lparr>tr_match_id = match_id, tr_maker_order_id = ord_id resting,
          tr_taker_order_id = ord_id incoming,
          tr_maker_client_order_id = ord_client_order_id resting,
          tr_taker_client_order_id = ord_client_order_id incoming,
          tr_maker_user_id = ord_user_id resting, tr_taker_user_id = ord_user_id incoming,
          tr_maker_client_id = maker_client_id, tr_taker_client_id = taker_client_id,
          tr_buyer_id = buyer_id, tr_seller_id = seller_id, tr_maker_side = ord_side resting,
          tr_symbol_id = ord_symbol_id incoming, tr_price = ord_price resting,
          tr_qty = trade_qty\<rparr>)"

text \<open>One round of the loop after the self-trade check: the trade, and the removal of a filled order.\<close>

definition match_step :: "u64 \<Rightarrow> match_state \<Rightarrow> u32 \<Rightarrow> OrderNode \<Rightarrow> match_state option" where
  "match_step taker_client_id s resting_idx resting_node =
     do {
       let incoming = ms_incoming s;
       let trade_qty = min (ord_qty incoming) (ord_qty (on_order resting_node));
       let trade = mk_trade incoming taker_client_id (on_order resting_node)
                     (on_client_id resting_node) (ms_trade_id_counter s) trade_qty;
       let s = s\<lparr>ms_trade_id_counter := ms_trade_id_counter s + 1,
                 ms_trades := ms_trades s @ [trade],
                 ms_incoming := incoming\<lparr>ord_qty := ord_qty incoming - trade_qty\<rparr>\<rparr>;
       a \<leftarrow> omod (ms_order_arena s) resting_idx
              (\<lambda>n. n\<lparr>on_order := (on_order n)\<lparr>ord_qty := ord_qty (on_order n) - trade_qty\<rparr>\<rparr>);
       let s = s\<lparr>ms_order_arena := a,
                 ms_level := (ms_level s)\<lparr>pl_total_qty := pl_total_qty (ms_level s) - trade_qty\<rparr>\<rparr>;
       node \<leftarrow> oget (ms_order_arena s) resting_idx;
       if ord_qty (on_order node) = 0 then
         do {
           let filled_id = ord_id (on_order node);
           let filled_user_id = ord_user_id (on_order node);
           let filled_client_id = ord_client_order_id (on_order node);
           (l, a, _) \<leftarrow> pop_order (ms_level s) (ms_order_arena s);
           let a = oa_deallocate a resting_idx;
           (oi, _) \<leftarrow> foi_remove (ms_order_index s) filled_id;
           (ci, _) \<leftarrow> fci_remove (ms_client_order_index s) filled_user_id filled_client_id;
           Some (s\<lparr>ms_level := l, ms_order_arena := a, ms_order_index := oi,
                   ms_client_order_index := ci\<rparr>)
         }
       else Some s
     }"

text \<open>The result's flag is the function's: \<open>True\<close> when self-trade prevention stopped the loop.\<close>

partial_function (option) match_loop :: "u64 \<Rightarrow> match_state \<Rightarrow> (match_state \<times> bool) option" where
  "match_loop taker_client_id s =
     (if ord_qty (ms_incoming s) > 0 \<and> \<not> pl_is_empty (ms_level s) then
        do {
          let resting_idx = pl_head_order (ms_level s);
          resting_node \<leftarrow> oget (ms_order_arena s) resting_idx;
          if ord_user_id (on_order resting_node) = ord_user_id (ms_incoming s) then Some (s, True)
          else do {
            s \<leftarrow> match_step taker_client_id s resting_idx resting_node;
            match_loop taker_client_id s
          }
        }
      else Some (s, False))"

definition match_level ::
  "OrderBook \<Rightarrow> Order \<Rightarrow> u64 \<Rightarrow> u32 \<Rightarrow> Trade list \<Rightarrow>
     (OrderBook \<times> Order \<times> Trade list \<times> bool) option" where
  "match_level b incoming taker_client_id level_idx trades =
     do {
       lvl \<leftarrow> lget (ob_level_arena b) level_idx;
       (s, stp) \<leftarrow> match_loop taker_client_id
         \<lparr>ms_incoming = incoming, ms_level = lvl, ms_order_arena = ob_order_arena b,
          ms_order_index = ob_order_index b, ms_client_order_index = ob_client_order_index b,
          ms_trades = trades, ms_trade_id_counter = ob_trade_id_counter b\<rparr>;
       la \<leftarrow> lmod (ob_level_arena b) level_idx (\<lambda>_. ms_level s);
       Some (b\<lparr>ob_level_arena := la, ob_order_arena := ms_order_arena s,
               ob_order_index := ms_order_index s,
               ob_client_order_index := ms_client_order_index s,
               ob_trade_id_counter := ms_trade_id_counter s\<rparr>,
             ms_incoming s, ms_trades s, stp)
     }"

section \<open>Processing an order\<close>

text \<open>
  The two \<open>break\<close> conditions of a sweep: the limit price boundary, and the slippage boundary of a
  market order with a nonzero price.
\<close>

definition beyond_limit :: "bool \<Rightarrow> OrderType \<Rightarrow> Order \<Rightarrow> u64 \<Rightarrow> bool" where
  "beyond_limit is_sell order_type order best_price \<longleftrightarrow>
     order_type = Limit \<and>
       (if is_sell then best_price < ord_price order else best_price > ord_price order) \<or>
     order_type = Market \<and> ord_price order > 0 \<and>
       (if is_sell then best_price < ord_price order else best_price > ord_price order)"

text \<open>Removing a level that has become empty: unlink, drop from the price index, free.\<close>

definition drop_level :: "OrderBook \<Rightarrow> u32 \<Rightarrow> u64 \<Rightarrow> bool \<Rightarrow> OrderBook option" where
  "drop_level b level_idx price is_sell =
     do {
       b \<leftarrow> unlink_price_level b level_idx is_sell;
       (pi, _) \<leftarrow> fpi_remove (ob_price_index b) price;
       Some (b\<lparr>ob_price_index := pi, ob_level_arena := la_deallocate (ob_level_arena b) level_idx\<rparr>)
     }"

text \<open>The matching loop of \<open>process\<close>: sweep the levels of the opposite side from the best one on.\<close>

partial_function (option) sweep ::
  "bool \<Rightarrow> OrderType \<Rightarrow> u64 \<Rightarrow> OrderBook \<Rightarrow> Order \<Rightarrow> Trade list \<Rightarrow>
     (OrderBook \<times> Order \<times> Trade list \<times> bool) option" where
  "sweep is_sell order_type client_id b order trades =
     (if ord_qty order > 0 \<and> best (\<not> is_sell) b \<noteq> NULL_IDX then
        do {
          let best_idx = best (\<not> is_sell) b;
          lvl \<leftarrow> lget (ob_level_arena b) best_idx;
          let best_price = pl_price lvl;
          if beyond_limit is_sell order_type order best_price then Some (b, order, trades, False)
          else do {
            (b, order, trades, stp) \<leftarrow> match_level b order client_id best_idx trades;
            lvl \<leftarrow> lget (ob_level_arena b) best_idx;
            b \<leftarrow> (if pl_is_empty lvl then drop_level b best_idx best_price (\<not> is_sell) else Some b);
            if stp then Some (b, order, trades, True)
            else sweep is_sell order_type client_id b order trades
          }
        }
      else Some (b, order, trades, False))"

text \<open>
  Cancelling: the lookup by exchange id first and by client id second, the removal of the entry's
  order from its level, the arena and the indices, and \<open>cancel_order\<close> around them.
\<close>

definition find_entry :: "OrderBook \<Rightarrow> u64 \<Rightarrow> u64 \<Rightarrow> FastIndexEntry option option" where
  "find_entry b requesting_user_id order_id =
     do {
       found \<leftarrow> foi_lookup (ob_order_index b) order_id;
       (case found of
          Some e \<Rightarrow> Some (Some e)
        | None \<Rightarrow> do {
            via \<leftarrow> fci_lookup (ob_client_order_index b) requesting_user_id order_id;
            (case via of
               Some exchange_id \<Rightarrow> foi_lookup (ob_order_index b) exchange_id
             | None \<Rightarrow> Some None)
          })
     }"

definition remove_entry :: "OrderBook \<Rightarrow> FastIndexEntry \<Rightarrow> OrderBook option" where
  "remove_entry b entry =
     do {
       let is_sell = (fi_side entry = Side_as Sell);
       level \<leftarrow> fpi_lookup (ob_price_index b) (fi_price entry);
       b \<leftarrow>
         (case level of
            None \<Rightarrow> Some b
          | Some level_idx \<Rightarrow> do {
              lvl \<leftarrow> lget (ob_level_arena b) level_idx;
              (lvl, oa) \<leftarrow> unlink_order lvl (fi_node_idx entry) (ob_order_arena b);
              la \<leftarrow> lmod (ob_level_arena b) level_idx (\<lambda>_. lvl);
              let b = b\<lparr>ob_level_arena := la, ob_order_arena := oa\<rparr>;
              if pl_is_empty lvl then drop_level b level_idx (fi_price entry) is_sell
              else Some b
            });
       let oa = oa_deallocate (ob_order_arena b) (fi_node_idx entry);
       (oi, _) \<leftarrow> foi_remove (ob_order_index b) (fi_order_id entry);
       (ci, _) \<leftarrow> fci_remove (ob_client_order_index b) (fi_user_id entry) (fi_client_order_id entry);
       Some (b\<lparr>ob_order_arena := oa, ob_order_index := oi, ob_client_order_index := ci\<rparr>)
     }"

definition cancel_order ::
  "OrderBook \<Rightarrow> u64 \<Rightarrow> u64 \<Rightarrow> (OrderBook \<times> (RejectReason + Order)) option" where
  "cancel_order b requesting_user_id order_id =
     do {
       entry \<leftarrow> find_entry b requesting_user_id order_id;
       (case entry of
          None \<Rightarrow> Some (b, Inl OrderNotFound)
        | Some entry \<Rightarrow>
            if fi_user_id entry \<noteq> requesting_user_id then Some (b, Inl Unauthorized)
            else do {
              node \<leftarrow> oget (ob_order_arena b) (fi_node_idx entry);
              if \<not> on_active node \<or> ord_id (on_order node) \<noteq> fi_order_id entry then
                do {
                  (oi, _) \<leftarrow> foi_remove (ob_order_index b) (fi_order_id entry);
                  (ci, _) \<leftarrow> fci_remove (ob_client_order_index b) (fi_user_id entry)
                              (fi_client_order_id entry);
                  Some (b\<lparr>ob_order_index := oi, ob_client_order_index := ci\<rparr>, Inl OrderNotFound)
                }
              else do {
                let cancelled_order = on_order node;
                b \<leftarrow> remove_entry b entry;
                Some (b, Inr cancelled_order)
              }
            })
     }"

text \<open>
  Resting a limit order. Every \<open>?\<close> of the source returns from the middle, with the state changes
  made so far. \<open>enter_order\<close> is its end: the node joins its level's queue and both indices.
\<close>

definition enter_order ::
  "OrderBook \<Rightarrow> Order \<Rightarrow> u32 \<Rightarrow> u32 \<Rightarrow> (OrderBook \<times> (RejectReason + unit)) option" where
  "enter_order b order node_idx level_idx =
     do {
       lvl \<leftarrow> lget (ob_level_arena b) level_idx;
       (lvl, oa) \<leftarrow> push_order lvl node_idx (ob_order_arena b);
       la \<leftarrow> lmod (ob_level_arena b) level_idx (\<lambda>_. lvl);
       let b = b\<lparr>ob_level_arena := la, ob_order_arena := oa\<rparr>;
       (oi, r) \<leftarrow> foi_insert (ob_order_index b) (ord_id order)
         (ord_client_order_id order) (ord_user_id order) (ord_price order) node_idx (ord_side order);
       let b = b\<lparr>ob_order_index := oi\<rparr>;
       (case r of
          Inl e \<Rightarrow> Some (b, Inl e)
        | Inr _ \<Rightarrow> do {
            (ci, _) \<leftarrow> fci_insert (ob_client_order_index b) (ord_user_id order)
                        (ord_client_order_id order) (ord_id order);
            Some (b\<lparr>ob_client_order_index := ci\<rparr>, Inr ())
          })
     }"

definition rest_order ::
  "OrderBook \<Rightarrow> Order \<Rightarrow> u64 \<Rightarrow> bool \<Rightarrow> (OrderBook \<times> (RejectReason + unit)) option" where
  "rest_order b order client_id is_sell =
     do {
       (oa, r) \<leftarrow> oa_allocate (ob_order_arena b) order client_id;
       let b = b\<lparr>ob_order_arena := oa\<rparr>;
       (case r of
          Inl e \<Rightarrow> Some (b, Inl e)
        | Inr node_idx \<Rightarrow> do {
            let price = ord_price order;
            existing \<leftarrow> fpi_lookup (ob_price_index b) price;
            (case existing of
               Some existing_idx \<Rightarrow> enter_order b order node_idx existing_idx
             | None \<Rightarrow> do {
                 (la, r) \<leftarrow> la_allocate (ob_level_arena b) price;
                 let b = b\<lparr>ob_level_arena := la\<rparr>;
                 (case r of
                    Inl e \<Rightarrow> Some (b, Inl e)
                  | Inr new_idx \<Rightarrow> do {
                      (pi, r) \<leftarrow> fpi_insert (ob_price_index b) price new_idx;
                      let b = b\<lparr>ob_price_index := pi\<rparr>;
                      (case r of
                         Inl e \<Rightarrow> Some (b, Inl e)
                       | Inr _ \<Rightarrow> do {
                           b \<leftarrow> link_price_level b new_idx is_sell;
                           enter_order b order node_idx new_idx
                         })
                    })
               })
          })
     }"

text \<open>The order id: a zero id is stamped from the counter, any other advances the counter.\<close>

definition stamp_id :: "OrderBook \<Rightarrow> Order \<Rightarrow> OrderBook \<times> Order" where
  "stamp_id b order =
     (if ord_id order = 0
      then (b\<lparr>ob_order_id_counter := ob_order_id_counter b + 1\<rparr>,
            order\<lparr>ord_id := ob_order_id_counter b\<rparr>)
      else (b\<lparr>ob_order_id_counter := max (ob_order_id_counter b) (ord_id order + 1)\<rparr>, order))"

definition order_type_of :: "Order \<Rightarrow> OrderType" where
  "order_type_of order = unwrap_or (get_order_type order) Limit"

lemmas order_type_eval [ob_simps] = order_type_of_def

definition ob_process ::
  "OrderBook \<Rightarrow> Order \<Rightarrow> u64 \<Rightarrow> Trade list \<Rightarrow>
     (OrderBook \<times> Trade list \<times> (RejectReason + ExecutionReport)) option" where
  "ob_process b order client_id trades =
     (let order_type = order_type_of order in
      if order_type = Cancel then
        do {
          let target_id = (if ord_id order \<noteq> 0 then ord_id order else ord_client_order_id order);
          (b, r) \<leftarrow> cancel_order b (ord_user_id order) target_id;
          Some (b, trades,
            (case r of
               Inl e \<Rightarrow> Inl e
             | Inr cancelled \<Rightarrow>
                 Inr \<lparr>er_executed_qty = 0, er_remaining_qty = ord_qty cancelled,
                      er_stp_triggered = False\<rparr>))
        }
      else do {
        let (b, order) = stamp_id b order;
        let is_sell = (ord_side order = Side_as Sell);
        let original_qty = ord_qty order;
        (b, order, trades, stp) \<leftarrow> sweep is_sell order_type client_id b order trades;
        let executed_qty = sat_sub original_qty (ord_qty order);
        let report = \<lparr>er_executed_qty = executed_qty, er_remaining_qty = ord_qty order,
                      er_stp_triggered = stp\<rparr>;
        if stp then Some (b, trades, Inr report)
        else if order_type = Market then Some (b, trades, Inr report)
        else if ord_qty order > 0 \<and> order_type = Limit then
          do {
            (b, r) \<leftarrow> rest_order b order client_id is_sell;
            Some (b, trades, (case r of Inl e \<Rightarrow> Inl e | Inr _ \<Rightarrow> Inr report))
          }
        else Some (b, trades, Inr report)
      })"

declare find_slot.simps [code] match_loop.simps [code] sweep.simps [code]

section \<open>Market data\<close>

definition level_quote :: "PriceLevelArena \<Rightarrow> u32 \<Rightarrow> (u64 \<times> u64) option option" where
  "level_quote la i =
     (if i \<noteq> NULL_IDX then do { n \<leftarrow> lget la i; Some (Some (pl_price n, pl_total_qty n)) }
      else Some None)"

definition get_bbo :: "OrderBook \<Rightarrow> ((u64 \<times> u64) option \<times> (u64 \<times> u64) option) option" where
  "get_bbo b =
     do {
       bid \<leftarrow> level_quote (ob_level_arena b) (ob_best_bid b);
       ask \<leftarrow> level_quote (ob_level_arena b) (ob_best_ask b);
       Some (bid, ask)
     }"

fun depth_from :: "PriceLevelArena \<Rightarrow> u32 \<Rightarrow> nat \<Rightarrow> MarketDepthLevel list option" where
  "depth_from la cur 0 = Some []"
| "depth_from la cur (Suc n) =
     (if cur = NULL_IDX then Some []
      else do {
        node \<leftarrow> lget la cur;
        rest \<leftarrow> depth_from la (pl_next_level node) n;
        Some (\<lparr>md_price = pl_price node, md_total_qty = pl_total_qty node,
               md_order_count = pl_order_count node\<rparr> # rest)
      })"

definition get_depth ::
  "OrderBook \<Rightarrow> nat \<Rightarrow> (MarketDepthLevel list \<times> MarketDepthLevel list) option" where
  "get_depth b max_levels =
     do {
       bids \<leftarrow> depth_from (ob_level_arena b) (ob_best_bid b) max_levels;
       asks \<leftarrow> depth_from (ob_level_arena b) (ob_best_ask b) max_levels;
       Some (bids, asks)
     }"

end
