(* ===== verification/Book_Spec.thy ===== *)
theory Book_Spec
  imports Order_Book "HOL-Library.Multiset"
begin

text \<open>
  The abstract specification of one order book: two ladders of price levels, best first, each level
  a price with its FIFO queue of resting orders, and no arena, link, index or hash table. It is
  what \<open>Book_Refine\<close> proves \<open>Order_Book\<close> to implement. The functions are executable; the
  properties of matching (price-time priority, conservation of quantity, limit prices, self-trade
  prevention, an uncrossed book) are proved here, on lists.
\<close>

section \<open>The abstract book\<close>

text \<open>A resting order with the connection (\<open>client_id\<close>) it came from.\<close>

type_synonym resting = "Order \<times> u64"
type_synonym alevel = "u64 \<times> resting list"

record abook =
  ab_bids :: "alevel list"
  ab_asks :: "alevel list"
  ab_clients :: "u64 \<times> u64 \<Rightarrow> u64 option"
  ab_free_orders :: nat
  ab_free_levels :: nat
  ab_trade_ctr :: u64
  ab_order_ctr :: u64

definition aside :: "bool \<Rightarrow> abook \<Rightarrow> alevel list" where
  "aside s B = (if s then ab_asks B else ab_bids B)"

definition set_aside :: "bool \<Rightarrow> alevel list \<Rightarrow> abook \<Rightarrow> abook" where
  "set_aside s ls B = (if s then B\<lparr>ab_asks := ls\<rparr> else B\<lparr>ab_bids := ls\<rparr>)"

definition abook_new :: abook where
  "abook_new =
     \<lparr>ab_bids = [], ab_asks = [], ab_clients = Map.empty, ab_free_orders = MAX_ARENA_ORDERS,
      ab_free_levels = MAX_PRICE_LEVELS, ab_trade_ctr = 1, ab_order_ctr = 1\<rparr>"

definition flat :: "alevel list \<Rightarrow> resting list" where
  "flat ls = concat (map snd ls)"

definition resting_orders :: "abook \<Rightarrow> resting list" where
  "resting_orders B = flat (ab_bids B) @ flat (ab_asks B)"

definition resting_id :: "resting \<Rightarrow> u64" where
  "resting_id x = ord_id (fst x)"

definition resting_key :: "resting \<Rightarrow> u64 \<times> u64" where
  "resting_key x = (ord_user_id (fst x), ord_client_order_id (fst x))"

section \<open>Matching\<close>

text \<open>
  Filling an incoming order from one queue, oldest order first: the rest of the order, the rest of
  the queue, the trades, the orders filled completely, and whether self-trade prevention stopped it.
\<close>

fun fill_queue ::
  "u64 \<Rightarrow> u64 \<Rightarrow> Order \<Rightarrow> resting list \<Rightarrow>
     Order \<times> resting list \<times> Trade list \<times> resting list \<times> bool" where
  "fill_queue cid ctr inc [] = (inc, [], [], [], False)"
| "fill_queue cid ctr inc ((r, rc) # q) =
     (if ord_qty inc = 0 then (inc, (r, rc) # q, [], [], False)
      else if ord_user_id r = ord_user_id inc then (inc, (r, rc) # q, [], [], True)
      else
        let t = min (ord_qty inc) (ord_qty r);
            tr = mk_trade inc cid r rc ctr t;
            inc' = inc\<lparr>ord_qty := ord_qty inc - t\<rparr>
        in if ord_qty r - t = 0 then
             (case fill_queue cid (ctr + 1) inc' q of (i, q', ts, rm, stp) \<Rightarrow>
                (i, q', tr # ts, (r, rc) # rm, stp))
           else (inc', (r\<lparr>ord_qty := ord_qty r - t\<rparr>, rc) # q, [tr], [], False))"

fun sweep_levels ::
  "bool \<Rightarrow> OrderType \<Rightarrow> u64 \<Rightarrow> u64 \<Rightarrow> Order \<Rightarrow> alevel list \<Rightarrow>
     Order \<times> alevel list \<times> Trade list \<times> resting list \<times> bool" where
  "sweep_levels s ot cid ctr inc [] = (inc, [], [], [], False)"
| "sweep_levels s ot cid ctr inc ((p, q) # ls) =
     (if ord_qty inc = 0 \<or> beyond_limit s ot inc p then (inc, (p, q) # ls, [], [], False)
      else
        (case fill_queue cid ctr inc q of (inc', q', ts, rm, stp) \<Rightarrow>
           if q' = [] then
             (case sweep_levels s ot cid (ctr + of_nat (length ts)) inc' ls of
                (i, ls', ts', rm', stp') \<Rightarrow> (i, ls', ts @ ts', rm @ rm', stp'))
           else (inc', (p, q') # ls, ts, rm, stp)))"

definition asweep ::
  "bool \<Rightarrow> OrderType \<Rightarrow> u64 \<Rightarrow> abook \<Rightarrow> Order \<Rightarrow> abook \<times> Order \<times> Trade list \<times> bool" where
  "asweep s ot cid B order =
     (case sweep_levels s ot cid (ab_trade_ctr B) order (aside (\<not> s) B) of
        (i, ls, ts, rm, stp) \<Rightarrow>
          ((set_aside (\<not> s) ls B)
             \<lparr>ab_clients := ab_clients B |` (- resting_key ` set rm),
              ab_free_orders := ab_free_orders B + length rm,
              ab_free_levels := ab_free_levels B + (length (aside (\<not> s) B) - length ls),
              ab_trade_ctr := ab_trade_ctr B + of_nat (length ts)\<rparr>,
           i, ts, stp))"

section \<open>Resting and cancelling\<close>

definition insert_level :: "bool \<Rightarrow> u64 \<Rightarrow> resting \<Rightarrow> alevel list \<Rightarrow> alevel list" where
  "insert_level s p x ls =
     takeWhile (\<lambda>l. better s (fst l) p) ls @ (p, [x]) # dropWhile (\<lambda>l. better s (fst l) p) ls"

definition append_level :: "u64 \<Rightarrow> resting \<Rightarrow> alevel list \<Rightarrow> alevel list" where
  "append_level p x ls = map (\<lambda>l. (fst l, if fst l = p then snd l @ [x] else snd l)) ls"

text \<open>
  Resting a limit order. When no level is free, the order's arena node has already been taken: the
  error path loses it.
\<close>

definition arest :: "abook \<Rightarrow> Order \<Rightarrow> u64 \<Rightarrow> bool \<Rightarrow> abook \<times> (RejectReason + unit)" where
  "arest B order cid s =
     (if ab_free_orders B = 0 then (B, Inl EngineFull)
      else
        let p = ord_price order;
            B1 = B\<lparr>ab_free_orders := ab_free_orders B - 1\<rparr>;
            cl = (ab_clients B)((ord_user_id order, ord_client_order_id order) \<mapsto> ord_id order)
        in if p \<in> fst ` set (aside s B) then
             ((set_aside s (append_level p (order, cid) (aside s B)) B1)\<lparr>ab_clients := cl\<rparr>, Inr ())
           else if ab_free_levels B = 0 then (B1, Inl EngineFull)
           else
             ((set_aside s (insert_level s p (order, cid) (aside s B)) B1)
                \<lparr>ab_clients := cl, ab_free_levels := ab_free_levels B - 1\<rparr>, Inr ()))"

definition remove_id :: "u64 \<Rightarrow> alevel list \<Rightarrow> alevel list" where
  "remove_id oid ls =
     filter (\<lambda>l. snd l \<noteq> [])
       (map (\<lambda>l. (fst l, filter (\<lambda>x. resting_id x \<noteq> oid) (snd l))) ls)"

definition find_resting :: "abook \<Rightarrow> u64 \<Rightarrow> resting option" where
  "find_resting B oid = List.find (\<lambda>x. resting_id x = oid) (resting_orders B)"

text \<open>A cancel names an order by its exchange id, or by the client's own id.\<close>

definition cancel_target :: "abook \<Rightarrow> u64 \<Rightarrow> u64 \<Rightarrow> resting option" where
  "cancel_target B uid oid =
     (case find_resting B oid of
        Some x \<Rightarrow> Some x
      | None \<Rightarrow> (case ab_clients B (uid, oid) of
                   Some exchange_id \<Rightarrow> find_resting B exchange_id
                 | None \<Rightarrow> None))"

definition aremove :: "abook \<Rightarrow> resting \<Rightarrow> abook" where
  "aremove B x =
     (let s = (ord_side (fst x) = Side_as Sell);
          ls = remove_id (resting_id x) (aside s B)
      in (set_aside s ls B)
            \<lparr>ab_clients := (ab_clients B)(resting_key x := None),
             ab_free_orders := ab_free_orders B + 1,
             ab_free_levels := ab_free_levels B + (length (aside s B) - length ls)\<rparr>)"

definition acancel :: "abook \<Rightarrow> u64 \<Rightarrow> u64 \<Rightarrow> abook \<times> (RejectReason + Order)" where
  "acancel B uid oid =
     (case cancel_target B uid oid of
        None \<Rightarrow> (B, Inl OrderNotFound)
      | Some x \<Rightarrow>
          if ord_user_id (fst x) \<noteq> uid then (B, Inl Unauthorized) else (aremove B x, Inr (fst x)))"

definition astamp :: "abook \<Rightarrow> Order \<Rightarrow> abook \<times> Order" where
  "astamp B order =
     (if ord_id order = 0
      then (B\<lparr>ab_order_ctr := ab_order_ctr B + 1\<rparr>, order\<lparr>ord_id := ab_order_ctr B\<rparr>)
      else (B\<lparr>ab_order_ctr := max (ab_order_ctr B) (ord_id order + 1)\<rparr>, order))"

definition aprocess ::
  "abook \<Rightarrow> Order \<Rightarrow> u64 \<Rightarrow> abook \<times> Trade list \<times> (RejectReason + ExecutionReport)" where
  "aprocess B order cid =
     (if order_type_of order = Cancel then
        (case acancel B (ord_user_id order)
                (if ord_id order \<noteq> 0 then ord_id order else ord_client_order_id order) of
           (B', Inl e) \<Rightarrow> (B', [], Inl e)
         | (B', Inr c) \<Rightarrow>
             (B', [], Inr \<lparr>er_executed_qty = 0, er_remaining_qty = ord_qty c, er_stp_triggered = False\<rparr>))
      else
        (let s = (ord_side order = Side_as Sell);
             (B1, o1) = astamp B order;
             (B2, o2, ts, stp) = asweep s (order_type_of order) cid B1 o1;
             report = \<lparr>er_executed_qty = sat_sub (ord_qty order) (ord_qty o2),
                       er_remaining_qty = ord_qty o2, er_stp_triggered = stp\<rparr>
         in if \<not> stp \<and> order_type_of order = Limit \<and> ord_qty o2 > 0 then
              (case arest B2 o2 cid s of
                 (B3, Inl e) \<Rightarrow> (B3, ts, Inl e)
               | (B3, Inr _) \<Rightarrow> (B3, ts, Inr report))
            else (B2, ts, Inr report)))"

section \<open>Executions\<close>

text \<open>
  What matching does to a sequence of resting orders, whatever the way it is cut into levels: makers
  are consumed from the front, all of them in full but possibly the last one. Both loops of the
  specification are shown to be such executions, and the properties of matching are proved once, by
  rule induction.
\<close>

inductive fills ::
  "u64 \<Rightarrow> u64 \<Rightarrow> Order \<Rightarrow> resting list \<Rightarrow> Order \<Rightarrow> resting list \<Rightarrow> Trade list \<Rightarrow> resting list \<Rightarrow> bool"
  for cid where
  fills_stop: "fills cid ctr inc q inc q [] []"
| fills_full: "fills cid ctr inc ((r, rc) # q) i q' (mk_trade inc cid r rc ctr (ord_qty r) # ts) ((r, rc) # rm)"
    if "ord_qty inc \<noteq> 0" "ord_user_id r \<noteq> ord_user_id inc" "ord_qty r \<le> ord_qty inc"
       "fills cid (ctr + 1) (inc\<lparr>ord_qty := ord_qty inc - ord_qty r\<rparr>) q i q' ts rm"
| fills_part: "fills cid ctr inc ((r, rc) # q) (inc\<lparr>ord_qty := 0\<rparr>)
      ((r\<lparr>ord_qty := ord_qty r - ord_qty inc\<rparr>, rc) # q) [mk_trade inc cid r rc ctr (ord_qty inc)] []"
    if "ord_qty inc \<noteq> 0" "ord_user_id r \<noteq> ord_user_id inc" "ord_qty inc < ord_qty r"

inductive_cases fills_NilE: "fills cid ctr inc [] i q' ts rm"
inductive_cases fills_ConsE: "fills cid ctr inc (x # q) i q' ts rm"

lemma mk_trade_qty [simp]: "mk_trade (inc\<lparr>ord_qty := z\<rparr>) = mk_trade inc"
  by (simp add: mk_trade_def fun_eq_iff)

lemma mk_trade_sel [simp]:
  "tr_match_id (mk_trade inc cid r rc m t) = m" "tr_maker_order_id (mk_trade inc cid r rc m t) = ord_id r"
  "tr_taker_order_id (mk_trade inc cid r rc m t) = ord_id inc"
  "tr_maker_user_id (mk_trade inc cid r rc m t) = ord_user_id r"
  "tr_taker_user_id (mk_trade inc cid r rc m t) = ord_user_id inc"
  "tr_maker_side (mk_trade inc cid r rc m t) = ord_side r"
  "tr_symbol_id (mk_trade inc cid r rc m t) = ord_symbol_id inc"
  "tr_price (mk_trade inc cid r rc m t) = ord_price r" "tr_qty (mk_trade inc cid r rc m t) = t"
  by (auto simp: mk_trade_def split: prod.splits)

lemma fill_queue_fills:
  "fill_queue cid ctr inc q = (i, q', ts, rm, stp) \<Longrightarrow> fills cid ctr inc q i q' ts rm"
proof (induction cid ctr inc q arbitrary: i q' ts rm stp rule: fill_queue.induct)
  case (1 cid ctr inc)
  then show ?case by (auto intro: fills.intros)
next
  case (2 cid ctr inc r rc q)
  consider "ord_qty inc = 0 \<or> ord_user_id r = ord_user_id inc"
    | "ord_qty inc \<noteq> 0" "ord_user_id r \<noteq> ord_user_id inc" "ord_qty r \<le> ord_qty inc"
    | "ord_qty inc \<noteq> 0" "ord_user_id r \<noteq> ord_user_id inc" "ord_qty inc < ord_qty r" by force
  then show ?case
  proof cases
    case 1
    with "2.prems" show ?thesis by (auto intro: fills_stop split: if_splits)
  next
    case 2
    then have t: "min (ord_qty inc) (ord_qty r) = ord_qty r" by simp
    from 2 "2.prems" obtain ts' rm' where
      "fill_queue cid (ctr + 1) (inc\<lparr>ord_qty := ord_qty inc - ord_qty r\<rparr>) q = (i, q', ts', rm', stp)"
      "ts = mk_trade inc cid r rc ctr (ord_qty r) # ts'" "rm = (r, rc) # rm'"
      by (auto simp: Let_def t split: prod.splits)
    with 2 "2.IH" show ?thesis by (auto simp: t intro: fills_full)
  next
    case 3
    then have t: "min (ord_qty inc) (ord_qty r) = ord_qty inc" by simp
    from 3 have "ord_qty r - ord_qty inc \<noteq> 0" by auto
    with 3 "2.prems" show ?thesis by (auto simp: Let_def t intro: fills_part)
  qed
qed

lemma fills_append:
  "fills cid ctr inc q i q' ts rm \<Longrightarrow> q' = [] \<Longrightarrow>
     fills cid (ctr + of_nat (length ts)) i p j p' ts' rm' \<Longrightarrow>
     fills cid ctr inc (q @ p) j p' (ts @ ts') (rm @ rm')"
proof (induction rule: fills.induct)
  case (fills_full inc r ctr q i q' ts rm rc)
  from fills_full.prems have "fills cid (ctr + 1 + of_nat (length ts)) i p j p' ts' rm'"
    by (simp add: algebra_simps)
  with fills_full.IH fills_full.prems(1)
  have "fills cid (ctr + 1) (inc\<lparr>ord_qty := ord_qty inc - ord_qty r\<rparr>) (q @ p) j p' (ts @ ts') (rm @ rm')"
    by simp
  with fills_full.hyps(1-3) show ?case by (auto intro: fills.fills_full)
qed simp_all

lemma fills_frame:
  "fills cid ctr inc q i q' ts rm \<Longrightarrow> fills cid ctr inc (q @ p) i (q' @ p) ts rm"
  by (induction rule: fills.induct) (auto intro: fills.intros)

lemma sweep_levels_fills:
  "sweep_levels s ot cid ctr inc ls = (i, ls', ts, rm, stp) \<Longrightarrow>
     fills cid ctr inc (flat ls) i (flat ls') ts rm"
proof (induction s ot cid ctr inc ls arbitrary: i ls' ts rm stp rule: sweep_levels.induct)
  case (1 s ot cid ctr inc)
  then show ?case by (auto intro: fills_stop)
next
  case (2 s ot cid ctr inc p q ls)
  show ?case
  proof (cases "ord_qty inc = 0 \<or> beyond_limit s ot inc p")
    case True
    with "2.prems" show ?thesis by (auto intro: fills_stop)
  next
    case False
    obtain inc1 q1 ts1 rm1 stp1 where F: "fill_queue cid ctr inc q = (inc1, q1, ts1, rm1, stp1)"
      by (metis prod_cases5)
    note f = fill_queue_fills [OF F]
    show ?thesis
    proof (cases "q1 = []")
      case True
      with False F "2.prems" obtain ts2 rm2 where
        "sweep_levels s ot cid (ctr + of_nat (length ts1)) inc1 ls = (i, ls', ts2, rm2, stp)"
        "ts = ts1 @ ts2" "rm = rm1 @ rm2" by (auto split: prod.splits)
      with "2.IH" [OF False F [symmetric]] True fills_append [OF f True] show ?thesis
        by (auto simp: flat_def)
    next
      case False': False
      with False F "2.prems" have "i = inc1" "ls' = (p, q1) # ls" "ts = ts1" "rm = rm1"
        by auto
      with fills_frame [OF f] show ?thesis by (simp add: flat_def)
    qed
  qed
qed

section \<open>What an execution does\<close>

abbreviation qty_sum :: "Order list \<Rightarrow> nat" where
  "qty_sum os \<equiv> sum_list (map (\<lambda>r. unat (ord_qty r)) os)"

abbreviation trade_sum :: "Trade list \<Rightarrow> nat" where
  "trade_sum ts \<equiv> sum_list (map (\<lambda>t. unat (tr_qty t)) ts)"

lemma order_qty_same [simp]: "(r::Order)\<lparr>ord_qty := ord_qty r\<rparr> = r"
  by (cases r) simp

lemma fills_incoming: "fills cid ctr inc q i q' ts rm \<Longrightarrow> \<exists>z. i = inc\<lparr>ord_qty := z\<rparr>"
proof (induction rule: fills.induct)
  case (fills_stop ctr inc q)
  show ?case by (rule exI [of _ "ord_qty inc"]) simp
qed auto

lemma fills_taker_qty:
  "fills cid ctr inc q i q' ts rm \<Longrightarrow> unat (ord_qty inc) = unat (ord_qty i) + trade_sum ts"
  by (induction rule: fills.induct) (auto simp: unat_sub word_le_nat_alt)

lemma fills_maker_qty:
  "fills cid ctr inc q i q' ts rm \<Longrightarrow>
     qty_sum (map fst q) = qty_sum (map fst q') + trade_sum ts"
  by (induction rule: fills.induct) (auto simp: unat_sub word_less_nat_alt word_le_nat_alt)

lemma fills_removed:
  "fills cid ctr inc q i q' ts rm \<Longrightarrow> map resting_id q = map resting_id rm @ map resting_id q'"
  "fills cid ctr inc q i q' ts rm \<Longrightarrow> map resting_key q = map resting_key rm @ map resting_key q'"
  by (induction rule: fills.induct; simp add: resting_id_def resting_key_def)+

lemma fills_priority:
  "fills cid ctr inc q i q' ts rm \<Longrightarrow>
     map tr_maker_order_id ts = map resting_id (take (length ts) q) \<and>
     map tr_price ts = map (\<lambda>x. ord_price (fst x)) (take (length ts) q) \<and> length ts \<le> length q"
  by (induction rule: fills.induct) (auto simp: resting_id_def)

lemma fills_makers_filled:
  "fills cid ctr inc q i q' ts rm \<Longrightarrow> k + 1 < length ts \<Longrightarrow> tr_qty (ts ! k) = ord_qty (fst (q ! k))"
proof (induction arbitrary: k rule: fills.induct)
  case (fills_full inc r ctr q i q' ts rm rc)
  then show ?case by (cases k) auto
qed auto

lemma fills_match_ids:
  "fills cid ctr inc q i q' ts rm \<Longrightarrow> k < length ts \<Longrightarrow> tr_match_id (ts ! k) = ctr + of_nat k"
proof (induction arbitrary: k rule: fills.induct)
  case (fills_full inc r ctr q i q' ts rm rc)
  then show ?case by (cases k) (auto simp: algebra_simps)
qed auto

lemma fills_trades:
  "fills cid ctr inc q i q' ts rm \<Longrightarrow> t \<in> set ts \<Longrightarrow>
     \<exists>x\<in>set q. \<exists>c n. t = mk_trade inc cid (fst x) (snd x) c n \<and> ord_user_id (fst x) \<noteq> ord_user_id inc \<and>
       n \<le> ord_qty (fst x) \<and> n \<le> ord_qty inc"
proof (induction arbitrary: t rule: fills.induct)
  case (fills_full inc r ctr q i q' ts rm rc)
  show ?case
  proof (cases "t \<in> set ts")
    case True
    from fills_full.IH [OF this] obtain x c n where x: "x \<in> set q" "t = mk_trade inc cid (fst x) (snd x) c n"
      "ord_user_id (fst x) \<noteq> ord_user_id inc" "n \<le> ord_qty (fst x)" "n \<le> ord_qty inc - ord_qty r"
      by auto
    moreover have "ord_qty inc - ord_qty r \<le> ord_qty inc"
      using fills_full.hyps(3) by (simp add: word_le_nat_alt unat_sub)
    ultimately have "n \<le> ord_qty inc" by simp
    with x show ?thesis by (intro bexI [of _ x] exI conjI) simp_all
  next
    case False
    with fills_full.prems have "t = mk_trade inc cid r rc ctr (ord_qty r)" by auto
    with fills_full.hyps(2,3) show ?thesis by fastforce
  qed
qed (auto 0 4)

text \<open>Resting orders keep everything but their quantity, and stay nonempty.\<close>

definition same_but_qty :: "resting \<Rightarrow> resting \<Rightarrow> bool" where
  "same_but_qty x y \<longleftrightarrow> snd y = snd x \<and> (\<exists>z. fst y = (fst x)\<lparr>ord_qty := z\<rparr>) \<and>
     (ord_qty (fst x) \<noteq> 0 \<longrightarrow> ord_qty (fst y) \<noteq> 0)"

lemma same_but_qty_refl [simp]: "same_but_qty x x"
  unfolding same_but_qty_def by (auto intro!: exI [of _ "ord_qty (fst x)"])

lemma same_but_qtyD:
  assumes "same_but_qty x y"
  shows "ord_price (fst y) = ord_price (fst x)" "ord_side (fst y) = ord_side (fst x)"
    "resting_id y = resting_id x" "resting_key y = resting_key x"
    "ord_qty (fst x) \<noteq> 0 \<Longrightarrow> ord_qty (fst y) \<noteq> 0"
  using assms by (auto simp: same_but_qty_def resting_id_def resting_key_def)

lemma fills_rest:
  "fills cid ctr inc q i q' ts rm \<Longrightarrow> y \<in> set q' \<Longrightarrow> \<exists>x\<in>set q. same_but_qty x y"
proof (induction rule: fills.induct)
  case (fills_part inc r ctr rc q)
  then have "same_but_qty (r, rc) (r\<lparr>ord_qty := ord_qty r - ord_qty inc\<rparr>, rc)"
    by (auto simp: same_but_qty_def)
  with fills_part.prems show ?case by (metis same_but_qty_refl list.set_intros set_ConsD)
qed (auto intro: same_but_qty_refl)

section \<open>Ladders\<close>

lemma better_trans: "better s p q \<Longrightarrow> better s q r \<Longrightarrow> better s p r"
  by (auto simp: better_def split: if_splits)

lemma better_irrefl [simp]: "\<not> better s p p"
  by (simp add: better_def)

lemma better_total: "\<not> better s p q \<Longrightarrow> p \<noteq> q \<Longrightarrow> better s q p"
  by (auto simp: better_def split: if_splits)

lemma better_asym: "better s p q \<Longrightarrow> \<not> better s q p"
  by (auto simp: better_def split: if_splits)

text \<open>The place of a new price in a sorted ladder, for any labelling \<open>f\<close> of its entries with prices.\<close>

lemma sorted_insert:
  assumes "sorted_wrt (\<lambda>x y. better s (f x) (f y)) ls" "f new \<notin> f ` set ls"
  shows "sorted_wrt (\<lambda>x y. better s (f x) (f y))
           (takeWhile (\<lambda>x. better s (f x) (f new)) ls @ new # dropWhile (\<lambda>x. better s (f x) (f new)) ls)"
  using assms
proof (induction ls)
  case Nil
  then show ?case by simp
next
  case (Cons y ls)
  show ?case
  proof (cases "better s (f y) (f new)")
    case True
    have "better s (f y) (f x)"
      if "x \<in> set (takeWhile (\<lambda>x. better s (f x) (f new)) ls @ new # dropWhile (\<lambda>x. better s (f x) (f new)) ls)" for x
      using that True Cons.prems(1) by (auto dest: set_takeWhileD set_dropWhileD)
    with True Cons show ?thesis by simp
  next
    case False
    with Cons.prems(2) have "better s (f new) (f y)" by (intro better_total) auto
    with False Cons.prems(1) show ?thesis by (auto intro: better_trans)
  qed
qed

definition level_ok :: "bool \<Rightarrow> alevel \<Rightarrow> bool" where
  "level_ok s l \<longleftrightarrow>
     snd l \<noteq> [] \<and>
     (\<forall>x\<in>set (snd l). ord_price (fst x) = fst l \<and> ord_qty (fst x) \<noteq> 0 \<and>
        (ord_side (fst x) = Side_as Sell \<longleftrightarrow> s))"

definition ladder_ok :: "bool \<Rightarrow> alevel list \<Rightarrow> bool" where
  "ladder_ok s ls \<longleftrightarrow> sorted_wrt (\<lambda>l m. better s (fst l) (fst m)) ls \<and> (\<forall>l\<in>set ls. level_ok s l)"

lemma flat_simps [simp]:
  "flat [] = []" "flat (l # ls) = snd l @ flat ls" "flat (ls @ ms) = flat ls @ flat ms"
  by (simp_all add: flat_def)

lemma set_flat: "x \<in> set (flat ls) \<longleftrightarrow> (\<exists>l\<in>set ls. x \<in> set (snd l))"
  by (auto simp: flat_def)

lemma ladder_ok_Cons:
  "ladder_ok s (l # ls) \<longleftrightarrow>
     level_ok s l \<and> (\<forall>m\<in>set ls. better s (fst l) (fst m)) \<and> ladder_ok s ls"
  by (auto simp: ladder_ok_def)

lemma ladder_ok_Nil [simp]: "ladder_ok s []"
  by (simp add: ladder_ok_def)

lemma ladder_prices_distinct: "ladder_ok s ls \<Longrightarrow> distinct (map fst ls)"
  by (induction ls) (auto simp: ladder_ok_Cons)

text \<open>A sweep leaves a suffix of the ladder, whose first level may have lost a prefix of its queue.\<close>

lemma sweep_levels_suffix:
  "sweep_levels s ot cid ctr inc ls = (i, ls', ts, rm, stp) \<Longrightarrow>
     \<exists>k. map fst ls' = drop k (map fst ls)"
proof (induction s ot cid ctr inc ls arbitrary: i ls' ts rm stp rule: sweep_levels.induct)
  case (2 s ot cid ctr inc p q ls)
  obtain inc1 q1 ts1 rm1 stp1 where F: "fill_queue cid ctr inc q = (inc1, q1, ts1, rm1, stp1)"
    by (metis prod_cases5)
  show ?case
  proof (cases "\<not> (ord_qty inc = 0 \<or> beyond_limit s ot inc p) \<and> q1 = []")
    case True
    with F "2.prems" obtain ts2 rm2 where
      "sweep_levels s ot cid (ctr + of_nat (length ts1)) inc1 ls = (i, ls', ts2, rm2, stp)"
      by (auto split: prod.splits)
    with True F "2.IH" obtain k where "map fst ls' = drop k (map fst ls)" by metis
    then show ?thesis by (intro exI [of _ "Suc k"]) simp
  next
    case False
    with F "2.prems" show ?thesis by (intro exI [of _ 0]) (auto split: if_splits)
  qed
qed simp

lemma sweep_levels_ladder:
  "sweep_levels s ot cid ctr inc ls = (i, ls', ts, rm, stp) \<Longrightarrow> ladder_ok s' ls \<Longrightarrow> ladder_ok s' ls'"
proof (induction s ot cid ctr inc ls arbitrary: i ls' ts rm stp rule: sweep_levels.induct)
  case (2 s ot cid ctr inc p q ls)
  obtain inc1 q1 ts1 rm1 stp1 where F: "fill_queue cid ctr inc q = (inc1, q1, ts1, rm1, stp1)"
    by (metis prod_cases5)
  have q1: "level_ok s' (p, q1)" if "q1 \<noteq> []"
  proof -
    have "\<exists>x\<in>set q. same_but_qty x y" if "y \<in> set q1" for y
      using fills_rest [OF fill_queue_fills [OF F] that] .
    with that "2.prems"(2) show ?thesis
      unfolding ladder_ok_Cons level_ok_def by (metis fst_conv snd_conv same_but_qtyD(1,2,5))
  qed
  show ?case
  proof (cases "ord_qty inc = 0 \<or> beyond_limit s ot inc p")
    case True
    with "2.prems" show ?thesis by auto
  next
    case False
    show ?thesis
    proof (cases "q1 = []")
      case True
      with False F "2.prems"(1) obtain ts2 rm2 where
        "sweep_levels s ot cid (ctr + of_nat (length ts1)) inc1 ls = (i, ls', ts2, rm2, stp)"
        by (auto split: prod.splits)
      with "2.IH" [OF False F [symmetric]] True "2.prems"(2) show ?thesis by (auto simp: ladder_ok_Cons)
    next
      case False': False
      with False F "2.prems" q1 show ?thesis by (auto simp: ladder_ok_Cons)
    qed
  qed
qed simp

lemma beyond_limit_qty [simp]: "beyond_limit s ot (inc\<lparr>ord_qty := z\<rparr>) = beyond_limit s ot inc"
  by (simp add: beyond_limit_def fun_eq_iff)

text \<open>Why a sweep stops.\<close>

lemma fill_queue_stop:
  "fill_queue cid ctr inc q = (i, q', ts, rm, stp) \<Longrightarrow>
     (if stp then q' \<noteq> [] \<and> ord_qty i \<noteq> 0 \<and> ord_user_id (fst (hd q')) = ord_user_id inc
      else q' = [] \<or> ord_qty i = 0)"
proof (induction cid ctr inc q arbitrary: i q' ts rm stp rule: fill_queue.induct)
  case (2 cid ctr inc r rc q)
  show ?case
  proof (cases "ord_qty inc \<noteq> 0 \<and> ord_user_id r \<noteq> ord_user_id inc \<and> ord_qty r \<le> ord_qty inc")
    case True
    then have t: "min (ord_qty inc) (ord_qty r) = ord_qty r" by simp
    from True "2.prems" obtain ts' rm' where
      "fill_queue cid (ctr + 1) (inc\<lparr>ord_qty := ord_qty inc - ord_qty r\<rparr>) q = (i, q', ts', rm', stp)"
      by (auto simp: Let_def t split: prod.splits)
    with True "2.IH" [OF _ _ t [symmetric] refl refl] show ?thesis by (simp add: t)
  next
    case False
    moreover have "min (ord_qty inc) (ord_qty r) = ord_qty inc" "ord_qty r - ord_qty inc \<noteq> 0"
      if "\<not> ord_qty r \<le> ord_qty inc" using that by auto
    ultimately show ?thesis using "2.prems" by (auto simp: Let_def split: if_splits)
  qed
qed simp

lemma sweep_levels_stop:
  "sweep_levels s ot cid ctr inc ls = (i, ls', ts, rm, stp) \<Longrightarrow> \<forall>l\<in>set ls. snd l \<noteq> [] \<Longrightarrow>
     (if stp then ls' \<noteq> [] \<and> ord_qty i \<noteq> 0 \<and> ord_user_id (fst (hd (snd (hd ls')))) = ord_user_id inc
      else ls' = [] \<or> ord_qty i = 0 \<or> beyond_limit s ot inc (fst (hd ls')))"
proof (induction s ot cid ctr inc ls arbitrary: i ls' ts rm stp rule: sweep_levels.induct)
  case (2 s ot cid ctr inc p q ls)
  obtain inc1 q1 ts1 rm1 stp1 where F: "fill_queue cid ctr inc q = (inc1, q1, ts1, rm1, stp1)"
    by (metis prod_cases5)
  from fills_incoming [OF fill_queue_fills [OF F]] obtain z where z: "inc1 = inc\<lparr>ord_qty := z\<rparr>" by auto
  show ?case
  proof (cases "ord_qty inc = 0 \<or> beyond_limit s ot inc p")
    case True
    with "2.prems" show ?thesis by auto
  next
    case False
    show ?thesis
    proof (cases "q1 = []")
      case True
      with False F "2.prems"(1) obtain ts2 rm2 where
        "sweep_levels s ot cid (ctr + of_nat (length ts1)) inc1 ls = (i, ls', ts2, rm2, stp)"
        by (auto split: prod.splits)
      from "2.IH" [OF False F [symmetric] refl refl refl True this] "2.prems"(2) show ?thesis
        by (auto simp: z split: if_splits)
    next
      case False': False
      with False F "2.prems" fill_queue_stop [OF F] show ?thesis by (auto split: if_splits)
    qed
  qed
qed simp

section \<open>The invariant of the abstract book\<close>

text \<open>
  Both ladders are sorted, their levels hold orders of that side and price with a positive quantity,
  no bid reaches an ask, order ids are unique, and the client map points at resting orders.
\<close>

definition abook_ok :: "abook \<Rightarrow> bool" where
  "abook_ok B \<longleftrightarrow>
     (\<forall>s. ladder_ok s (aside s B)) \<and>
     (\<forall>l\<in>set (ab_bids B). \<forall>m\<in>set (ab_asks B). fst l < fst m) \<and>
     distinct (map resting_id (resting_orders B)) \<and>
     (\<forall>k oid. ab_clients B k = Some oid \<longrightarrow>
        (\<exists>x\<in>set (resting_orders B). resting_id x = oid \<and> resting_key x = k))"

lemma aside_set_aside [simp]: "aside s (set_aside s' ls B) = (if s = s' then ls else aside s B)"
  by (auto simp: aside_def set_aside_def)

lemma set_aside_sel [simp]:
  "ab_clients (set_aside s ls B) = ab_clients B" "ab_free_orders (set_aside s ls B) = ab_free_orders B"
  "ab_free_levels (set_aside s ls B) = ab_free_levels B" "ab_trade_ctr (set_aside s ls B) = ab_trade_ctr B"
  "ab_order_ctr (set_aside s ls B) = ab_order_ctr B"
  by (simp_all add: set_aside_def)

lemma aside_upd [simp]:
  "aside s (B\<lparr>ab_clients := c\<rparr>) = aside s B" "aside s (B\<lparr>ab_free_orders := n\<rparr>) = aside s B"
  "aside s (B\<lparr>ab_free_levels := n\<rparr>) = aside s B" "aside s (B\<lparr>ab_trade_ctr := w\<rparr>) = aside s B"
  "aside s (B\<lparr>ab_order_ctr := w\<rparr>) = aside s B"
  by (simp_all add: aside_def)

lemma sides: "ab_bids B = aside False B" "ab_asks B = aside True B"
  by (simp_all add: aside_def)

lemma mset_resting: "mset (resting_orders B) = mset (flat (aside s B)) + mset (flat (aside (\<not> s) B))"
  by (cases s) (simp_all add: resting_orders_def aside_def)

lemma set_resting: "set (resting_orders B) = set (flat (aside s B)) \<union> set (flat (aside (\<not> s) B))"
  by (cases s) (auto simp: resting_orders_def aside_def)

lemma distinct_map_mset: "mset xs = mset ys \<Longrightarrow> distinct (map f xs) = distinct (map f ys)"
  by (rule mset_eq_imp_distinct_iff) simp

lemma distinct_resting:
  "distinct (map resting_id (resting_orders B)) \<longleftrightarrow>
     distinct (map resting_id (flat (aside s B) @ flat (aside (\<not> s) B)))"
  by (rule distinct_map_mset) (simp add: mset_resting [of B s])

text \<open>The invariant seen from one side.\<close>

definition uncrossed_at :: "bool \<Rightarrow> u64 \<Rightarrow> u64 \<Rightarrow> bool" where
  "uncrossed_at s p p' \<longleftrightarrow> (if s then p' < p else p < p')"

lemma abook_ok_side:
  "abook_ok B \<longleftrightarrow>
     ladder_ok s (aside s B) \<and> ladder_ok (\<not> s) (aside (\<not> s) B) \<and>
     (\<forall>l\<in>set (aside s B). \<forall>m\<in>set (aside (\<not> s) B). uncrossed_at s (fst l) (fst m)) \<and>
     distinct (map resting_id (flat (aside s B) @ flat (aside (\<not> s) B))) \<and>
     (\<forall>k oid. ab_clients B k = Some oid \<longrightarrow>
        (\<exists>x\<in>set (flat (aside s B)) \<union> set (flat (aside (\<not> s) B)). resting_id x = oid \<and> resting_key x = k))"
  unfolding abook_ok_def distinct_resting [of B s] set_resting [of B s] sides
  by (cases s) (auto simp: uncrossed_at_def all_bool_eq)

lemma abook_new_ok: "abook_ok abook_new"
  by (simp add: abook_ok_def abook_new_def aside_def resting_orders_def)

text \<open>An order whose keys were not removed is still there, possibly with less quantity.\<close>

lemma fills_survivor:
  assumes f: "fills cid ctr inc q i q' ts rm" and x: "x \<in> set q" "resting_key x \<notin> resting_key ` set rm"
  shows "\<exists>y\<in>set q'. resting_id y = resting_id x \<and> resting_key y = resting_key x"
proof -
  have "(resting_id x, resting_key x) \<in> set (zip (map resting_id q) (map resting_key q))"
    using x(1) by (simp only: zip_map_map zip_same_conv_map) force
  also have "\<dots> = set (zip (map resting_id rm) (map resting_key rm)) \<union>
               set (zip (map resting_id q') (map resting_key q'))"
    unfolding fills_removed [OF f] by simp
  finally show ?thesis
    using x(2) by (simp only: zip_map_map zip_same_conv_map) force
qed

lemma asweep_ok:
  assumes B: "abook_ok B" and A: "asweep s ot cid B order = (B', i, ts, stp)"
  shows "abook_ok B'"
proof -
  let ?o = "aside (\<not> s) B"
  obtain ls rm where S: "sweep_levels s ot cid (ab_trade_ctr B) order ?o = (i, ls, ts, rm, stp)"
    and B': "B' = (set_aside (\<not> s) ls B)
             \<lparr>ab_clients := ab_clients B |` (- resting_key ` set rm),
              ab_free_orders := ab_free_orders B + length rm,
              ab_free_levels := ab_free_levels B + (length (aside (\<not> s) B) - length ls),
              ab_trade_ctr := ab_trade_ctr B + of_nat (length ts)\<rparr>"
    using A by (auto simp: asweep_def split: prod.splits)
  note f = sweep_levels_fills [OF S]
  note ok = B [unfolded abook_ok_side [of B s]]
  have lad: "ladder_ok (\<not> s) ls"
    using ok sweep_levels_ladder [OF S] by simp
  obtain k where "map fst ls = drop k (map fst ?o)"
    using sweep_levels_suffix [OF S] by auto
  then have sub: "fst ` set ls \<subseteq> fst ` set ?o"
    by (metis list.set_map set_drop_subset)
  have ids: "map resting_id (flat ?o) = map resting_id rm @ map resting_id (flat ls)"
    by (rule fills_removed(1) [OF f])
  note cl = fills_survivor [OF f]
  have c: "\<exists>y\<in>set (flat (aside s B)) \<union> set (flat ls). resting_id y = oid \<and> resting_key y = key"
    if "(ab_clients B |` (- resting_key ` set rm)) key = Some oid" for key oid
  proof -
    from that have "key \<notin> resting_key ` set rm" "ab_clients B key = Some oid"
      by (auto simp: restrict_map_def split: if_splits)
    with ok obtain x where "x \<in> set (flat (aside s B)) \<union> set (flat ?o)" "resting_id x = oid"
      "resting_key x = key" by blast
    with cl \<open>key \<notin> _\<close> show ?thesis by blast
  qed
  have u: "\<forall>l\<in>set (aside s B). \<forall>m\<in>set ls. uncrossed_at s (fst l) (fst m)"
  proof (intro ballI)
    fix l m assume "l \<in> set (aside s B)" "m \<in> set ls"
    moreover from this(2) sub obtain m' where "m' \<in> set ?o" "fst m' = fst m"
      by (metis (no_types) image_iff subsetD)
    ultimately show "uncrossed_at s (fst l) (fst m)" using ok by metis
  qed
  have d: "distinct (map resting_id (flat (aside s B) @ flat ls))"
    using ok ids by auto
  have B'_sel: "aside s B' = aside s B" "aside (\<not> s) B' = ls"
    "ab_clients B' = ab_clients B |` (- resting_key ` set rm)"
    by (simp_all add: B')
  show ?thesis
    unfolding abook_ok_side [of B' s] B'_sel using ok lad u d c by blast
qed

lemma abook_ok_setI:
  assumes B: "abook_ok B"
    and lad: "ladder_ok s ls"
    and B': "aside s B' = ls" "aside (\<not> s) B' = aside (\<not> s) B"
    and un: "\<And>l m. l \<in> set ls \<Longrightarrow> m \<in> set (aside (\<not> s) B) \<Longrightarrow> uncrossed_at s (fst l) (fst m)"
    and ids: "distinct (map resting_id (flat ls @ flat (aside (\<not> s) B)))"
    and cl: "\<And>k oid. ab_clients B' k = Some oid \<Longrightarrow>
        \<exists>x\<in>set (flat ls) \<union> set (flat (aside (\<not> s) B)). resting_id x = oid \<and> resting_key x = k"
  shows "abook_ok B'"
  using B lad un ids cl unfolding abook_ok_side [of B' s] abook_ok_side [of B s] B' by metis

lemma mset_append_level:
  assumes "distinct (map fst ls)" "p \<in> fst ` set ls"
  shows "mset (flat (append_level p x ls)) = add_mset x (mset (flat ls))"
  using assms
proof (induction ls)
  case (Cons l ls)
  show ?case
  proof (cases "fst l = p")
    case True
    have "p \<notin> fst ` set ls" using Cons.prems(1) True by auto
    then have "(fst l, if fst l = p then snd l @ [x] else snd l) = l" if "l \<in> set ls" for l
      using that by (cases l) force
    then have "append_level p x ls = ls"
      unfolding append_level_def by (rule map_idI)
    with True show ?thesis by (simp add: append_level_def)
  next
    case False
    with Cons show ?thesis by (auto simp: append_level_def)
  qed
qed simp

lemma mset_insert_level: "mset (flat (insert_level s p x ls)) = add_mset x (mset (flat ls))"
proof -
  have "flat ls = flat (takeWhile (\<lambda>l. better s (fst l) p) ls) @ flat (dropWhile (\<lambda>l. better s (fst l) p) ls)"
    by (metis flat_simps(3) takeWhile_dropWhile_id)
  then show ?thesis by (simp add: insert_level_def)
qed

lemma append_level_prices [simp]: "map fst (append_level p x ls) = map fst ls"
  by (simp add: append_level_def)

lemma set_append_level_prices [simp]: "fst ` set (append_level p x ls) = fst ` set ls"
  by (metis append_level_prices list.set_map)

lemma sorted_prices:
  "sorted_wrt (\<lambda>l m. better s (fst l) (fst m)) ls \<longleftrightarrow> sorted_wrt (better s) (map fst ls)"
  by (simp add: sorted_wrt_map)

lemma append_level_ladder:
  assumes "ladder_ok s ls" "ord_price (fst x) = p" "ord_qty (fst x) \<noteq> 0"
    "ord_side (fst x) = Side_as Sell \<longleftrightarrow> s"
  shows "ladder_ok s (append_level p x ls)"
  using assms unfolding ladder_ok_def sorted_prices append_level_prices
  by (auto simp: append_level_def level_ok_def)

lemma insert_level_ladder:
  assumes "ladder_ok s ls" "ord_price (fst x) = p" "ord_qty (fst x) \<noteq> 0"
    "ord_side (fst x) = Side_as Sell \<longleftrightarrow> s" "p \<notin> fst ` set ls"
  shows "ladder_ok s (insert_level s p x ls)"
proof -
  have "sorted_wrt (\<lambda>l m. better s (fst l) (fst m)) (insert_level s p x ls)"
    using sorted_insert [of s fst ls "(p, [x])"] assms(1,5) by (simp add: ladder_ok_def insert_level_def)
  then show ?thesis
    using assms by (auto simp: ladder_ok_def insert_level_def level_ok_def dest: set_takeWhileD set_dropWhileD)
qed

lemma set_insert_level_prices: "fst ` set (insert_level s p x ls) = insert p (fst ` set ls)"
proof -
  have "set ls = set (takeWhile (\<lambda>l. better s (fst l) p) ls) \<union> set (dropWhile (\<lambda>l. better s (fst l) p) ls)"
    by (metis set_append takeWhile_dropWhile_id)
  then show ?thesis by (auto simp: insert_level_def)
qed

text \<open>An order that may rest: of the ladder's side, with a quantity, clear of the other side, of a new id.\<close>

definition restable :: "abook \<Rightarrow> Order \<Rightarrow> bool \<Rightarrow> bool" where
  "restable B order s \<longleftrightarrow>
     ord_qty order \<noteq> 0 \<and> (ord_side order = Side_as Sell \<longleftrightarrow> s) \<and>
     (\<forall>m\<in>set (aside (\<not> s) B). uncrossed_at s (ord_price order) (fst m)) \<and>
     ord_id order \<notin> resting_id ` set (resting_orders B)"

lemma arest_enters_ok:
  assumes B: "abook_ok B" and R: "restable B order s"
    and ls: "mset (flat ls) = add_mset (order, cid) (mset (flat (aside s B)))" "ladder_ok s ls"
      "fst ` set ls \<subseteq> insert (ord_price order) (fst ` set (aside s B))"
    and B': "aside s B' = ls" "aside (\<not> s) B' = aside (\<not> s) B"
      "ab_clients B' = (ab_clients B)((ord_user_id order, ord_client_order_id order) \<mapsto> ord_id order)"
  shows "abook_ok B'"
proof (rule abook_ok_setI [OF B ls(2) B'(1,2)])
  let ?x = "(order, cid)" and ?p = "ord_price order" and ?own = "aside s B" and ?o = "aside (\<not> s) B"
  note ok = B [unfolded abook_ok_side [of B s]]
  show "uncrossed_at s (fst l) (fst m)" if "l \<in> set ls" "m \<in> set ?o" for l m
  proof -
    from that(1) ls(3) consider "fst l = ?p" | l' where "l' \<in> set ?own" "fst l = fst l'" by auto
    then show ?thesis using that(2) R ok by cases (auto simp: restable_def)
  qed
  have "distinct (map resting_id (flat ls @ flat ?o)) =
      distinct (map resting_id (?x # flat ?own @ flat ?o))"
    by (rule distinct_map_mset) (simp add: ls(1))
  then show "distinct (map resting_id (flat ls @ flat ?o))"
    using ok R by (simp add: restable_def resting_id_def set_resting [of B s] image_Un)
  have x: "set (flat ls) = insert ?x (set (flat ?own))"
    using ls(1) by (metis set_mset_add_mset_insert set_mset_mset)
  show "\<exists>x\<in>set (flat ls) \<union> set (flat ?o). resting_id x = oid \<and> resting_key x = k"
    if "ab_clients B' k = Some oid" for k oid
  proof (cases "k = resting_key ?x")
    case True
    with that have "resting_id ?x = oid" by (simp add: B'(3) resting_key_def resting_id_def)
    with True x show ?thesis by blast
  next
    case False
    with that have "ab_clients B k = Some oid" by (auto simp: B'(3) resting_key_def)
    with ok x show ?thesis by blast
  qed
qed

lemma arest_ok:
  assumes B: "abook_ok B" and R: "restable B order s" and A: "arest B order cid s = (B', r)"
  shows "abook_ok B'"
proof -
  let ?x = "(order, cid)" and ?p = "ord_price order" and ?own = "aside s B"
  note ok = B [unfolded abook_ok_side [of B s]]
  have own: "ladder_ok s ?own" using ok by simp
  have x: "ord_price (fst ?x) = ?p" "ord_qty (fst ?x) \<noteq> 0" "ord_side (fst ?x) = Side_as Sell \<longleftrightarrow> s"
    using R by (auto simp: restable_def)
  have same: "abook_ok B'" if "B' = B\<lparr>ab_free_orders := n\<rparr>" for n
    using B unfolding that abook_ok_side [of _ s] by simp
  consider "ab_free_orders B = 0" | "ab_free_orders B \<noteq> 0" "?p \<in> fst ` set ?own"
    | "ab_free_orders B \<noteq> 0" "?p \<notin> fst ` set ?own" "ab_free_levels B = 0"
    | "ab_free_orders B \<noteq> 0" "?p \<notin> fst ` set ?own" "ab_free_levels B \<noteq> 0" by blast
  then show ?thesis
  proof cases
    case 1
    with A B show ?thesis by (simp add: arest_def)
  next
    case 2
    with A have "B' = (set_aside s (append_level ?p ?x ?own) (B\<lparr>ab_free_orders := ab_free_orders B - 1\<rparr>))
       \<lparr>ab_clients := (ab_clients B)((ord_user_id order, ord_client_order_id order) \<mapsto> ord_id order)\<rparr>"
      by (simp add: arest_def Let_def)
    with 2 own x show ?thesis
      by (intro arest_enters_ok [OF B R, where ls = "append_level ?p ?x ?own" and cid = cid] mset_append_level append_level_ladder ladder_prices_distinct) auto
  next
    case 3
    with A have "B' = B\<lparr>ab_free_orders := ab_free_orders B - 1\<rparr>" by (simp add: arest_def Let_def)
    then show ?thesis by (rule same)
  next
    case 4
    with A have "B' = (set_aside s (insert_level s ?p ?x ?own) (B\<lparr>ab_free_orders := ab_free_orders B - 1\<rparr>))
       \<lparr>ab_clients := (ab_clients B)((ord_user_id order, ord_client_order_id order) \<mapsto> ord_id order),
        ab_free_levels := ab_free_levels B - 1\<rparr>"
      by (simp add: arest_def Let_def)
    with 4 own x show ?thesis
      by (intro arest_enters_ok [OF B R, where ls = "insert_level s ?p ?x ?own" and cid = cid] mset_insert_level insert_level_ladder)
        (auto simp: set_insert_level_prices)
  qed
qed

lemma flat_remove_id: "flat (remove_id oid ls) = filter (\<lambda>x. resting_id x \<noteq> oid) (flat ls)"
  by (induction ls) (auto simp: remove_id_def)

lemma remove_id_prices: "fst ` set (remove_id oid ls) \<subseteq> fst ` set ls"
  by (force simp: remove_id_def)

lemma remove_id_absent:
  "\<forall>l\<in>set ls. snd l \<noteq> [] \<Longrightarrow> oid \<notin> resting_id ` set (flat ls) \<Longrightarrow> remove_id oid ls = ls"
proof (induction ls)
  case (Cons l ls)
  then have "filter (\<lambda>x. resting_id x \<noteq> oid) (snd l) = snd l" by (auto intro!: filter_True)
  moreover have "remove_id oid ls = ls" using Cons by auto
  ultimately show ?case using Cons.prems(1) by (simp add: remove_id_def)
qed (simp add: remove_id_def)

lemma remove_id_ladder: "ladder_ok s ls \<Longrightarrow> ladder_ok s (remove_id oid ls)"
proof (induction ls)
  case (Cons l ls)
  have "remove_id oid (l # ls) = (if filter (\<lambda>x. resting_id x \<noteq> oid) (snd l) = [] then remove_id oid ls
      else (fst l, filter (\<lambda>x. resting_id x \<noteq> oid) (snd l)) # remove_id oid ls)"
    by (simp add: remove_id_def)
  moreover have "\<forall>m\<in>set (remove_id oid ls). better s (fst l) (fst m)"
  proof
    fix m assume "m \<in> set (remove_id oid ls)"
    with remove_id_prices [of oid ls] obtain m' where "m' \<in> set ls" "fst m = fst m'" by blast
    with Cons.prems show "better s (fst l) (fst m)" by (simp add: ladder_ok_Cons)
  qed
  ultimately show ?case
    using Cons by (auto simp: ladder_ok_Cons level_ok_def)
qed (simp add: remove_id_def)

lemma find_resting_Some:
  "find_resting B oid = Some x \<Longrightarrow> x \<in> set (resting_orders B) \<and> resting_id x = oid"
  by (auto simp: find_resting_def find_Some_iff)

lemma find_resting_None: "find_resting B oid = None \<longleftrightarrow> oid \<notin> resting_id ` set (resting_orders B)"
  by (auto simp: find_resting_def find_None_iff)

lemma find_resting_unique:
  assumes "abook_ok B" "x \<in> set (resting_orders B)"
  shows "find_resting B (resting_id x) = Some x"
proof -
  obtain y where y: "find_resting B (resting_id x) = Some y"
    using assms(2) find_resting_None [of B "resting_id x"] by (cases "find_resting B (resting_id x)") auto
  with find_resting_Some [OF y] assms show ?thesis
    by (auto simp: abook_ok_def distinct_map dest: inj_onD)
qed

lemma resting_side:
  assumes "abook_ok B" "x \<in> set (resting_orders B)"
  shows "x \<in> set (flat (aside (ord_side (fst x) = Side_as Sell) B))"
  using assms unfolding abook_ok_def ladder_ok_def level_ok_def resting_orders_def sides
  by (auto simp: set_flat)

lemma cancel_target_Some:
  "cancel_target B uid oid = Some x \<Longrightarrow> x \<in> set (resting_orders B)"
  by (auto simp: cancel_target_def dest: find_resting_Some split: option.splits)

lemma aremove_ok:
  assumes B: "abook_ok B" and xr: "x \<in> set (resting_orders B)"
  shows "abook_ok (aremove B x)"
proof -
  let ?s = "ord_side (fst x) = Side_as Sell"
  define B' where "B' = aremove B x"
  note ok = B [unfolded abook_ok_side [of B ?s]]
  have xs: "x \<in> set (flat (aside ?s B))" by (rule resting_side [OF B xr])
  show ?thesis
    unfolding B'_def [symmetric]
  proof (rule abook_ok_setI [OF B])
    show "aside ?s B' = remove_id (resting_id x) (aside ?s B)" "aside (\<not> ?s) B' = aside (\<not> ?s) B"
      by (simp_all add: B'_def aremove_def Let_def)
    show "ladder_ok ?s (remove_id (resting_id x) (aside ?s B))"
      using ok remove_id_ladder by blast
    show "distinct (map resting_id (flat (remove_id (resting_id x) (aside ?s B)) @ flat (aside (\<not> ?s) B)))"
      using ok by (auto simp: flat_remove_id distinct_map_filter)
    show "uncrossed_at ?s (fst l) (fst m)"
      if "l \<in> set (remove_id (resting_id x) (aside ?s B))" "m \<in> set (aside (\<not> ?s) B)" for l m
      using that ok by (auto simp: remove_id_def)
    show "\<exists>y\<in>set (flat (remove_id (resting_id x) (aside ?s B))) \<union> set (flat (aside (\<not> ?s) B)).
        resting_id y = o' \<and> resting_key y = k" if "ab_clients B' k = Some o'" for k o'
    proof -
      from that have "k \<noteq> resting_key x" "ab_clients B k = Some o'"
        by (auto simp: B'_def aremove_def Let_def split: if_splits)
      with ok obtain y where y: "y \<in> set (flat (aside ?s B)) \<union> set (flat (aside (\<not> ?s) B))"
        "resting_id y = o'" "resting_key y = k" by blast
      moreover have "resting_id y \<noteq> resting_id x" if "y \<in> set (flat (aside ?s B))"
        using ok that xs y(3) \<open>k \<noteq> _\<close> by (auto simp: distinct_map dest: inj_onD)
      ultimately show ?thesis by (auto simp: flat_remove_id)
    qed
  qed
qed

lemma acancel_ok:
  assumes B: "abook_ok B" and A: "acancel B uid oid = (B', r)"
  shows "abook_ok B'"
  using A aremove_ok [OF B] B
  by (auto simp: acancel_def dest: cancel_target_Some split: option.splits if_splits)

section \<open>Processing preserves the invariant\<close>

text \<open>The id under which an order is processed, and the condition that it is not in use.\<close>

definition stamped :: "abook \<Rightarrow> Order \<Rightarrow> Order" where
  "stamped B order = (if ord_id order = 0 then order\<lparr>ord_id := ab_order_ctr B\<rparr> else order)"

definition fresh :: "abook \<Rightarrow> Order \<Rightarrow> bool" where
  "fresh B order \<longleftrightarrow> ord_id (stamped B order) \<notin> resting_id ` set (resting_orders B)"

lemma astamp_eq:
  "astamp B order = (B\<lparr>ab_order_ctr := (if ord_id order = 0 then ab_order_ctr B + 1
       else max (ab_order_ctr B) (ord_id order + 1))\<rparr>, stamped B order)"
  by (simp add: astamp_def stamped_def)

lemma stamped_sel [simp]:
  "ord_qty (stamped B order) = ord_qty order" "ord_side (stamped B order) = ord_side order"
  "ord_price (stamped B order) = ord_price order" "ord_user_id (stamped B order) = ord_user_id order"
  "ord_client_order_id (stamped B order) = ord_client_order_id order"
  "ord_order_type (stamped B order) = ord_order_type order"
  "ord_symbol_id (stamped B order) = ord_symbol_id order"
  by (simp_all add: stamped_def)

lemma beyond_limit_stamped [simp]: "beyond_limit s ot (stamped B order) = beyond_limit s ot order"
  by (simp add: beyond_limit_def fun_eq_iff)

lemma resting_upd [simp]:
  "resting_orders (B\<lparr>ab_clients := c\<rparr>) = resting_orders B"
  "resting_orders (B\<lparr>ab_free_orders := n\<rparr>) = resting_orders B"
  "resting_orders (B\<lparr>ab_free_levels := n\<rparr>) = resting_orders B"
  "resting_orders (B\<lparr>ab_trade_ctr := w\<rparr>) = resting_orders B"
  "resting_orders (B\<lparr>ab_order_ctr := w\<rparr>) = resting_orders B"
  by (simp_all add: resting_orders_def)

lemma abook_ok_order_ctr [simp]: "abook_ok (B\<lparr>ab_order_ctr := w\<rparr>) = abook_ok B"
  by (simp add: abook_ok_def)

text \<open>What a sweep does, in terms of executions.\<close>

lemma asweep_fills:
  assumes "asweep s ot cid B order = (B', i, ts, stp)"
  obtains rm where
    "sweep_levels s ot cid (ab_trade_ctr B) order (aside (\<not> s) B) = (i, aside (\<not> s) B', ts, rm, stp)"
    "fills cid (ab_trade_ctr B) order (flat (aside (\<not> s) B)) i (flat (aside (\<not> s) B')) ts rm"
    "aside s B' = aside s B" "ab_order_ctr B' = ab_order_ctr B"
    "ab_trade_ctr B' = ab_trade_ctr B + of_nat (length ts)"
  using assms sweep_levels_fills by (fastforce simp: asweep_def split: prod.splits)

lemma asweep_ids:
  assumes "asweep s ot cid B order = (B', i, ts, stp)"
  shows "resting_id ` set (resting_orders B') \<subseteq> resting_id ` set (resting_orders B)"
proof -
  obtain rm where f: "fills cid (ab_trade_ctr B) order (flat (aside (\<not> s) B)) i (flat (aside (\<not> s) B')) ts rm"
    and s: "aside s B' = aside s B"
    using assms by (rule asweep_fills)
  have "resting_id ` set (flat (aside (\<not> s) B)) =
      resting_id ` set rm \<union> resting_id ` set (flat (aside (\<not> s) B'))"
    using fills_removed(1) [OF f] by (metis list.set_map set_append)
  then show ?thesis by (auto simp: set_resting [of _ s] s)
qed

lemma asweep_restable:
  assumes B: "abook_ok B" and A: "asweep s Limit cid B order = (B', i, ts, False)"
    and i: "ord_qty i \<noteq> 0" and side: "ord_side order = Side_as Sell \<longleftrightarrow> s"
    and new: "ord_id order \<notin> resting_id ` set (resting_orders B)"
  shows "restable B' i s"
proof -
  obtain rm where S: "sweep_levels s Limit cid (ab_trade_ctr B) order (aside (\<not> s) B) = (i, aside (\<not> s) B', ts, rm, False)"
    and f: "fills cid (ab_trade_ctr B) order (flat (aside (\<not> s) B)) i (flat (aside (\<not> s) B')) ts rm"
    using A by (rule asweep_fills)
  obtain z where z: "i = order\<lparr>ord_qty := z\<rparr>" using fills_incoming [OF f] by auto
  have "\<forall>l\<in>set (aside (\<not> s) B). snd l \<noteq> []"
    using B by (simp add: abook_ok_side [of B s] ladder_ok_def level_ok_def)
  from sweep_levels_stop [OF S this] i
  have stop: "aside (\<not> s) B' = [] \<or> beyond_limit s Limit order (fst (hd (aside (\<not> s) B')))"
    by simp
  have lad: "ladder_ok (\<not> s) (aside (\<not> s) B')"
    using asweep_ok [OF B A] by (simp add: abook_ok_side [of B' s])
  have "uncrossed_at s (ord_price i) (fst m)" if m: "m \<in> set (aside (\<not> s) B')" for m
  proof -
    obtain l ls where l: "aside (\<not> s) B' = l # ls" using m by (cases "aside (\<not> s) B'") auto
    with stop have "uncrossed_at s (ord_price order) (fst l)"
      by (auto simp: beyond_limit_def uncrossed_at_def)
    moreover have "m = l \<or> better (\<not> s) (fst l) (fst m)"
      using m lad unfolding l ladder_ok_Cons by auto
    ultimately show ?thesis by (auto simp: z uncrossed_at_def better_def split: if_splits)
  qed
  with asweep_ids [OF A] new side i show ?thesis
    by (auto simp: restable_def z)
qed

text \<open>The three ways an order that is not a cancel ends.\<close>

lemma aprocess_cases:
  assumes "order_type_of order \<noteq> Cancel" and "aprocess B order cid = (B', ts, r)"
  defines "s \<equiv> ord_side order = Side_as Sell" and "B1 \<equiv> fst (astamp B order)"
  obtains B2 i stp where
    "asweep s (order_type_of order) cid B1 (stamped B order) = (B2, i, ts, stp)"
    "\<And>rep. r = Inr rep \<Longrightarrow> rep = \<lparr>er_executed_qty = sat_sub (ord_qty order) (ord_qty i),
        er_remaining_qty = ord_qty i, er_stp_triggered = stp\<rparr>"
    "if \<not> stp \<and> order_type_of order = Limit \<and> ord_qty i \<noteq> 0
     then \<exists>r'. arest B2 i cid s = (B', r') \<and> (case r' of Inl e \<Rightarrow> r = Inl e | Inr _ \<Rightarrow> \<exists>rep. r = Inr rep)
     else B' = B2 \<and> (\<exists>rep. r = Inr rep)"
  using assms(2) by (fastforce simp: aprocess_def assms(1) s_def B1_def Let_def astamp_eq word_gt_0
      split: prod.splits sum.splits if_splits)

lemma aprocess_cancel:
  "order_type_of order = Cancel \<Longrightarrow> aprocess B order cid = (B', ts, r) \<Longrightarrow>
     \<exists>c. acancel B (ord_user_id order)
           (if ord_id order \<noteq> 0 then ord_id order else ord_client_order_id order) = (B', c) \<and> ts = []"
  by (auto simp: aprocess_def split: prod.splits sum.splits)

lemma aprocess_ok:
  assumes B: "abook_ok B" and new: "order_type_of order = Limit \<Longrightarrow> fresh B order"
    and A: "aprocess B order cid = (B', ts, r)"
  shows "abook_ok B'"
proof (cases "order_type_of order = Cancel")
  case True
  with A B show ?thesis by (auto dest!: aprocess_cancel intro: acancel_ok)
next
  case False
  let ?s = "ord_side order = Side_as Sell" and ?B1 = "fst (astamp B order)"
  obtain B2 i stp where S: "asweep ?s (order_type_of order) cid ?B1 (stamped B order) = (B2, i, ts, stp)"
    and E: "if \<not> stp \<and> order_type_of order = Limit \<and> ord_qty i \<noteq> 0
      then \<exists>r'. arest B2 i cid ?s = (B', r') \<and> (case r' of Inl e \<Rightarrow> r = Inl e | Inr _ \<Rightarrow> \<exists>rep. r = Inr rep)
      else B' = B2 \<and> (\<exists>rep. r = Inr rep)"
    using False A by (rule aprocess_cases)
  have B1: "abook_ok ?B1" using B by (simp add: astamp_eq)
  note B2 = asweep_ok [OF B1 S]
  show ?thesis
  proof (cases "\<not> stp \<and> order_type_of order = Limit \<and> ord_qty i \<noteq> 0")
    case True
    with E obtain r' where R: "arest B2 i cid ?s = (B', r')" by auto
    from True S have S': "asweep ?s Limit cid ?B1 (stamped B order) = (B2, i, ts, False)" by simp
    have "restable B2 i ?s"
      by (rule asweep_restable [OF B1 S']) (use True new in \<open>simp_all add: fresh_def astamp_eq\<close>)
    from arest_ok [OF B2 this R] show ?thesis .
  next
    case False
    with E B2 show ?thesis by (simp split: if_splits)
  qed
qed

text \<open>
  An order that trades and still wants to rest has freed room for itself: prevention apart, a sweep that
  leaves a quantity over has emptied every level it entered. So \<open>EngineFull\<close> never follows a trade.
\<close>

lemma sweep_levels_frees:
  assumes S: "sweep_levels s ot cid ctr inc ls = (i, ls', ts, rm, False)"
    and ne: "\<forall>l\<in>set ls. snd l \<noteq> []" and "ts \<noteq> []" and "ord_qty i \<noteq> 0"
  shows "rm \<noteq> [] \<and> length ls' < length ls"
proof (cases ls)
  case Nil
  with S \<open>ts \<noteq> []\<close> show ?thesis by simp
next
  case (Cons l rest)
  obtain p q where l: "l = (p, q)" by (rule prod.exhaust)
  obtain inc1 q1 ts1 rm1 stp1 where F: "fill_queue cid ctr inc q = (inc1, q1, ts1, rm1, stp1)"
    by (metis prod_cases5)
  have go: "\<not> (ord_qty inc = 0 \<or> beyond_limit s ot inc p)"
    using S \<open>ts \<noteq> []\<close> by (auto simp: Cons l)
  have q1: "q1 = []"
    using S \<open>ord_qty i \<noteq> 0\<close> fill_queue_stop [OF F] go by (auto simp: Cons l F split: if_splits)
  then obtain ts2 rm2 where
    R: "sweep_levels s ot cid (ctr + of_nat (length ts1)) inc1 rest = (i, ls', ts2, rm2, False)" "rm = rm1 @ rm2"
    using S go by (auto simp: Cons l F split: prod.splits)
  have "map resting_id q = map resting_id rm1"
    using fills_removed(1) [OF fill_queue_fills [OF F]] q1 by simp
  then have "rm1 \<noteq> []" using ne by (auto simp: Cons l)
  obtain k where "map fst ls' = drop k (map fst rest)" using sweep_levels_suffix [OF R(1)] by blast
  then have "length ls' \<le> length rest"
    by (metis length_drop length_map diff_le_self)
  with \<open>rm1 \<noteq> []\<close> R(2) Cons show ?thesis by simp
qed

lemma asweep_frees:
  assumes B: "abook_ok B" and A: "asweep s ot cid B order = (B', i, ts, False)"
    and "ts \<noteq> []" and "ord_qty i \<noteq> 0"
  shows "ab_free_orders B' \<noteq> 0 \<and> ab_free_levels B' \<noteq> 0"
proof -
  obtain ls rm where S: "sweep_levels s ot cid (ab_trade_ctr B) order (aside (\<not> s) B) = (i, ls, ts, rm, False)"
    and B': "ab_free_orders B' = ab_free_orders B + length rm"
      "ab_free_levels B' = ab_free_levels B + (length (aside (\<not> s) B) - length ls)"
    using A by (auto simp: asweep_def split: prod.splits)
  have "\<forall>l\<in>set (aside (\<not> s) B). snd l \<noteq> []"
    using B by (simp add: abook_ok_side [of B s] ladder_ok_def level_ok_def)
  from sweep_levels_frees [OF S this assms(3,4)] show ?thesis by (simp add: B')
qed

lemma fills_no_trades: "fills cid ctr inc q i q' [] rm \<Longrightarrow> i = inc \<and> q' = q \<and> rm = []"
  by (cases rule: fills.cases) auto

lemma sweep_levels_no_trades:
  assumes S: "sweep_levels s ot cid ctr inc ls = (i, ls', [], rm, stp)" and ne: "\<forall>l\<in>set ls. snd l \<noteq> []"
  shows "ls' = ls \<and> rm = []"
proof (cases ls)
  case Nil
  with S show ?thesis by simp
next
  case (Cons l rest)
  obtain p q where l: "l = (p, q)" by (rule prod.exhaust)
  obtain inc1 q1 ts1 rm1 stp1 where F: "fill_queue cid ctr inc q = (inc1, q1, ts1, rm1, stp1)"
    by (metis prod_cases5)
  have "q1 = q" "rm1 = []" if "ts1 = []"
    using fills_no_trades [OF fill_queue_fills [OF F [unfolded that]]] by simp_all
  moreover have "q \<noteq> []" using ne by (simp add: Cons l)
  ultimately show ?thesis using S by (auto simp: Cons l F split: if_splits prod.splits)
qed

text \<open>
  An error leaves no trace but lost capacity: no trade, no change of the ladders or of the client map.
  Only a full book refuses an order that is not a cancel.
\<close>

lemma aprocess_error:
  assumes B: "abook_ok B" and A: "aprocess B order cid = (B', ts, Inl e)"
  shows "ts = [] \<and> ab_bids B' = ab_bids B \<and> ab_asks B' = ab_asks B \<and> ab_clients B' = ab_clients B \<and>
    (order_type_of order \<noteq> Cancel \<longrightarrow> e = EngineFull \<and> (ab_free_orders B = 0 \<or> ab_free_levels B = 0))"
proof (cases "order_type_of order = Cancel")
  case True
  with A show ?thesis by (auto simp: aprocess_def acancel_def split: prod.splits sum.splits option.splits if_splits)
next
  case False
  let ?s = "ord_side order = Side_as Sell" and ?B1 = "fst (astamp B order)"
  obtain B2 i stp where S: "asweep ?s (order_type_of order) cid ?B1 (stamped B order) = (B2, i, ts, stp)"
    and E: "if \<not> stp \<and> order_type_of order = Limit \<and> ord_qty i \<noteq> 0
      then \<exists>r'. arest B2 i cid ?s = (B', r') \<and> (case r' of Inl e' \<Rightarrow> Inl e = (Inl e' :: RejectReason + ExecutionReport)
        | Inr _ \<Rightarrow> \<exists>rep. (Inl e :: RejectReason + ExecutionReport) = Inr rep)
      else B' = B2 \<and> (\<exists>rep. (Inl e :: RejectReason + ExecutionReport) = Inr rep)"
    by (rule aprocess_cases [OF False A])
  have c: "\<not> stp \<and> order_type_of order = Limit \<and> ord_qty i \<noteq> 0"
    using E by (rule_tac ccontr) (simp only: if_False, simp)
  have R: "arest B2 i cid ?s = (B', Inl e)"
    using E unfolding if_P [OF c] by (force split: sum.splits)
  then have full: "ab_free_orders B2 = 0 \<or> ab_free_levels B2 = 0" and e: "e = EngineFull" and
    B': "ab_bids B' = ab_bids B2" "ab_asks B' = ab_asks B2" "ab_clients B' = ab_clients B2"
    by (auto simp: arest_def Let_def split: if_splits)
  have B1: "abook_ok ?B1" using B by (simp add: astamp_eq)
  then have ts: "ts = []"
    using full asweep_frees [of ?B1 ?s "order_type_of order" cid "stamped B order" B2 i ts] S c by (cases ts) auto
  have ne: "\<forall>l\<in>set (aside (\<not> ?s) ?B1). snd l \<noteq> []"
    using B1 by (simp add: abook_ok_side [of ?B1 ?s] ladder_ok_def level_ok_def)
  obtain ls rm where W: "sweep_levels ?s (order_type_of order) cid (ab_trade_ctr ?B1) (stamped B order) (aside (\<not> ?s) ?B1) =
      (i, ls, [], rm, stp)"
    and B2: "ab_bids B2 = ab_bids (set_aside (\<not> ?s) ls ?B1)" "ab_asks B2 = ab_asks (set_aside (\<not> ?s) ls ?B1)"
      "ab_clients B2 = ab_clients ?B1 |` (- resting_key ` set rm)"
    using S unfolding ts asweep_def by (auto split: prod.splits)
  have "ls = aside (\<not> ?s) ?B1" "rm = []" using sweep_levels_no_trades [OF W ne] by simp_all
  moreover have "ab_free_orders ?B1 \<le> ab_free_orders B2" "ab_free_levels ?B1 \<le> ab_free_levels B2"
    using S by (auto simp: asweep_def split: prod.splits)
  ultimately show ?thesis using B2 B' ts full e by (auto simp: astamp_eq aside_def set_aside_def restrict_map_def)
qed

end
