(* ===== verification/Level_Match.thy ===== *)
theory Level_Match
  imports Book_Spec
begin

text \<open>
  The queue of a price level as the abstract book sees it, and the loop of \<open>match_level\<close>: one round of it fills
  the front order in full or in part, and the whole loop computes \<open>fill_queue\<close> and returns.
\<close>

section \<open>Order queues and their data\<close>

definition qdata :: "OrderArena \<Rightarrow> u32 list \<Rightarrow> resting list" where
  "qdata a q = map (\<lambda>i. (on_order (ond a i), on_client_id (ond a i))) q"

definition index_entry :: "OrderArena \<Rightarrow> u32 \<Rightarrow> FastIndexEntry" where
  "index_entry a i =
     (let r = on_order (ond a i) in
      \<lparr>fi_order_id = ord_id r, fi_client_order_id = ord_client_order_id r, fi_user_id = ord_user_id r,
       fi_price = ord_price r, fi_node_idx = i, fi_side = ord_side r, fi_occupied = True\<rparr>)"

definition node_id :: "OrderArena \<Rightarrow> u32 \<Rightarrow> u64" where
  "node_id a i = ord_id (on_order (ond a i))"

definition node_key :: "OrderArena \<Rightarrow> u32 \<Rightarrow> u64 \<times> u64" where
  "node_key a i = (ord_user_id (on_order (ond a i)), ord_client_order_id (on_order (ond a i)))"

text \<open>The cached total of a level is the exact sum of its orders (when \<open>tq\<close> asks for it).\<close>

definition total_ok :: "bool \<Rightarrow> OrderArena \<Rightarrow> PriceLevelNode \<Rightarrow> u32 list \<Rightarrow> bool" where
  "total_ok tq a l q \<longleftrightarrow>
     (tq \<longrightarrow> unat (pl_total_qty l) = sum_list (map (\<lambda>i. unat (ord_qty (on_order (ond a i)))) q))"

lemma qdata_simps [simp]:
  "qdata a [] = []" "qdata a (i # q) = (on_order (ond a i), on_client_id (ond a i)) # qdata a q"
  "qdata a (p @ q) = qdata a p @ qdata a q" "length (qdata a q) = length q"
  "qdata a q = [] \<longleftrightarrow> q = []"
  by (simp_all add: qdata_def)

lemma qdata_cong:
  "(\<And>i. i \<in> set q \<Longrightarrow> on_order (ond a' i) = on_order (ond a i) \<and> on_client_id (ond a' i) = on_client_id (ond a i)) \<Longrightarrow>
     qdata a' q = qdata a q"
  by (simp add: qdata_def)

lemma qdata_ids [simp]:
  "map resting_id (qdata a q) = map (node_id a) q" "map resting_key (qdata a q) = map (node_key a) q"
  "resting_id ` set (qdata a q) = node_id a ` set q" "resting_key ` set (qdata a q) = node_key a ` set q"
  by (auto simp: qdata_def resting_id_def resting_key_def node_id_def node_key_def image_image)

section \<open>Matching one level\<close>

text \<open>What matching preserves of the orders that stay: everything but the quantity and the links.\<close>

definition node_like :: "OrderArena \<Rightarrow> OrderArena \<Rightarrow> u32 \<Rightarrow> bool" where
  "node_like a a' i \<longleftrightarrow>
     (\<exists>z. on_order (ond a' i) = (on_order (ond a i))\<lparr>ord_qty := z\<rparr>) \<and>
     on_client_id (ond a' i) = on_client_id (ond a i) \<and> on_active (ond a' i) = on_active (ond a i)"

lemma node_like_refl [simp]: "node_like a a i"
  unfolding node_like_def by (auto intro!: exI [of _ "ord_qty (on_order (ond a i))"])

lemma node_like_trans: "node_like a b i \<Longrightarrow> node_like b c i \<Longrightarrow> node_like a c i"
  unfolding node_like_def by auto

lemma node_like_entry:
  assumes "node_like a a' i"
  shows "index_entry a' i = index_entry a i" "node_id a' i = node_id a i" "node_key a' i = node_key a i"
    "on_active (ond a' i) = on_active (ond a i)"
  using assms by (auto simp: node_like_def index_entry_def node_id_def node_key_def Let_def)

text \<open>What matching preserves of the level.\<close>

definition level_like :: "PriceLevelNode \<Rightarrow> PriceLevelNode \<Rightarrow> bool" where
  "level_like l l' \<longleftrightarrow>
     pl_price l' = pl_price l \<and> pl_prev_level l' = pl_prev_level l \<and>
     pl_next_level l' = pl_next_level l \<and> pl_next_free l' = pl_next_free l \<and> pl_active l' = pl_active l"

lemma level_like_refl [simp]: "level_like l l"
  by (simp add: level_like_def)

lemma level_like_trans: "level_like a b \<Longrightarrow> level_like b c \<Longrightarrow> level_like a c"
  by (simp add: level_like_def)

text \<open>The part of a matching state that the loop's invariant speaks of.\<close>

definition ms_ok :: "bool \<Rightarrow> match_state \<Rightarrow> u32 list \<Rightarrow> u32 list \<Rightarrow> bool" where
  "ms_ok tq s q fo \<longleftrightarrow>
     queue_ok (ms_order_arena s) (ms_level s) q \<and> total_ok tq (ms_order_arena s) (ms_level s) q \<and>
     oa_free (ms_order_arena s) fo \<and> set q \<inter> set fo = {} \<and>
     order_index_ok (ms_order_index s) \<and> client_index_ok (ms_client_order_index s)"

text \<open>How the state after the loop extends the state before it, the nodes \<open>rm\<close> being gone.\<close>

definition ms_ext :: "match_state \<Rightarrow> u32 list \<Rightarrow> u32 list \<Rightarrow> Trade list \<Rightarrow> match_state \<Rightarrow> bool" where
  "ms_ext s q rm ts s' \<longleftrightarrow>
     olen (ms_order_arena s') = olen (ms_order_arena s) \<and>
     (\<forall>j. j \<notin> set q \<longrightarrow> ond (ms_order_arena s') j = ond (ms_order_arena s) j) \<and>
     (\<forall>j. j \<notin> set rm \<longrightarrow> node_like (ms_order_arena s) (ms_order_arena s') j) \<and>
     level_like (ms_level s) (ms_level s') \<and>
     order_map (ms_order_index s') = order_map (ms_order_index s) |` (- node_id (ms_order_arena s) ` set rm) \<and>
     client_map (ms_client_order_index s') =
       client_map (ms_client_order_index s) |` (- node_key (ms_order_arena s) ` set rm) \<and>
     ms_trades s' = ms_trades s @ ts \<and>
     ms_trade_id_counter s' = ms_trade_id_counter s + of_nat (length ts)"

lemma oa_free_cong:
  assumes "oa_free a fs" "olen a' = olen a" "oa_free_head a' = oa_free_head a"
    "oa_active_count a' = oa_active_count a" "\<And>i. i \<in> set fs \<Longrightarrow> on_next (ond a' i) = on_next (ond a i)"
  shows "oa_free a' fs"
  using assms free_nodes_cong [of fs "\<lambda>i. on_next (ond a' i)" "\<lambda>i. on_next (ond a i)"]
  by (simp add: oa_free_def)

lemma total_ok_cong:
  assumes "\<And>i. i \<in> set q \<Longrightarrow> on_order (ond a' i) = on_order (ond a i)" "pl_total_qty l' = pl_total_qty l"
  shows "total_ok tq a' l' q = total_ok tq a l q"
proof -
  have "map (\<lambda>i. unat (ord_qty (on_order (ond a' i)))) q = map (\<lambda>i. unat (ord_qty (on_order (ond a i)))) q"
    using assms(1) by simp
  then show ?thesis by (simp only: total_ok_def assms(2))
qed

lemma sat_sub_zero [simp]: "sat_sub w 0 = w"
  by (simp add: sat_sub_def)

text \<open>Taking the front order out of the queue and giving its node back.\<close>

definition same_node :: "OrderNode \<Rightarrow> OrderNode \<Rightarrow> bool" where
  "same_node n n' \<longleftrightarrow> on_order n' = on_order n \<and> on_client_id n' = on_client_id n \<and> on_active n' = on_active n"

lemma free_front:
  assumes q: "queue_ok a l (i # q)" and fo: "oa_free a fo" "i \<notin> set fo" "set q \<inter> set fo = {}"
  obtains l' a' where "pop_order l a = Some (l', a', Some i)"
    "queue_ok (oa_deallocate a' i) l' q" "oa_free (oa_deallocate a' i) (i # fo)" "olen (oa_deallocate a' i) = olen a"
    "level_like l l'" "pl_total_qty l' = sat_sub (pl_total_qty l) (ord_qty (on_order (ond a i)))"
    "\<And>j. j \<notin> set (i # q) \<Longrightarrow> ond (oa_deallocate a' i) j = ond a j"
    "\<And>j. j \<noteq> i \<Longrightarrow> same_node (ond a j) (ond (oa_deallocate a' i) j)"
proof -
  have i: "unat i < olen a" "i \<notin> set q" using queue_okD(4,5) [OF q] by auto
  define l' where "l' = l\<lparr>pl_head_order := hd_or q NULL_IDX, pl_tail_order := last_or q NULL_IDX,
    pl_total_qty := sat_sub (pl_total_qty l) (ord_qty (on_order (ond a i))), pl_order_count := sat_sub (pl_order_count l) 1\<rparr>"
  obtain a' where pop: "pop_order l a = Some (l', a', Some i)" "queue_ok a' l' q" "same_data a a'"
    and frame: "\<And>j. j \<notin> set q \<Longrightarrow> ond a' j = ond a j"
    by (rule pop_order_Cons [OF q, folded l'_def]) (rule that)
  have "ond a' j = ond a j" if "j \<in> set fo" for j
    using that fo(3) by (intro frame) auto
  then have "oa_free a' fo" using pop(3) by (intro oa_free_cong [OF fo(1)]) (simp_all add: same_data_def)
  moreover have "unat i < olen a'" using i pop(3) by (simp add: same_data_def)
  ultimately have d: "oa_free (oa_deallocate a' i) (i # fo)" "oa_deallocate a' i =
      a'\<lparr>oa_nodes := vupd (oa_nodes a') (unat i) (\<lambda>n. n\<lparr>on_active := False, on_next := oa_free_head a', on_prev := NULL_IDX\<rparr>),
         oa_free_head := i, oa_active_count := oa_active_count a' - 1\<rparr>"
    using oa_deallocate_ok [of a' fo i] fo(2) by auto
  then have nd: "ond (oa_deallocate a' i) j = ond a' j" if "j \<noteq> i" for j using that by auto
  have q': "queue_ok (oa_deallocate a' i) l' q"
    using pop(2) i(2) by (subst queue_ok_cong [where a = a' and l = l']) (auto simp: d(2))
  show thesis
    by (rule that [OF pop(1) q' d(1)]) (use frame nd pop(3) in \<open>auto simp: d(2) l'_def level_like_def same_data_def same_node_def\<close>)
qed

lemma match_step_full:
  assumes s: "ms_ok tq s (i # q) fo"
    and t: "ord_qty (on_order (ond (ms_order_arena s) i)) \<le> ord_qty (ms_incoming s)"
  defines "a \<equiv> ms_order_arena s" and "inc \<equiv> ms_incoming s"
  defines "r \<equiv> on_order (ond a i)" and "rc \<equiv> on_client_id (ond a i)"
  shows "\<exists>s'. match_step cid s i (ond a i) = Some s' \<and> ms_ok tq s' q (i # fo) \<and>
           ms_ext s (i # q) [i] [mk_trade inc cid r rc (ms_trade_id_counter s) (ord_qty r)] s' \<and>
           ms_incoming s' = inc\<lparr>ord_qty := ord_qty inc - ord_qty r\<rparr> \<and>
           qdata (ms_order_arena s') q = qdata a q"
proof -
  let ?l0 = "ms_level s"
  define b where "b = oset a i (\<lambda>n. n\<lparr>on_order := (on_order n)\<lparr>ord_qty := ord_qty (on_order n) - ord_qty r\<rparr>\<rparr>)"
  define l1 where "l1 = ?l0\<lparr>pl_total_qty := pl_total_qty ?l0 - ord_qty r\<rparr>"
  have q0: "queue_ok a ?l0 (i # q)" and fo: "oa_free a fo" "i \<notin> set fo" "set q \<inter> set fo = {}"
    and idx: "order_index_ok (ms_order_index s)" "client_index_ok (ms_client_order_index s)"
    and tot: "total_ok tq a ?l0 (i # q)"
    using s by (auto simp: ms_ok_def a_def)
  have i: "unat i < olen a" "i \<notin> set q" using queue_okD(4,5) [OF q0] by auto
  have m: "min (ord_qty inc) (ord_qty r) = ord_qty r" using t by (simp add: inc_def r_def a_def)
  have b_i: "ond b i = (ond a i)\<lparr>on_order := r\<lparr>ord_qty := 0\<rparr>\<rparr>" "olen b = olen a" and b_j: "j \<noteq> i \<Longrightarrow> ond b j = ond a j" for j
    by (simp_all add: b_def r_def)
  have "queue_ok b l1 (i # q)" "oa_free b fo"
    using q0 by (subst queue_ok_cong [where a = a and l = ?l0]; auto simp: b_def l1_def)
      (auto intro: oa_free_cong [OF fo(1)] simp: b_def)
  then obtain l2 a' where pop: "pop_order l1 b = Some (l2, a', Some i)" and a2: "queue_ok (oa_deallocate a' i) l2 q"
      "oa_free (oa_deallocate a' i) (i # fo)" "olen (oa_deallocate a' i) = olen b"
    and l2: "level_like l1 l2" "pl_total_qty l2 = sat_sub (pl_total_qty l1) (ord_qty (on_order (ond b i)))"
    and frame: "\<And>j. j \<notin> set (i # q) \<Longrightarrow> ond (oa_deallocate a' i) j = ond b j"
    and data: "\<And>j. j \<noteq> i \<Longrightarrow> same_node (ond b j) (ond (oa_deallocate a' i) j)"
    using fo(2,3) by (rule free_front) (rule that)
  obtain oi where oi: "foi_remove (ms_order_index s) (ord_id r) = Some (oi, order_map (ms_order_index s) (ord_id r))"
    "order_index_ok oi" "order_map oi = (order_map (ms_order_index s))(ord_id r := None)"
    using foi_remove_ok [OF idx(1)] by blast
  obtain ci where ci: "fci_remove (ms_client_order_index s) (ord_user_id r) (ord_client_order_id r) =
      Some (ci, client_map (ms_client_order_index s) (ord_user_id r, ord_client_order_id r))"
    "client_index_ok ci" "client_map ci = (client_map (ms_client_order_index s))((ord_user_id r, ord_client_order_id r) := None)"
    using fci_remove_ok [OF idx(2)] by blast
  define s' where "s' = s\<lparr>ms_trade_id_counter := ms_trade_id_counter s + 1,
       ms_trades := ms_trades s @ [mk_trade inc cid r rc (ms_trade_id_counter s) (ord_qty r)],
       ms_incoming := inc\<lparr>ord_qty := ord_qty inc - ord_qty r\<rparr>,
       ms_level := l2, ms_order_arena := oa_deallocate a' i, ms_order_index := oi, ms_client_order_index := ci\<rparr>"
  have "match_step cid s i (ond a i) = Some s'"
    using i pop oi(1) ci(1) b_i
    by (simp add: match_step_def Let_def m a_def [symmetric] inc_def [symmetric] r_def [symmetric]
        rc_def [symmetric] b_def [symmetric] l1_def [symmetric] s'_def)
  moreover have node: "same_node (ond a j) (ond (oa_deallocate a' i) j)" if "j \<noteq> i" for j
    using data [OF that] b_j [OF that] by simp
  then have same: "on_order (ond (oa_deallocate a' i) j) = on_order (ond a j)"
    "on_client_id (ond (oa_deallocate a' i) j) = on_client_id (ond a j)" if "j \<in> set q" for j
    using that i(2) unfolding same_node_def by metis+
  have "total_ok tq (oa_deallocate a' i) l2 q \<longleftrightarrow> total_ok tq a l2 q" by (rule total_ok_cong [OF same(1)]) simp_all
  then have "ms_ok tq s' q (i # fo)"
    using a2 oi(2) ci(2) fo(3) i(2) tot
    by (auto simp: ms_ok_def s'_def total_ok_def l2(2) l1_def b_i r_def unat_sub word_le_nat_alt)
  moreover have "ms_ext s (i # q) [i] [mk_trade inc cid r rc (ms_trade_id_counter s) (ord_qty r)] s'"
  proof -
    have "node_like a (oa_deallocate a' i) j" if "j \<noteq> i" for j
      using node [OF that] by (auto simp: node_like_def same_node_def intro!: exI [of _ "ord_qty (on_order (ond a j))"])
    then show ?thesis
      using frame a2(3) l2(1) b_i(2) b_j unfolding ms_ext_def
      by (auto simp: s'_def a_def [symmetric] level_like_def l1_def oi(3) ci(3) node_id_def node_key_def r_def [symmetric]
          restrict_map_def fun_eq_iff)
  qed
  moreover have "qdata (oa_deallocate a' i) q = qdata a q"
    by (rule qdata_cong) (simp add: same)
  ultimately show ?thesis by (auto simp: s'_def)
qed

lemma match_step_part:
  assumes s: "ms_ok tq s (i # q) fo"
    and t: "ord_qty (ms_incoming s) < ord_qty (on_order (ond (ms_order_arena s) i))"
  defines "a \<equiv> ms_order_arena s" and "inc \<equiv> ms_incoming s"
  defines "r \<equiv> on_order (ond a i)" and "rc \<equiv> on_client_id (ond a i)"
  shows "\<exists>s'. match_step cid s i (ond a i) = Some s' \<and> ms_ok tq s' (i # q) fo \<and>
           ms_ext s (i # q) [] [mk_trade inc cid r rc (ms_trade_id_counter s) (ord_qty inc)] s' \<and>
           ms_incoming s' = inc\<lparr>ord_qty := 0\<rparr> \<and>
           qdata (ms_order_arena s') (i # q) = (r\<lparr>ord_qty := ord_qty r - ord_qty inc\<rparr>, rc) # qdata a q"
proof -
  let ?l0 = "ms_level s"
  define b where "b = oset a i (\<lambda>n. n\<lparr>on_order := (on_order n)\<lparr>ord_qty := ord_qty (on_order n) - ord_qty inc\<rparr>\<rparr>)"
  define l1 where "l1 = ?l0\<lparr>pl_total_qty := pl_total_qty ?l0 - ord_qty inc\<rparr>"
  have q0: "queue_ok a ?l0 (i # q)" and fo: "oa_free a fo" and disj: "i \<notin> set fo"
    and tot: "total_ok tq a ?l0 (i # q)"
    using s by (auto simp: ms_ok_def a_def)
  have i: "unat i < olen a" "i \<notin> set q" using queue_okD(4,5) [OF q0] by auto
  have t': "ord_qty inc < ord_qty r" using t by (simp add: inc_def r_def a_def)
  then have m: "min (ord_qty inc) (ord_qty r) = ord_qty inc" "ord_qty r - ord_qty inc \<noteq> 0" by auto
  have b_i: "ond b i = (ond a i)\<lparr>on_order := r\<lparr>ord_qty := ord_qty r - ord_qty inc\<rparr>\<rparr>" "olen b = olen a"
    by (simp_all add: b_def r_def)
  define s' where "s' = s\<lparr>ms_trade_id_counter := ms_trade_id_counter s + 1,
       ms_trades := ms_trades s @ [mk_trade inc cid r rc (ms_trade_id_counter s) (ord_qty inc)],
       ms_incoming := inc\<lparr>ord_qty := 0\<rparr>, ms_level := l1, ms_order_arena := b\<rparr>"
  have run: "match_step cid s i (ond a i) = Some s'"
    using i m b_i
    by (simp add: match_step_def Let_def a_def [symmetric] inc_def [symmetric] r_def [symmetric]
        rc_def [symmetric] b_def [symmetric] l1_def [symmetric] s'_def)
  have like: "node_like a b j" for j
  proof (cases "j = i")
    case True
    then show ?thesis by (auto simp: node_like_def b_def)
  next
    case False
    then have "ond b j = ond a j" by (simp add: b_def)
    then show ?thesis by (auto simp: node_like_def intro!: exI [of _ "ord_qty (on_order (ond a j))"])
  qed
  have "queue_ok b l1 (i # q)"
    using q0 by (subst queue_ok_cong [where a = a and l = ?l0]) (auto simp: b_def l1_def)
  moreover have "oa_free b fo"
    by (rule oa_free_cong [OF fo]) (simp_all add: b_def)
  moreover have "total_ok tq b l1 (i # q)"
  proof -
    have "(\<Sum>j\<leftarrow>q. unat (ord_qty (on_order (ond b j)))) = (\<Sum>j\<leftarrow>q. unat (ord_qty (on_order (ond a j))))"
      using i(2) by (intro arg_cong [where f = sum_list] map_cong) (auto simp: b_def)
    moreover have "ord_qty inc \<le> pl_total_qty ?l0" if tq
      using tot t' that by (simp add: total_ok_def word_le_nat_alt word_less_nat_alt r_def)
    ultimately show ?thesis
      using tot t' by (simp add: total_ok_def l1_def b_i unat_sub word_less_nat_alt word_le_nat_alt r_def)
  qed
  ultimately have "ms_ok tq s' (i # q) fo"
    using s by (simp add: ms_ok_def s'_def)
  moreover have "ms_ext s (i # q) [] [mk_trade inc cid r rc (ms_trade_id_counter s) (ord_qty inc)] s'"
    using like unfolding ms_ext_def
    by (auto simp: s'_def a_def [symmetric] b_def level_like_def l1_def restrict_map_def)
  moreover have "qdata b q = qdata a q"
    using i(2) by (intro qdata_cong) (auto simp: b_def)
  ultimately show ?thesis using run b_i by (auto simp: s'_def rc_def)
qed

lemma node_like_node:
  assumes "node_like a a' i"
  shows "node_id a' i = node_id a i" "node_key a' i = node_key a i"
  using node_like_entry [OF assms] by simp_all

lemma ms_ext_trans:
  assumes 1: "ms_ext s (i # q) [i] [t] s1" and 2: "ms_ext s1 q rm ts s2" and q: "i \<notin> set rm"
  shows "ms_ext s (i # q) (i # rm) (t # ts) s2"
proof -
  let ?a = "ms_order_arena s" and ?b = "ms_order_arena s1" and ?c = "ms_order_arena s2"
  have like: "node_like ?a ?b j" if "j \<noteq> i" for j using 1 that by (simp add: ms_ext_def)
  have ids: "node_id ?b ` set rm = node_id ?a ` set rm" "node_key ?b ` set rm = node_key ?a ` set rm"
    using q node_like_node [OF like] by (auto simp: image_iff) metis+
  have e: "- insert x (f ` set rm) = - {x} \<inter> - f ` set rm" for x and f :: "u32 \<Rightarrow> 'x"
    by auto
  have "node_like ?a ?c j" if "j \<notin> set (i # rm)" for j
    using that 2 like [of j] node_like_trans [of ?a ?b j ?c] by (simp add: ms_ext_def)
  moreover have "ms_trade_id_counter s2 = ms_trade_id_counter s + of_nat (length (t # ts))"
    using 1 2 by (simp add: ms_ext_def algebra_simps)
  ultimately show ?thesis
    using 1 2 level_like_trans [of "ms_level s" "ms_level s1" "ms_level s2"]
    by (simp add: ms_ext_def ids e Int_commute)
qed

lemma restrict_map_UNIV [simp]: "m |` UNIV = m"
  by (simp add: restrict_map_def)

lemma ms_ext_refl: "ms_ext s q [] [] s"
  by (simp add: ms_ext_def)

lemma match_loop_unroll:
  assumes s: "ms_ok tq s (i # q) fo"
  defines "n \<equiv> ond (ms_order_arena s) i"
  shows "match_loop cid s =
    (if ord_qty (ms_incoming s) = 0 then Some (s, False)
     else if ord_user_id (on_order n) = ord_user_id (ms_incoming s) then Some (s, True)
     else do { s \<leftarrow> match_step cid s i n; match_loop cid s })"
proof -
  have q: "queue_ok (ms_order_arena s) (ms_level s) (i # q)" using s by (simp add: ms_ok_def)
  show ?thesis
    using is_empty_iff [OF q] queue_okD(1,5) [OF q]
    by (subst match_loop.simps) (auto simp: n_def Let_def word_gt_0)
qed

lemma match_loop_sim:
  "ms_ok tq s q fo \<Longrightarrow>
   fill_queue cid (ms_trade_id_counter s) (ms_incoming s) (qdata (ms_order_arena s) q) = (inc', q', ts, rm, stp) \<Longrightarrow>
     \<exists>s' k. match_loop cid s = Some (s', stp) \<and> ms_ok tq s' (drop k q) (rev (take k q) @ fo) \<and>
       ms_ext s q (take k q) ts s' \<and> ms_incoming s' = inc' \<and>
       qdata (ms_order_arena s') (drop k q) = q' \<and> rm = qdata (ms_order_arena s) (take k q)"
proof (induction q arbitrary: s fo ts rm)
  case Nil
  then have "pl_is_empty (ms_level s)" by (simp add: ms_ok_def queue_ok_Nil pl_is_empty_def)
  with Nil show ?case by (subst match_loop.simps) (auto simp: ms_ext_refl)
next
  case (Cons i q)
  let ?a = "ms_order_arena s" and ?inc = "ms_incoming s"
  let ?r = "on_order (ond ?a i)" and ?rc = "on_client_id (ond ?a i)" and ?c = "ms_trade_id_counter s"
  have iq: "i \<notin> set q" using Cons.prems(1) queue_okD(4) [of ?a "ms_level s" "i # q"] by (simp add: ms_ok_def)
  note unroll = match_loop_unroll [OF Cons.prems(1), of cid]
  consider "ord_qty ?inc = 0 \<or> ord_user_id ?r = ord_user_id ?inc"
    | "ord_qty ?inc \<noteq> 0" "ord_user_id ?r \<noteq> ord_user_id ?inc" "ord_qty ?r \<le> ord_qty ?inc"
    | "ord_qty ?inc \<noteq> 0" "ord_user_id ?r \<noteq> ord_user_id ?inc" "ord_qty ?inc < ord_qty ?r" by force
  then show ?case
  proof cases
    case 1
    with Cons.prems unroll show ?thesis
      by (intro exI [of _ s] exI [of _ 0]) (auto simp: ms_ext_refl split: if_splits)
  next
    case 2
    then have m: "min (ord_qty ?inc) (ord_qty ?r) = ord_qty ?r" by simp
    obtain s1 where s1: "match_step cid s i (ond ?a i) = Some s1" "ms_ok tq s1 q (i # fo)"
      "ms_ext s (i # q) [i] [mk_trade ?inc cid ?r ?rc ?c (ord_qty ?r)] s1"
      "ms_incoming s1 = ?inc\<lparr>ord_qty := ord_qty ?inc - ord_qty ?r\<rparr>"
      and eq: "qdata (ms_order_arena s1) q = qdata ?a q"
      using match_step_full [OF Cons.prems(1) 2(3)] by blast
    have c1: "ms_trade_id_counter s1 = ?c + 1" using s1(3) by (simp add: ms_ext_def)
    obtain ts1 rm1 where F: "fill_queue cid (?c + 1) (?inc\<lparr>ord_qty := ord_qty ?inc - ord_qty ?r\<rparr>) (qdata ?a q) =
        (inc', q', ts1, rm1, stp)" "ts = mk_trade ?inc cid ?r ?rc ?c (ord_qty ?r) # ts1" "rm = (?r, ?rc) # rm1"
      using Cons.prems(2) 2 by (auto simp: Let_def m split: prod.splits)
    obtain s2 k where s2: "match_loop cid s1 = Some (s2, stp)" "ms_ok tq s2 (drop k q) (rev (take k q) @ i # fo)"
      "ms_ext s1 q (take k q) ts1 s2" "ms_incoming s2 = inc'"
      "qdata (ms_order_arena s2) (drop k q) = q'" "rm1 = qdata (ms_order_arena s1) (take k q)"
      using Cons.IH [OF s1(2)] F(1) unfolding c1 s1(4) eq by blast
    have "i \<notin> set (take k q)" using iq by (meson in_set_takeD)
    from ms_ext_trans [OF s1(3) s2(3) this] have "ms_ext s (i # q) (take (Suc k) (i # q)) ts s2"
      by (simp add: F(2))
    moreover have "qdata (ms_order_arena s1) (take k q) = qdata ?a (take k q)"
      using eq by (simp add: qdata_def) (meson in_set_takeD)
    ultimately show ?thesis
      using s2 F(3) unroll 2 s1(1) by (intro exI [of _ s2] exI [of _ "Suc k"]) simp
  next
    case 3
    then have m: "min (ord_qty ?inc) (ord_qty ?r) = ord_qty ?inc" by simp
    obtain s1 where s1: "match_step cid s i (ond ?a i) = Some s1" "ms_ok tq s1 (i # q) fo"
      "ms_ext s (i # q) [] [mk_trade ?inc cid ?r ?rc ?c (ord_qty ?inc)] s1"
      "ms_incoming s1 = ?inc\<lparr>ord_qty := 0\<rparr>"
      "qdata (ms_order_arena s1) (i # q) = (?r\<lparr>ord_qty := ord_qty ?r - ord_qty ?inc\<rparr>, ?rc) # qdata ?a q"
      using match_step_part [OF Cons.prems(1) 3(3)] by blast
    from 3(3) have "ord_qty ?r - ord_qty ?inc \<noteq> 0" by auto
    then have F: "inc' = ?inc\<lparr>ord_qty := 0\<rparr>" "q' = (?r\<lparr>ord_qty := ord_qty ?r - ord_qty ?inc\<rparr>, ?rc) # qdata ?a q"
      "ts = [mk_trade ?inc cid ?r ?rc ?c (ord_qty ?inc)]" "rm = []" "stp = False"
      using Cons.prems(2) 3 by (auto simp: Let_def m split: prod.splits)
    have "match_loop cid s1 = Some (s1, False)"
      by (subst match_loop.simps) (simp add: s1(4))
    with F s1 unroll 3 show ?thesis
      by (intro exI [of _ s1] exI [of _ 0]) simp
  qed
qed

end
