(* ===== verification/Ladders.thy ===== *)
theory Ladders
  imports Book_Spec
begin

text \<open>
  The price ladders: the levels of a side, doubly linked in price order. \<open>link_price_level\<close> finds the place of a
  new price, so its walk ends, and \<open>unlink_price_level\<close> takes a level out.
\<close>

section \<open>Price ladders\<close>

abbreviation llen :: "PriceLevelArena \<Rightarrow> nat" where
  "llen a \<equiv> vlen (la_nodes a)"

abbreviation lprice :: "PriceLevelArena \<Rightarrow> u32 \<Rightarrow> u64" where
  "lprice a i \<equiv> pl_price (lnd a i)"

definition lset :: "PriceLevelArena \<Rightarrow> u32 \<Rightarrow> (PriceLevelNode \<Rightarrow> PriceLevelNode) \<Rightarrow> PriceLevelArena" where
  "lset a i f = a\<lparr>la_nodes := vupd (la_nodes a) (unat i) f\<rparr>"

lemma lget_in [simp]: "unat i < llen a \<Longrightarrow> lget a i = Some (lnd a i)"
  by (simp add: lget_def lnd_def)

lemma lmod_in [simp]: "unat i < llen a \<Longrightarrow> lmod a i f = Some (lset a i f)"
  by (simp add: lmod_def lset_def)

lemma lnd_lset [simp]: "lnd (lset a i f) j = (if j = i then f (lnd a i) else lnd a j)"
  by (simp add: lset_def)

lemma lset_fields [simp]: "llen (lset a i f) = llen a" "la_free_head (lset a i f) = la_free_head a"
  by (simp_all add: lset_def)

text \<open>What linking and unlinking preserve of the level nodes: all but the ladder links.\<close>

definition same_levels :: "PriceLevelArena \<Rightarrow> PriceLevelArena \<Rightarrow> bool" where
  "same_levels a a' \<longleftrightarrow>
     llen a' = llen a \<and> la_free_head a' = la_free_head a \<and>
     (\<forall>i. pl_price (lnd a' i) = pl_price (lnd a i) \<and> pl_head_order (lnd a' i) = pl_head_order (lnd a i) \<and>
          pl_tail_order (lnd a' i) = pl_tail_order (lnd a i) \<and> pl_total_qty (lnd a' i) = pl_total_qty (lnd a i) \<and>
          pl_order_count (lnd a' i) = pl_order_count (lnd a i) \<and> pl_next_free (lnd a' i) = pl_next_free (lnd a i))"

lemma same_levels_refl [simp]: "same_levels a a"
  by (simp add: same_levels_def)

lemma same_levels_lset:
  assumes "same_levels a b" "\<And>n. pl_price (f n) = pl_price n" "\<And>n. pl_head_order (f n) = pl_head_order n"
    "\<And>n. pl_tail_order (f n) = pl_tail_order n" "\<And>n. pl_total_qty (f n) = pl_total_qty n"
    "\<And>n. pl_order_count (f n) = pl_order_count n" "\<And>n. pl_next_free (f n) = pl_next_free n"
  shows "same_levels a (lset b i f)"
  using assms by (simp add: same_levels_def)

text \<open>
  \<open>chain_ok s a h lv\<close>: the levels \<open>lv\<close>, first to last, are linked into the ladder of side \<open>s\<close> with
  the best level \<open>h\<close>.
\<close>

definition chain_ok :: "bool \<Rightarrow> PriceLevelArena \<Rightarrow> u32 \<Rightarrow> u32 list \<Rightarrow> bool" where
  "chain_ok s a h lv \<longleftrightarrow>
     h = hd_or lv NULL_IDX \<and>
     links (\<lambda>i. pl_next_level (lnd a i)) (\<lambda>i. pl_prev_level (lnd a i)) NULL_IDX lv NULL_IDX \<and>
     distinct lv \<and> (\<forall>i\<in>set lv. unat i < llen a) \<and> llen a \<le> 4294967295 \<and>
     sorted_wrt (\<lambda>i j. better s (lprice a i) (lprice a j)) lv"

lemma chain_okD:
  assumes "chain_ok s a h lv"
  shows "h = hd_or lv NULL_IDX"
    "links (\<lambda>i. pl_next_level (lnd a i)) (\<lambda>i. pl_prev_level (lnd a i)) NULL_IDX lv NULL_IDX"
    "distinct lv" "i \<in> set lv \<Longrightarrow> unat i < llen a" "llen a \<le> 4294967295"
    "sorted_wrt (\<lambda>i j. better s (lprice a i) (lprice a j)) lv" "NULL_IDX \<notin> set lv"
  using assms unat_NULL_IDX by (auto simp: chain_ok_def)

lemma chain_ok_cong:
  assumes "\<And>i. i \<in> set lv \<Longrightarrow> pl_next_level (lnd a' i) = pl_next_level (lnd a i)"
    and "\<And>i. i \<in> set lv \<Longrightarrow> pl_prev_level (lnd a' i) = pl_prev_level (lnd a i)"
    and "\<And>i. i \<in> set lv \<Longrightarrow> lprice a' i = lprice a i"
    and "llen a' = llen a"
  shows "chain_ok s a' h lv = chain_ok s a h lv"
proof -
  have "sorted_wrt (\<lambda>i j. better s (lprice a' i) (lprice a' j)) lv =
      sorted_wrt (\<lambda>i j. better s (lprice a i) (lprice a j)) lv"
    by (rule iffI; erule sorted_wrt_mono_rel [rotated]; simp add: assms(3))
  then show ?thesis
    unfolding chain_ok_def assms(4)
    using links_cong [of lv "\<lambda>i. pl_next_level (lnd a' i)" "\<lambda>i. pl_next_level (lnd a i)"
        "\<lambda>i. pl_prev_level (lnd a' i)" "\<lambda>i. pl_prev_level (lnd a i)" NULL_IDX NULL_IDX] assms(1,2)
    by simp
qed

lemma links_last: "links nx pv p xs q \<Longrightarrow> xs \<noteq> [] \<Longrightarrow> nx (last_or xs d) = q"
proof (induction xs arbitrary: p d)
  case (Cons x xs)
  then show ?case by (cases xs) auto
qed simp

lemma best_upd [simp]:
  "best s (b\<lparr>ob_level_arena := la\<rparr>) = best s b" "best s (b\<lparr>ob_order_arena := oa\<rparr>) = best s b"
  "best s (b\<lparr>ob_price_index := px\<rparr>) = best s b" "best s (b\<lparr>ob_order_index := oi\<rparr>) = best s b"
  "best s (b\<lparr>ob_client_order_index := ci\<rparr>) = best s b" "best s (b\<lparr>ob_trade_id_counter := w\<rparr>) = best s b"
  "best s (b\<lparr>ob_order_id_counter := w\<rparr>) = best s b"
  by (simp_all add: best_def)

lemma set_best_same: "best s b = i \<Longrightarrow> set_best s i b = b"
  by (cases b) (auto simp: best_def set_best_def)

lemma find_slot_ok:
  assumes "links (\<lambda>i. pl_next_level (lnd a i)) pv p (x # ys) NULL_IDX"
    and "\<forall>i\<in>set (x # ys). unat i < llen a" "llen a \<le> 4294967295"
  shows "find_slot s a pr x = Some (last_or (takeWhile (\<lambda>i. better s (lprice a i) pr) ys) x)"
  using assms
proof (induction ys arbitrary: x p)
  case Nil
  then show ?case by (subst find_slot.simps) simp
next
  case (Cons y ys)
  then have y: "y \<noteq> NULL_IDX" "pl_next_level (lnd a x) = y" "unat x < llen a" "unat y < llen a"
    using in_range_not_NULL by auto
  with Cons show ?case by (subst find_slot.simps) auto
qed

lemma last_or_takeWhile:
  assumes "sorted_wrt (\<lambda>i j. better s (f i) (f j)) (x # ys)" "\<not> better s p (f x)" "p \<notin> f ` set (x # ys)"
  shows "takeWhile (\<lambda>i. better s (f i) p) (x # ys) = x # takeWhile (\<lambda>i. better s (f i) p) ys"
  using assms better_total by auto

lemma lset_commute: "i \<noteq> j \<Longrightarrow> lset (lset a i f) j g = lset (lset a j g) i f"
  by (simp add: lset_def vupd_def fun_upd_twist)

text \<open>
  Both operations cut the ladder between \<open>xs\<close> and \<open>ys\<close>, and make the last level of \<open>xs\<close> point to \<open>x\<close> and
  the first one of \<open>ys\<close> point back to \<open>y\<close>.
\<close>

definition relink :: "PriceLevelArena \<Rightarrow> u32 list \<Rightarrow> u32 \<Rightarrow> u32 \<Rightarrow> u32 list \<Rightarrow> PriceLevelArena" where
  "relink a xs x y ys =
     (let a = (if xs = [] then a else lset a (last_or xs NULL_IDX) (\<lambda>n. n\<lparr>pl_next_level := x\<rparr>))
      in if ys = [] then a else lset a (hd_or ys NULL_IDX) (\<lambda>n. n\<lparr>pl_prev_level := y\<rparr>))"

abbreviation next_of :: "PriceLevelArena \<Rightarrow> u32 \<Rightarrow> u32" where
  "next_of a j \<equiv> pl_next_level (lnd a j)"

abbreviation prev_of :: "PriceLevelArena \<Rightarrow> u32 \<Rightarrow> u32" where
  "prev_of a j \<equiv> pl_prev_level (lnd a j)"

lemma relink_same: "same_levels a (relink a xs x y ys)"
  by (auto simp: relink_def Let_def intro!: same_levels_lset)

lemma relink_frame: "j \<notin> set (xs @ ys) \<Longrightarrow> lnd (relink a xs x y ys) j = lnd a j"
  using last_or_in [of xs NULL_IDX] hd_or_in [of ys NULL_IDX] by (auto simp: relink_def Let_def)

lemma relink_links:
  assumes "distinct (xs @ ys)"
  shows "links (next_of a) (prev_of a) NULL_IDX xs u \<Longrightarrow>
      links (next_of (relink a xs x y ys)) (prev_of (relink a xs x y ys)) NULL_IDX xs x"
    and "links (next_of a) (prev_of a) w ys NULL_IDX \<Longrightarrow>
      links (next_of (relink a xs x y ys)) (prev_of (relink a xs x y ys)) y ys NULL_IDX"
proof -
  show "links (next_of (relink a xs x y ys)) (prev_of (relink a xs x y ys)) NULL_IDX xs x"
    if "links (next_of a) (prev_of a) NULL_IDX xs u"
  proof (cases "xs = []")
    case False
    have "links ((next_of a)(last_or xs NULL_IDX := x)) (prev_of a) NULL_IDX xs x"
      using links_set_last [OF that False, of x] assms by simp
    then show ?thesis
      using False assms hd_or_in [of ys NULL_IDX]
      by (subst links_cong [where nx' = "(next_of a)(last_or xs NULL_IDX := x)" and pv' = "prev_of a"])
        (auto simp: relink_def Let_def)
  qed simp
  show "links (next_of (relink a xs x y ys)) (prev_of (relink a xs x y ys)) y ys NULL_IDX"
    if "links (next_of a) (prev_of a) w ys NULL_IDX"
  proof (cases "ys = []")
    case False
    have "links (next_of a) ((prev_of a)(hd_or ys NULL_IDX := y)) y ys NULL_IDX"
      using links_set_first [OF that False, of y] assms by simp
    then show ?thesis
      using False assms last_or_in [of xs NULL_IDX]
      by (subst links_cong [where nx' = "next_of a" and pv' = "(prev_of a)(hd_or ys NULL_IDX := y)"])
        (auto simp: relink_def Let_def)
  qed simp
qed

text \<open>The ends of the cut are levels of the ladder, other than \<open>i\<close>.\<close>

lemma cut_ends:
  assumes "distinct (xs @ i # ys)" "NULL_IDX \<notin> set (xs @ ys)" "\<forall>j\<in>set (xs @ ys). unat j < llen a"
  shows "xs \<noteq> [] \<Longrightarrow> last_or xs NULL_IDX \<noteq> NULL_IDX \<and> last_or xs NULL_IDX \<noteq> i \<and> unat (last_or xs NULL_IDX) < llen a"
    "ys \<noteq> [] \<Longrightarrow> hd_or ys NULL_IDX \<noteq> NULL_IDX \<and> hd_or ys NULL_IDX \<noteq> i \<and> unat (hd_or ys NULL_IDX) < llen a"
    "xs \<noteq> [] \<Longrightarrow> ys \<noteq> [] \<Longrightarrow> last_or xs NULL_IDX \<noteq> hd_or ys NULL_IDX"
proof -
  have l: "last_or xs NULL_IDX \<in> set xs" if "xs \<noteq> []" using last_or_in [OF that] .
  have h: "hd_or ys NULL_IDX \<in> set ys" if "ys \<noteq> []" using hd_or_in [OF that] .
  show "xs \<noteq> [] \<Longrightarrow> last_or xs NULL_IDX \<noteq> NULL_IDX \<and> last_or xs NULL_IDX \<noteq> i \<and> unat (last_or xs NULL_IDX) < llen a"
    using assms l by auto
  show "ys \<noteq> [] \<Longrightarrow> hd_or ys NULL_IDX \<noteq> NULL_IDX \<and> hd_or ys NULL_IDX \<noteq> i \<and> unat (hd_or ys NULL_IDX) < llen a"
    using assms h by auto
  show "xs \<noteq> [] \<Longrightarrow> ys \<noteq> [] \<Longrightarrow> last_or xs NULL_IDX \<noteq> hd_or ys NULL_IDX"
    using assms(1) l h by auto
qed

text \<open>The arena after a level is linked in at the cut, and after it is taken out.\<close>

definition linked_in :: "PriceLevelArena \<Rightarrow> u32 list \<Rightarrow> u32 \<Rightarrow> u32 list \<Rightarrow> PriceLevelArena" where
  "linked_in a xs i ys =
     lset (relink a xs i i ys) i (\<lambda>n. n\<lparr>pl_prev_level := last_or xs NULL_IDX, pl_next_level := hd_or ys NULL_IDX\<rparr>)"

definition taken_out :: "PriceLevelArena \<Rightarrow> u32 list \<Rightarrow> u32 \<Rightarrow> u32 list \<Rightarrow> PriceLevelArena" where
  "taken_out a xs i ys =
     lset (relink a xs (hd_or ys NULL_IDX) (last_or xs NULL_IDX) ys) i
       (\<lambda>n. n\<lparr>pl_prev_level := NULL_IDX, pl_next_level := NULL_IDX\<rparr>)"

lemma cut_same: "same_levels a (linked_in a xs i ys)" "same_levels a (taken_out a xs i ys)"
  unfolding linked_in_def taken_out_def by (auto intro!: same_levels_lset relink_same)

lemma cut_frame:
  "j \<noteq> i \<Longrightarrow> j \<notin> set (xs @ ys) \<Longrightarrow> lnd (linked_in a xs i ys) j = lnd a j"
  "j \<noteq> i \<Longrightarrow> j \<notin> set (xs @ ys) \<Longrightarrow> lnd (taken_out a xs i ys) j = lnd a j"
  by (simp_all add: linked_in_def taken_out_def relink_frame)

lemma links_lset:
  assumes "links (next_of a) (prev_of a) p xs q" "i \<notin> set xs"
  shows "links (next_of (lset a i f)) (prev_of (lset a i f)) p xs q"
proof -
  have "links (next_of (lset a i f)) (prev_of (lset a i f)) p xs q = links (next_of a) (prev_of a) p xs q"
    by (rule links_cong) (use assms(2) in auto)
  with assms(1) show ?thesis by simp
qed

lemma linked_in_chain:
  assumes ch: "chain_ok s a h (xs @ ys)" and i: "unat i < llen a" "i \<notin> set (xs @ ys)"
    and sorted: "sorted_wrt (\<lambda>i j. better s (lprice a i) (lprice a j)) (xs @ i # ys)"
  shows "chain_ok s (linked_in a xs i ys) (hd_or (xs @ i # ys) NULL_IDX) (xs @ i # ys)"
proof -
  let ?r = "relink a xs i i ys" and ?a = "linked_in a xs i ys"
  note D = chain_okD [OF ch]
  have L: "links (next_of ?r) (prev_of ?r) NULL_IDX xs i" "links (next_of ?r) (prev_of ?r) i ys NULL_IDX"
    using relink_links [OF D(3), of a] D(2) by (auto simp: links_append)
  have n: "i \<notin> set xs" "i \<notin> set ys" using i(2) by simp_all
  have "links (next_of ?a) (prev_of ?a) NULL_IDX xs i" "links (next_of ?a) (prev_of ?a) i ys NULL_IDX"
    unfolding linked_in_def by (rule links_lset [OF L(1) n(1)], rule links_lset [OF L(2) n(2)])
  then have "links (next_of ?a) (prev_of ?a) NULL_IDX (xs @ i # ys) NULL_IDX"
    by (simp add: links_append linked_in_def)
  then show ?thesis
    using D(3-5) i sorted cut_same(1) [of a xs i ys] by (auto simp: chain_ok_def same_levels_def)
qed

lemma taken_out_chain:
  assumes ch: "chain_ok s a h (xs @ i # ys)"
  shows "chain_ok s (taken_out a xs i ys) (hd_or (xs @ ys) NULL_IDX) (xs @ ys)"
proof -
  let ?r = "relink a xs (hd_or ys NULL_IDX) (last_or xs NULL_IDX) ys" and ?a = "taken_out a xs i ys"
  note D = chain_okD [OF ch]
  have L: "links (next_of ?r) (prev_of ?r) NULL_IDX xs (hd_or ys NULL_IDX)"
    "links (next_of ?r) (prev_of ?r) (last_or xs NULL_IDX) ys NULL_IDX"
    using relink_links [of xs ys a] D(2,3) by (auto simp: links_append)
  have i: "i \<notin> set xs" "i \<notin> set ys" using D(3) by simp_all
  have "links (next_of ?a) (prev_of ?a) NULL_IDX xs (hd_or ys NULL_IDX)"
    "links (next_of ?a) (prev_of ?a) (last_or xs NULL_IDX) ys NULL_IDX"
    unfolding taken_out_def by (rule links_lset [OF L(1) i(1)], rule links_lset [OF L(2) i(2)])
  then have "links (next_of ?a) (prev_of ?a) NULL_IDX (xs @ ys) NULL_IDX"
    by (simp add: links_append)
  then show ?thesis
    using D(3-6) cut_same(2) [of a xs i ys] by (auto simp: chain_ok_def same_levels_def sorted_wrt_append)
qed

lemma link_price_level_ok:
  assumes ch: "chain_ok s (ob_level_arena b) (best s b) lv"
    and i: "unat i < llen (ob_level_arena b)" "i \<notin> set lv"
    and p: "lprice (ob_level_arena b) i = p" "p \<notin> lprice (ob_level_arena b) ` set lv"
  defines "lv' \<equiv> takeWhile (\<lambda>j. better s (lprice (ob_level_arena b) j) p) lv @
             i # dropWhile (\<lambda>j. better s (lprice (ob_level_arena b) j) p) lv"
  shows "\<exists>la'. link_price_level b i s = Some ((set_best s (hd_or lv' NULL_IDX) b)\<lparr>ob_level_arena := la'\<rparr>) \<and>
           chain_ok s la' (hd_or lv' NULL_IDX) lv' \<and> same_levels (ob_level_arena b) la' \<and>
           (\<forall>j. j \<noteq> i \<longrightarrow> j \<notin> set lv \<longrightarrow> lnd la' j = lnd (ob_level_arena b) j)"
proof -
  let ?a = "ob_level_arena b"
  note D = chain_okD [OF ch]
  define xs where "xs = takeWhile (\<lambda>j. better s (lprice ?a j) p) lv"
  define ys where "ys = dropWhile (\<lambda>j. better s (lprice ?a j) p) lv"
  have lv: "lv = xs @ ys" by (simp add: xs_def ys_def)
  have lv': "lv' = xs @ i # ys" by (simp add: lv'_def xs_def ys_def)
  have ends: "distinct (xs @ i # ys)" "NULL_IDX \<notin> set (xs @ ys)" "\<forall>j\<in>set (xs @ ys). unat j < llen ?a"
    using D(3,4,7) i(2) by (auto simp: lv)
  note c = cut_ends(1) [OF ends] and n = cut_ends(2) [OF ends] and cn = cut_ends(3) [OF ends]
  have run: "link_price_level b i s = Some ((set_best s (hd_or lv' NULL_IDX) b)\<lparr>ob_level_arena := linked_in ?a xs i ys\<rparr>)"
  proof (cases "xs = []")
    case True
    show ?thesis
    proof (cases "ys = []")
      case True
      with \<open>xs = []\<close> D(1) i(1) show ?thesis
        by (simp add: link_price_level_def lv lv' linked_in_def relink_def Let_def)
    next
      case False
      then obtain y ys' where ys: "ys = y # ys'" by (cases ys) auto
      have "\<not> better s (lprice ?a y) p" using ys unfolding ys_def dropWhile_eq_Cons_conv by blast
      then have "better s p (lprice ?a y)" using p(2) ys lv by (auto intro: better_total)
      moreover have "(\<lambda>n. n\<lparr>pl_next_level := y, pl_prev_level := NULL_IDX\<rparr>) =
          (\<lambda>n :: PriceLevelNode. n\<lparr>pl_prev_level := NULL_IDX, pl_next_level := y\<rparr>)" by (rule ext) simp
      moreover have iy: "i \<noteq> y" using n [OF False] ys by auto
      ultimately show ?thesis
        using True ys D(1) i(1) n [OF False] p(1)
        by (simp add: link_price_level_def lv lv' linked_in_def relink_def Let_def lset_commute [OF iy])
    qed
  next
    case False
    then obtain x xs' where xs: "xs = x # xs'" by (cases xs) auto
    then have "x \<in> set xs" by simp
    then have "better s (lprice ?a x) p" "x \<in> set lv" unfolding xs_def by (blast dest: set_takeWhileD)+
    then have x: "\<not> better s p (lprice ?a x)" "x \<noteq> NULL_IDX" "unat x < llen ?a" "best s b = x"
      using better_asym D(4,7) D(1) lv xs by auto
    have "takeWhile (\<lambda>j. better s (lprice ?a j) p) (xs' @ ys) = xs'"
      using xs unfolding xs_def ys_def
      by (metis append_Cons lv list.inject takeWhile.simps(2) takeWhile_eq_all_conv ys_def xs_def list.distinct(1))
    with find_slot_ok [of ?a "prev_of ?a" NULL_IDX x "xs' @ ys" s p] D(2,4,5) xs lv
    have "find_slot s ?a p x = Some (last_or xs NULL_IDX)" by simp
    have "next_of ?a (last_or xs NULL_IDX) = hd_or ys NULL_IDX"
      using D(2) False by (auto simp: lv links_append intro: links_last)
    have "link_price_level b i s = Some (b\<lparr>ob_level_arena := linked_in ?a xs i ys\<rparr>)"
    proof (cases "ys = []")
      case True
      with x i c [OF False] p(1) False \<open>find_slot s ?a p x = _\<close> \<open>next_of ?a _ = _\<close> show ?thesis
        by (simp add: link_price_level_def linked_in_def relink_def Let_def)
    next
      case ys: False
      then have "i \<noteq> hd_or ys NULL_IDX" using n by auto
      note comm = lset_commute [OF this]
      from ys x i c [OF False] n cn [OF False] p(1) False \<open>find_slot s ?a p x = _\<close> \<open>next_of ?a _ = _\<close> show ?thesis
        by (simp add: link_price_level_def linked_in_def relink_def Let_def comm)
    qed
    then show ?thesis using xs lv' x(4) by (simp add: set_best_same)
  qed
  have "sorted_wrt (\<lambda>i j. better s (lprice ?a i) (lprice ?a j)) (xs @ i # ys)"
    using sorted_insert [OF D(6), of i] p by (simp add: xs_def ys_def)
  from linked_in_chain [OF ch [unfolded lv] i(1) i(2) [unfolded lv] this]
  show ?thesis using run cut_same(1) cut_frame(1) unfolding lv lv' by blast
qed

lemma unlink_price_level_ok:
  assumes ch: "chain_ok s (ob_level_arena b) (best s b) (xs @ i # ys)"
  shows "\<exists>la'. unlink_price_level b i s =
             Some ((set_best s (hd_or (xs @ ys) NULL_IDX) b)\<lparr>ob_level_arena := la'\<rparr>) \<and>
           chain_ok s la' (hd_or (xs @ ys) NULL_IDX) (xs @ ys) \<and> same_levels (ob_level_arena b) la' \<and>
           (\<forall>j. j \<noteq> i \<longrightarrow> j \<notin> set (xs @ ys) \<longrightarrow> lnd la' j = lnd (ob_level_arena b) j)"
proof -
  let ?a = "ob_level_arena b"
  note D = chain_okD [OF ch]
  have ends: "distinct (xs @ i # ys)" "NULL_IDX \<notin> set (xs @ ys)" "\<forall>j\<in>set (xs @ ys). unat j < llen ?a"
    using D(3,4,7) by auto
  note c = cut_ends(1) [OF ends] and n = cut_ends(2) [OF ends]
  have i: "unat i < llen ?a" "next_of ?a i = hd_or ys NULL_IDX" "prev_of ?a i = last_or xs NULL_IDX"
    using D(2,4) by (auto simp: links_append)
  have "unlink_price_level b i s =
      Some ((set_best s (hd_or (xs @ ys) NULL_IDX) b)\<lparr>ob_level_arena := taken_out ?a xs i ys\<rparr>)"
  proof (cases "xs = []")
    case True
    then have "ob_level_arena (set_best s (hd_or ys NULL_IDX) b) = ?a" by (simp add: set_best_def)
    with True i n show ?thesis
      by (cases "ys = []") (simp_all add: unlink_price_level_def taken_out_def relink_def Let_def)
  next
    case False
    then have "best s b = hd_or (xs @ ys) NULL_IDX" using D(1) by (simp add: hd_or_hd)
    with False i c [OF False] n show ?thesis
      by (cases "ys = []") (simp_all add: unlink_price_level_def taken_out_def relink_def Let_def set_best_same)
  qed
  then show ?thesis using taken_out_chain [OF ch] cut_same(2) cut_frame(2) by blast
qed

end
