(* ===== verification/Book_State.thy ===== *)
theory Book_State
  imports Level_Match Ladders
begin

text \<open>
  The invariant of the whole book, \<open>book_state\<close>: arenas, ladders, queues and indices fit together. Matching keeps
  it: one level, the removal of an emptied level, and the sweep over the ladder, which computes \<open>sweep_levels\<close>.
\<close>

section \<open>The invariant of the book\<close>

definition live :: "(bool \<Rightarrow> u32 list) \<Rightarrow> u32 set" where
  "live lv = set (lv False) \<union> set (lv True)"

definition nodes :: "(bool \<Rightarrow> u32 list) \<Rightarrow> (u32 \<Rightarrow> u32 list) \<Rightarrow> u32 set" where
  "nodes lv qs = (\<Union>i\<in>live lv. set (qs i))"

text \<open>The level arena, the two ladders and the price index.\<close>

definition ladders_ok :: "OrderBook \<Rightarrow> (bool \<Rightarrow> u32 list) \<Rightarrow> u32 list \<Rightarrow> bool" where
  "ladders_ok b lv fl \<longleftrightarrow>
     la_free (ob_level_arena b) fl \<and> llen (ob_level_arena b) = MAX_PRICE_LEVELS \<and>
     (\<forall>s. chain_ok s (ob_level_arena b) (best s b) (lv s)) \<and>
     set (lv False) \<inter> set (lv True) = {} \<and> live lv \<inter> set fl = {} \<and>
     price_index_ok (ob_price_index b) \<and>
     (\<forall>p i. price_map (ob_price_index b) p = Some i \<longleftrightarrow> i \<in> live lv \<and> lprice (ob_level_arena b) i = p)"

text \<open>The queues of the levels \<open>I\<close>: intact, apart from each other and from the free nodes.\<close>

definition queues_at ::
  "bool \<Rightarrow> OrderArena \<Rightarrow> PriceLevelArena \<Rightarrow> u32 set \<Rightarrow> (u32 \<Rightarrow> u32 list) \<Rightarrow> u32 list \<Rightarrow> bool" where
  "queues_at tq oa la I qs fo \<longleftrightarrow>
     (\<forall>i\<in>I. queue_ok oa (lnd la i) (qs i) \<and> total_ok tq oa (lnd la i) (qs i) \<and> set (qs i) \<inter> set fo = {}) \<and>
     (\<forall>i\<in>I. \<forall>j\<in>I. i \<noteq> j \<longrightarrow> set (qs i) \<inter> set (qs j) = {})"

text \<open>The order index maps the ids of the nodes \<open>N\<close> to their entries.\<close>

definition indexed :: "OrderArena \<Rightarrow> u32 set \<Rightarrow> (u64 \<rightharpoonup> FastIndexEntry) \<Rightarrow> bool" where
  "indexed oa N m \<longleftrightarrow>
     (\<forall>n\<in>N. on_active (ond oa n)) \<and> inj_on (node_id oa) N \<and>
     (\<forall>oid e. m oid = Some e \<longleftrightarrow> (\<exists>n\<in>N. e = index_entry oa n \<and> node_id oa n = oid))"

text \<open>The order arena, the queues of the levels and the two order indices.\<close>

definition queues_ok :: "bool \<Rightarrow> OrderBook \<Rightarrow> (bool \<Rightarrow> u32 list) \<Rightarrow> (u32 \<Rightarrow> u32 list) \<Rightarrow> u32 list \<Rightarrow> bool" where
  "queues_ok tq b lv qs fo \<longleftrightarrow>
     oa_free (ob_order_arena b) fo \<and> olen (ob_order_arena b) = MAX_ARENA_ORDERS \<and>
     queues_at tq (ob_order_arena b) (ob_level_arena b) (live lv) qs fo \<and>
     indexed (ob_order_arena b) (nodes lv qs) (order_map (ob_order_index b)) \<and>
     order_index_ok (ob_order_index b) \<and> client_index_ok (ob_client_order_index b)"

definition absl :: "OrderBook \<Rightarrow> (u32 \<Rightarrow> u32 list) \<Rightarrow> u32 list \<Rightarrow> alevel list" where
  "absl b qs ls = map (\<lambda>i. (lprice (ob_level_arena b) i, qdata (ob_order_arena b) (qs i))) ls"

lemma queues_okD:
  assumes "queues_ok tq b lv qs fo"
  shows "oa_free (ob_order_arena b) fo" "olen (ob_order_arena b) = MAX_ARENA_ORDERS"
    "i \<in> live lv \<Longrightarrow> queue_ok (ob_order_arena b) (lnd (ob_level_arena b) i) (qs i)"
    "i \<in> live lv \<Longrightarrow> total_ok tq (ob_order_arena b) (lnd (ob_level_arena b) i) (qs i)"
    "i \<in> live lv \<Longrightarrow> set (qs i) \<inter> set fo = {}"
    "i \<in> live lv \<Longrightarrow> j \<in> live lv \<Longrightarrow> i \<noteq> j \<Longrightarrow> set (qs i) \<inter> set (qs j) = {}"
    "n \<in> nodes lv qs \<Longrightarrow> on_active (ond (ob_order_arena b) n)"
    "inj_on (node_id (ob_order_arena b)) (nodes lv qs)"
    "order_index_ok (ob_order_index b)"
    "order_map (ob_order_index b) oid = Some e \<longleftrightarrow>
        (\<exists>n\<in>nodes lv qs. e = index_entry (ob_order_arena b) n \<and> node_id (ob_order_arena b) n = oid)"
    "client_index_ok (ob_client_order_index b)"
    "queues_at tq (ob_order_arena b) (ob_level_arena b) (live lv) qs fo"
    "indexed (ob_order_arena b) (nodes lv qs) (order_map (ob_order_index b))"
  using assms by (simp_all add: queues_ok_def queues_at_def indexed_def)

lemma ladders_okD:
  assumes "ladders_ok b lv fl"
  shows "la_free (ob_level_arena b) fl" "llen (ob_level_arena b) = MAX_PRICE_LEVELS"
    "chain_ok s (ob_level_arena b) (best s b) (lv s)" "set (lv False) \<inter> set (lv True) = {}"
    "live lv \<inter> set fl = {}" "price_index_ok (ob_price_index b)"
    "price_map (ob_price_index b) p = Some i \<longleftrightarrow> i \<in> live lv \<and> lprice (ob_level_arena b) i = p"
  using assms by (simp_all add: ladders_ok_def)

lemma live_side: "i \<in> set (lv s) \<Longrightarrow> i \<in> live lv"
  by (cases s) (auto simp: live_def)

lemma live_range: "ladders_ok b lv fl \<Longrightarrow> i \<in> live lv \<Longrightarrow> unat i < llen (ob_level_arena b)"
  unfolding live_def using chain_okD(4) ladders_okD(3) by blast

lemma nodes_range: "queues_ok tq b lv qs fo \<Longrightarrow> n \<in> nodes lv qs \<Longrightarrow> unat n < olen (ob_order_arena b)"
  unfolding nodes_def using queue_okD(5) queues_okD(3) by blast

lemma la_free_cong:
  assumes "la_free a fs" "llen a' = llen a" "la_free_head a' = la_free_head a"
    "\<And>i. i \<in> set fs \<Longrightarrow> pl_next_free (lnd a' i) = pl_next_free (lnd a i)"
  shows "la_free a' fs"
  using assms free_nodes_cong [of fs "\<lambda>i. pl_next_free (lnd a' i)" "\<lambda>i. pl_next_free (lnd a i)"]
  by (simp add: la_free_def)

section \<open>Changing one queue\<close>

definition same_queue :: "PriceLevelNode \<Rightarrow> PriceLevelNode \<Rightarrow> bool" where
  "same_queue l l' \<longleftrightarrow>
     pl_head_order l' = pl_head_order l \<and> pl_tail_order l' = pl_tail_order l \<and>
     pl_total_qty l' = pl_total_qty l \<and> pl_order_count l' = pl_order_count l"

lemma same_queue_refl [simp]: "same_queue l l"
  by (simp add: same_queue_def)

lemma queue_frame:
  assumes "queue_ok oa l q" "total_ok tq oa l q" "same_queue l l'" "olen oa' = olen oa"
    and "\<And>n. n \<in> set q \<Longrightarrow> ond oa' n = ond oa n"
  shows "queue_ok oa' l' q \<and> total_ok tq oa' l' q"
proof -
  have "queue_ok oa' l' q = queue_ok oa l q" "total_ok tq oa' l' q = total_ok tq oa l q"
    using assms(3-5) by (intro queue_ok_cong total_ok_cong; simp add: same_queue_def)+
  with assms(1,2) show ?thesis by simp
qed

lemma queues_at_update:
  assumes Q: "queues_at tq oa la I qs fo" and len: "olen oa' = olen oa"
    and other: "\<And>j. j \<in> I' \<Longrightarrow> j \<noteq> i \<Longrightarrow> j \<in> I \<and> same_queue (lnd la j) (lnd la' j)"
    and frame: "\<And>j n. j \<in> I \<Longrightarrow> j \<noteq> i \<Longrightarrow> n \<in> set (qs j) \<Longrightarrow> ond oa' n = ond oa n \<and> n \<notin> set q' \<and> n \<notin> set fo'"
    and at: "i \<in> I' \<Longrightarrow> queue_ok oa' (lnd la' i) q' \<and> total_ok tq oa' (lnd la' i) q'" "set q' \<inter> set fo' = {}"
  shows "queues_at tq oa' la' I' (qs(i := q')) fo'"
proof -
  have q: "queue_ok oa (lnd la j) (qs j)" "total_ok tq oa (lnd la j) (qs j)" if "j \<in> I" for j
    using Q that by (simp_all add: queues_at_def)
  have d: "set (qs j) \<inter> set (qs k) = {}" if "j \<in> I" "k \<in> I" "j \<noteq> k" for j k
    using Q that by (simp add: queues_at_def)
  have "queue_ok oa' (lnd la' j) ((qs(i := q')) j) \<and> total_ok tq oa' (lnd la' j) ((qs(i := q')) j) \<and>
      set ((qs(i := q')) j) \<inter> set fo' = {}" if j: "j \<in> I'" for j
  proof (cases "j = i")
    case True
    with at j show ?thesis by simp
  next
    case False
    note o = other [OF j False]
    have "queue_ok oa' (lnd la' j) (qs j) \<and> total_ok tq oa' (lnd la' j) (qs j)"
      by (rule queue_frame [OF q]) (use o len frame False in auto)
    moreover have "set (qs j) \<inter> set fo' = {}" using frame o False by blast
    ultimately show ?thesis using False by simp
  qed
  moreover have "set ((qs(i := q')) j) \<inter> set ((qs(i := q')) k) = {}" if "j \<in> I'" "k \<in> I'" "j \<noteq> k" for j k
  proof -
    have "set (qs k) \<inter> set q' = {}" if "k \<in> I'" "k \<noteq> i" for k using frame other [OF that] that(2) by blast
    with that show ?thesis
      using d [of j k] other [of j] other [of k] by (cases "j = i"; cases "k = i") auto
  qed
  ultimately show ?thesis unfolding queues_at_def by blast
qed

lemma queues_at_frame:
  assumes Q: "queues_at tq oa la I qs fo" and len: "olen oa' = olen oa"
    and same: "\<And>i. i \<in> I \<Longrightarrow> same_queue (lnd la i) (lnd la' i)"
      "\<And>i n. i \<in> I \<Longrightarrow> n \<in> set (qs i) \<Longrightarrow> ond oa' n = ond oa n" "set fo' \<subseteq> set fo"
  shows "queues_at tq oa' la' I qs fo'"
proof -
  have "queue_ok oa' (lnd la' i) (qs i) \<and> total_ok tq oa' (lnd la' i) (qs i)" if "i \<in> I" for i
    using Q that by (intro queue_frame [OF _ _ same(1) [OF that] len same(2)]) (simp_all add: queues_at_def)
  with Q same(3) show ?thesis unfolding queues_at_def by blast
qed

text \<open>Taking orders out of the index, and entering one.\<close>

lemma node_like_same:
  "ond oa' n = ond oa n \<Longrightarrow> node_like oa oa' n" "same_data oa oa' \<Longrightarrow> node_like oa oa' n"
  by (simp_all add: node_like_def same_data_def exI [of _ "ord_qty (on_order (ond oa n))"])

lemma indexed_cong:
  assumes "indexed oa N m" and like: "\<And>n. n \<in> N \<Longrightarrow> node_like oa oa' n"
  shows "indexed oa' N m"
proof -
  have e: "on_active (ond oa' n) = on_active (ond oa n)" "node_id oa' n = node_id oa n"
    "index_entry oa' n = index_entry oa n" if "n \<in> N" for n
    using node_like_entry [OF like [OF that]] by simp_all
  have "inj_on (node_id oa') N = inj_on (node_id oa) N" by (rule inj_on_cong) (rule e)
  moreover have "(\<exists>n\<in>N. x = index_entry oa' n \<and> node_id oa' n = oid) \<longleftrightarrow>
      (\<exists>n\<in>N. x = index_entry oa n \<and> node_id oa n = oid)" for x oid
    using e by metis
  ultimately show ?thesis using assms(1) e(1) by (simp add: indexed_def)
qed

lemma indexed_remove:
  assumes "indexed oa N m" and "R \<subseteq> N"
  shows "indexed oa (N - R) (m |` (- node_id oa ` R))"
proof -
  have inj: "inj_on (node_id oa) N" using assms(1) by (simp add: indexed_def)
  have "n \<in> R" if "n \<in> N" "k \<in> R" "node_id oa n = node_id oa k" for n k
    using inj_onD [OF inj that(3,1)] assms(2) that(2) by auto
  then have "oid \<notin> node_id oa ` R \<and> (\<exists>n\<in>N. e = index_entry oa n \<and> node_id oa n = oid) \<longleftrightarrow>
      (\<exists>n\<in>N - R. e = index_entry oa n \<and> node_id oa n = oid)" for oid e
    by blast
  with assms(1) inj_on_subset [OF inj, of "N - R"] show ?thesis
    by (auto simp: indexed_def restrict_map_def)
qed

lemma indexed_insert:
  assumes "indexed oa N m" and "node_id oa n \<notin> node_id oa ` N" and "on_active (ond oa n)"
  shows "indexed oa (insert n N) (m(node_id oa n \<mapsto> index_entry oa n))"
proof -
  have "(m(node_id oa n \<mapsto> index_entry oa n)) oid = Some e \<longleftrightarrow>
      (\<exists>k\<in>insert n N. e = index_entry oa k \<and> node_id oa k = oid)" for oid e
  proof (cases "oid = node_id oa n")
    case True
    with assms(2) have "\<not> (\<exists>k\<in>N. node_id oa k = oid)" by (metis imageI)
    with True show ?thesis by auto
  next
    case False
    with assms(1) show ?thesis by (auto simp: indexed_def)
  qed
  moreover have "inj_on (node_id oa) (insert n N)"
    using assms(1,2) by (auto simp: indexed_def)
  ultimately show ?thesis using assms(1,3) by (simp add: indexed_def)
qed

section \<open>Changing the contents of a level\<close>

definition same_ladder :: "PriceLevelArena \<Rightarrow> PriceLevelArena \<Rightarrow> bool" where
  "same_ladder la la' \<longleftrightarrow>
     llen la' = llen la \<and> la_free_head la' = la_free_head la \<and>
     (\<forall>j. lprice la' j = lprice la j \<and> pl_prev_level (lnd la' j) = pl_prev_level (lnd la j) \<and>
        pl_next_level (lnd la' j) = pl_next_level (lnd la j) \<and> pl_next_free (lnd la' j) = pl_next_free (lnd la j))"

lemma same_ladder_lset: "level_like (lnd la i) l \<Longrightarrow> same_ladder la (lset la i (\<lambda>_. l))"
  by (simp add: same_ladder_def level_like_def)

lemma ladders_frame:
  assumes L: "ladders_ok b lv fl" and la: "same_ladder (ob_level_arena b) (ob_level_arena b')"
    and b': "\<And>s. best s b' = best s b" "ob_price_index b' = ob_price_index b"
  shows "ladders_ok b' lv fl"
  unfolding ladders_ok_def
proof (intro conjI allI)
  note LD = ladders_okD [OF L]
  show "la_free (ob_level_arena b') fl"
    using LD(1) by (rule la_free_cong) (use la in \<open>simp_all add: same_ladder_def\<close>)
  show "chain_ok s (ob_level_arena b') (best s b') (lv s)" for s
    using LD(3) [of s] la by (subst chain_ok_cong [where a = "ob_level_arena b"]) (simp_all add: same_ladder_def b')
qed (use ladders_okD [OF L] la b' in \<open>simp_all add: same_ladder_def\<close>)

section \<open>Matching a level of the book\<close>

text \<open>The nodes that remain when the first \<open>k\<close> orders of a queue are gone.\<close>

lemma nodes_drop:
  assumes Q: "queues_at tq oa la (live lv) qs fo" and i: "i \<in> live lv"
  shows "nodes lv (qs(i := drop k (qs i))) = nodes lv qs - set (take k (qs i))"
proof -
  have "queue_ok oa (lnd la i) (qs i)" using Q i by (simp add: queues_at_def)
  then have "distinct (take k (qs i) @ drop k (qs i))" using queue_okD(4) by simp
  then have "set (take k (qs i)) \<inter> set (drop k (qs i)) = {}" unfolding distinct_append by blast
  moreover have "set (qs i) = set (take k (qs i)) \<union> set (drop k (qs i))" by (metis append_take_drop_id set_append)
  ultimately have "set (drop k (qs i)) = set (qs i) - set (take k (qs i))" by blast
  moreover have "set (qs j) \<inter> set (take k (qs i)) = {}" if "j \<in> live lv" "j \<noteq> i" for j
    using Q i that set_take_subset [of k "qs i"] by (fastforce simp: queues_at_def)
  ultimately have "set ((qs(i := drop k (qs i))) j) = set (qs j) - set (take k (qs i))" if "j \<in> live lv" for j
    using that by (cases "j = i") (simp_all add: Diff_triv)
  then show ?thesis by (auto simp: nodes_def)
qed

lemma match_level_ok:
  assumes L: "ladders_ok b lv fl" and Q: "queues_ok tq b lv qs fo" and lv: "lv s = i # ls"
    and F: "fill_queue cid (ob_trade_id_counter b) inc (qdata (ob_order_arena b) (qs i)) = (inc', q', ts, rm, stp)"
  shows "\<exists>b' k. match_level b inc cid i trades = Some (b', inc', trades @ ts, stp) \<and>
     (let qs' = qs(i := drop k (qs i)) in
       ladders_ok b' lv fl \<and> queues_ok tq b' lv qs' (rev (take k (qs i)) @ fo) \<and>
       absl b' qs' (lv s) = (lprice (ob_level_arena b) i, q') # absl b qs ls \<and>
       absl b' qs' (lv (\<not> s)) = absl b qs (lv (\<not> s)) \<and>
       length rm = length (take k (qs i)) \<and>
       client_map (ob_client_order_index b') = client_map (ob_client_order_index b) |` (- resting_key ` set rm) \<and>
       ob_trade_id_counter b' = ob_trade_id_counter b + of_nat (length ts) \<and>
       ob_order_id_counter b' = ob_order_id_counter b \<and> ob_symbol b' = ob_symbol b \<and>
       lprice (ob_level_arena b') i = lprice (ob_level_arena b) i \<and> best s b' = i \<and>
       lget (ob_level_arena b') i = Some (lnd (ob_level_arena b') i))"
proof -
  let ?la = "ob_level_arena b" and ?oa = "ob_order_arena b"
  note LD = ladders_okD [OF L] and QD = queues_okD [OF Q]
  have i: "i \<in> live lv" using lv live_side [of i lv s] by simp
  have ri: "unat i < llen ?la" by (rule live_range [OF L i])
  define s0 where "s0 = \<lparr>ms_incoming = inc, ms_level = lnd ?la i, ms_order_arena = ?oa,
      ms_order_index = ob_order_index b, ms_client_order_index = ob_client_order_index b,
      ms_trades = trades, ms_trade_id_counter = ob_trade_id_counter b\<rparr>"
  have "ms_ok tq s0 (qs i) fo"
    using QD(1,9,11) QD(3-5) [OF i] by (simp add: ms_ok_def s0_def)
  then obtain s1 k where run: "match_loop cid s0 = Some (s1, stp)"
    and ok: "ms_ok tq s1 (drop k (qs i)) (rev (take k (qs i)) @ fo)"
    and ext: "ms_ext s0 (qs i) (take k (qs i)) ts s1" and inc': "ms_incoming s1 = inc'"
    and q': "qdata (ms_order_arena s1) (drop k (qs i)) = q'" and rm: "rm = qdata ?oa (take k (qs i))"
    using match_loop_sim [of tq s0 "qs i" fo cid inc' q' ts rm stp] F by (auto simp: s0_def)
  let ?oa' = "ms_order_arena s1" and ?rm = "take k (qs i)" and ?la' = "lset ?la i (\<lambda>_. ms_level s1)"
  define b' where "b' = b\<lparr>ob_level_arena := ?la', ob_order_arena := ?oa', ob_order_index := ms_order_index s1,
      ob_client_order_index := ms_client_order_index s1, ob_trade_id_counter := ms_trade_id_counter s1\<rparr>"
  define qs' where "qs' = qs(i := drop k (qs i))"
  have E: "olen ?oa' = olen ?oa" "j \<notin> set (qs i) \<Longrightarrow> ond ?oa' j = ond ?oa j"
    "j \<notin> set ?rm \<Longrightarrow> node_like ?oa ?oa' j" "level_like (lnd ?la i) (ms_level s1)"
    "order_map (ms_order_index s1) = order_map (ob_order_index b) |` (- node_id ?oa ` set ?rm)"
    "client_map (ms_client_order_index s1) = client_map (ob_client_order_index b) |` (- node_key ?oa ` set ?rm)"
    "ms_trades s1 = trades @ ts" "ms_trade_id_counter s1 = ob_trade_id_counter b + of_nat (length ts)" for j
    using ext by (simp_all add: ms_ext_def s0_def)
  have other: "ond ?oa' n = ond ?oa n" if "n \<in> set (qs j)" "j \<in> live lv" "j \<noteq> i" for n j
    using QD(6) [OF that(2) i that(3)] that(1) E(2) by blast
  have lad: "ladders_ok b' lv fl"
    by (rule ladders_frame [OF L]) (simp_all add: b'_def same_ladder_lset E(4))
  have "queues_at tq ?oa' ?la' (live lv) qs' (rev ?rm @ fo)"
    unfolding qs'_def
  proof (rule queues_at_update [OF QD(12) E(1)])
    show "ond ?oa' n = ond ?oa n \<and> n \<notin> set (drop k (qs i)) \<and> n \<notin> set (rev ?rm @ fo)"
      if "j \<in> live lv" "j \<noteq> i" "n \<in> set (qs j)" for j n
      using other [OF that(3,1,2)] QD(5) [OF that(1)] QD(6) [OF that(1) i that(2)] that(3)
      by (auto dest: in_set_takeD in_set_dropD)
  qed (use ok in \<open>simp_all add: ms_ok_def same_queue_def\<close>)
  moreover have "indexed ?oa' (nodes lv qs') (order_map (ms_order_index s1))"
    unfolding E(5) qs'_def nodes_drop [OF QD(12) i]
  proof (rule indexed_cong [OF indexed_remove [OF QD(13)]])
    show "set ?rm \<subseteq> nodes lv qs" using i by (auto simp: nodes_def dest: in_set_takeD)
  qed (use E(3) in simp)
  ultimately have que: "queues_ok tq b' lv qs' (rev ?rm @ fo)"
    using ok QD(2) E(1) by (simp add: queues_ok_def b'_def ms_ok_def)
  have data: "qdata ?oa' (qs' j) = qdata ?oa (qs j)" if "j \<in> live lv" "j \<noteq> i" for j
    using that other by (auto simp: qs'_def intro!: qdata_cong)
  have "i \<notin> set ls" "set ls \<subseteq> live lv"
    using chain_okD(3) [OF LD(3) [of s]] lv live_side [of _ lv s] by auto
  moreover have "i \<notin> set (lv (\<not> s))" using LD(4) lv by (cases s) auto
  moreover have "set (lv (\<not> s)) \<subseteq> live lv" using live_side by blast
  ultimately have "absl b' qs' (lv s) = (lprice ?la i, q') # absl b qs ls" "absl b' qs' (lv (\<not> s)) = absl b qs (lv (\<not> s))"
    using data q' E(4) by (auto simp: absl_def lv b'_def level_like_def qs'_def)
  moreover have "best s b' = i"
    using chain_okD(1) [OF LD(3) [of s]] lv by (simp add: b'_def)
  moreover have "match_level b inc cid i trades = Some (b', inc', trades @ ts, stp)"
    using run ri unfolding s0_def by (simp add: match_level_def b'_def inc' E(7))
  ultimately show ?thesis
    using lad que ri E(4)
    by (intro exI [of _ b'] exI [of _ k]) (simp add: Let_def qs'_def [symmetric] rm E(6,8) b'_def level_like_def)
qed

section \<open>Dropping an empty level\<close>

lemma la_deallocate_len: "llen (la_deallocate a i) = llen a"
  by (simp add: la_deallocate_def)

lemma set_best_sel [simp]:
  "ob_level_arena (set_best s i b) = ob_level_arena b" "ob_order_arena (set_best s i b) = ob_order_arena b"
  "ob_price_index (set_best s i b) = ob_price_index b" "ob_order_index (set_best s i b) = ob_order_index b"
  "ob_client_order_index (set_best s i b) = ob_client_order_index b" "ob_symbol (set_best s i b) = ob_symbol b"
  "ob_trade_id_counter (set_best s i b) = ob_trade_id_counter b"
  "ob_order_id_counter (set_best s i b) = ob_order_id_counter b"
  "best s' (set_best s i b) = (if s' = s then i else best s' b)"
  by (auto simp: set_best_def best_def)

lemma live_upd: "live (lv(s := ls)) = set ls \<union> set (lv (\<not> s))"
  by (cases s) (auto simp: live_def)

lemma live_side_eq: "live lv = set (lv s) \<union> set (lv (\<not> s))"
  by (cases s) (auto simp: live_def)

lemma ladders_okI:
  assumes "la_free (ob_level_arena b) fl" "llen (ob_level_arena b) = MAX_PRICE_LEVELS"
    and "chain_ok s (ob_level_arena b) (best s b) (lv s)"
    and "chain_ok (\<not> s) (ob_level_arena b) (best (\<not> s) b) (lv (\<not> s))"
    and "set (lv s) \<inter> set (lv (\<not> s)) = {}" "live lv \<inter> set fl = {}"
    and "price_index_ok (ob_price_index b)"
    and "\<And>p i. price_map (ob_price_index b) p = Some i \<longleftrightarrow> i \<in> live lv \<and> lprice (ob_level_arena b) i = p"
  shows "ladders_ok b lv fl"
proof -
  have "chain_ok s' (ob_level_arena b) (best s' b) (lv s')" for s'
    using assms(3,4) by (cases "s' = s") auto
  moreover have "set (lv False) \<inter> set (lv True) = {}"
    using assms(5) by (cases s) auto
  ultimately show ?thesis using assms by (simp add: ladders_ok_def)
qed

lemma ladders_disjoint: "ladders_ok b lv fl \<Longrightarrow> set (lv s) \<inter> set (lv (\<not> s)) = {}"
  using ladders_okD(4) by (cases s) auto

lemma chain_ok_same_levels:
  assumes "chain_ok s a h lv" "llen a' = llen a" "\<And>j. j \<in> set lv \<Longrightarrow> lnd a' j = lnd a j"
  shows "chain_ok s a' h lv"
  using assms(1) by (subst chain_ok_cong [of lv a' a]) (simp_all add: assms(2,3))

text \<open>Changing the set of live levels while the queues stay, up to empty ones.\<close>

lemma queues_ok_reshape:
  assumes Q: "queues_ok tq b lv qs fo"
    and new: "\<And>i. i \<in> live lv' \<Longrightarrow>
        i \<in> live lv \<and> qs' i = qs i \<and> same_queue (lnd (ob_level_arena b) i) (lnd (ob_level_arena b') i) \<or>
        qs' i = [] \<and> pl_head_order (lnd (ob_level_arena b') i) = NULL_IDX \<and>
          pl_tail_order (lnd (ob_level_arena b') i) = NULL_IDX \<and>
          pl_order_count (lnd (ob_level_arena b') i) = 0 \<and> pl_total_qty (lnd (ob_level_arena b') i) = 0"
    and old: "\<And>i. i \<in> live lv \<Longrightarrow> qs i \<noteq> [] \<Longrightarrow> i \<in> live lv' \<and> qs' i = qs i"
    and b': "ob_order_arena b' = ob_order_arena b" "ob_order_index b' = ob_order_index b"
        "ob_client_order_index b' = ob_client_order_index b"
  shows "queues_ok tq b' lv' qs' fo" "nodes lv' qs' = nodes lv qs"
proof -
  note QD = queues_okD [OF Q]
  have sub: "set (qs' i) = {} \<or> i \<in> live lv \<and> qs' i = qs i" if "i \<in> live lv'" for i
    using new [OF that] by auto
  show nodes: "nodes lv' qs' = nodes lv qs"
  proof (intro equalityI subsetI)
    fix n assume "n \<in> nodes lv' qs'"
    with sub show "n \<in> nodes lv qs" unfolding nodes_def by force
  next
    fix n assume "n \<in> nodes lv qs"
    then obtain i where "i \<in> live lv" "n \<in> set (qs i)" "qs i \<noteq> []" by (force simp: nodes_def)
    with old [of i] have "i \<in> live lv'" "n \<in> set (qs' i)" by auto
    then show "n \<in> nodes lv' qs'" by (auto simp: nodes_def)
  qed
  have len: "olen (ob_order_arena b) \<le> 4294967295" using QD(2) by (simp add: MAX_ARENA_ORDERS_def)
  have "queue_ok (ob_order_arena b) (lnd (ob_level_arena b') i) (qs' i) \<and>
      total_ok tq (ob_order_arena b) (lnd (ob_level_arena b') i) (qs' i)" if i: "i \<in> live lv'" for i
    using new [OF i]
  proof
    assume *: "i \<in> live lv \<and> qs' i = qs i \<and> same_queue (lnd (ob_level_arena b) i) (lnd (ob_level_arena b') i)"
    show ?thesis
      using queue_frame [OF QD(3) QD(4), of i "lnd (ob_level_arena b') i" "ob_order_arena b"] * by simp
  qed (use len in \<open>simp add: queue_ok_Nil total_ok_def\<close>)
  moreover have "set (qs' i) \<inter> set fo = {}" if "i \<in> live lv'" for i
    using sub [OF that] QD(5) [of i] by auto
  moreover have "set (qs' i) \<inter> set (qs' j) = {}" if "i \<in> live lv'" "j \<in> live lv'" "i \<noteq> j" for i j
    using sub [OF that(1)] sub [OF that(2)] QD(6) [of i j] that(3) by auto
  ultimately have "queues_at tq (ob_order_arena b) (ob_level_arena b') (live lv') qs' fo"
    by (simp add: queues_at_def)
  with Q nodes show "queues_ok tq b' lv' qs' fo"
    by (simp add: queues_ok_def b')
qed

text \<open>The price index when a level goes and when one comes.\<close>

lemma prices_drop:
  assumes "\<And>p j. m p = Some j \<longleftrightarrow> j \<in> I \<and> price j = p" and "i \<in> I" and "\<And>j. j \<noteq> i \<Longrightarrow> price' j = price j"
  shows "(m(price i := None)) p = Some j \<longleftrightarrow> j \<in> I - {i} \<and> price' j = p"
proof (cases "p = price i")
  case True
  have "j = i" if "j \<in> I" "price j = price i" for j
    using assms(1) [of "price i" i] assms(1) [of "price i" j] assms(2) that by simp
  with True assms(3) show ?thesis by auto
next
  case False
  with assms show ?thesis by (cases "j = i") auto
qed

lemma prices_add:
  assumes "\<And>p j. m p = Some j \<longleftrightarrow> j \<in> I \<and> price j = p" and "i \<notin> I" and "m q = None" and "price' i = q"
    and "\<And>j. j \<noteq> i \<Longrightarrow> price' j = price j"
  shows "(m(q \<mapsto> i)) p = Some j \<longleftrightarrow> j \<in> insert i I \<and> price' j = p"
  using assms(1) [of p j] assms(1) [of q j] assms(2-5) by (cases "j = i"; cases "p = q") auto

lemma drop_level_ladders:
  assumes L: "ladders_ok b lv fl" and lv: "lv s = xs @ i # ys" and p: "lprice (ob_level_arena b) i = p"
  shows "\<exists>b'. drop_level b i p s = Some b' \<and> ladders_ok b' (lv(s := xs @ ys)) (i # fl) \<and>
     live (lv(s := xs @ ys)) = live lv - {i} \<and>
     (\<forall>j. j \<noteq> i \<longrightarrow> lprice (ob_level_arena b') j = lprice (ob_level_arena b) j \<and>
        same_queue (lnd (ob_level_arena b) j) (lnd (ob_level_arena b') j)) \<and>
     ob_order_arena b' = ob_order_arena b \<and> ob_order_index b' = ob_order_index b \<and>
     ob_client_order_index b' = ob_client_order_index b \<and>
     ob_trade_id_counter b' = ob_trade_id_counter b \<and> ob_order_id_counter b' = ob_order_id_counter b \<and>
     ob_symbol b' = ob_symbol b"
proof -
  let ?la = "ob_level_arena b" and ?lv = "lv(s := xs @ ys)"
  note LD = ladders_okD [OF L]
  have ch: "chain_ok s ?la (best s b) (xs @ i # ys)" using LD(3) [of s] lv by simp
  have i: "i \<in> live lv" "i \<notin> set fl" "i \<notin> set (lv (\<not> s))" "i \<notin> set (xs @ ys)"
    using lv LD(5) ladders_disjoint [OF L, of s] live_side [of i lv s] chain_okD(3) [OF ch] by auto
  obtain la' where un: "unlink_price_level b i s =
        Some ((set_best s (hd_or (xs @ ys) NULL_IDX) b)\<lparr>ob_level_arena := la'\<rparr>)"
    and ch': "chain_ok s la' (hd_or (xs @ ys) NULL_IDX) (xs @ ys)" and same: "same_levels ?la la'"
    and fr: "\<forall>j. j \<noteq> i \<longrightarrow> j \<notin> set (xs @ ys) \<longrightarrow> lnd la' j = lnd ?la j"
    using unlink_price_level_ok [OF ch] by blast
  obtain px where px: "fpi_remove (ob_price_index b) p = Some (px, price_map (ob_price_index b) p)"
    "price_index_ok px" "price_map px = (price_map (ob_price_index b))(p := None)"
    using fpi_remove_ok [OF LD(6)] by blast
  have "la_free la' fl" using same by (intro la_free_cong [OF LD(1)]) (simp_all add: same_levels_def)
  moreover have "unat i < llen la'" using live_range [OF L i(1)] same by (simp add: same_levels_def)
  ultimately obtain la2 where la2: "la_deallocate la' i = la2" "la_free la2 (i # fl)"
    "\<And>j. j \<noteq> i \<Longrightarrow> lnd la2 j = lnd la' j" "llen la2 = llen la'"
  proof -
    assume *: "la_free la' fl" "unat i < llen la'"
    show ?thesis
      by (rule that [of "la_deallocate la' i"])
        (use la_deallocate_ok [OF * i(2)] in \<open>simp_all add: la_deallocate_len\<close>)
  qed
  define b' where "b' = (set_best s (hd_or (xs @ ys) NULL_IDX) b)\<lparr>ob_price_index := px, ob_level_arena := la2\<rparr>"
  have run: "drop_level b i p s = Some b'"
    by (simp add: drop_level_def un px(1) la2(1) b'_def)
  have sub: "live ?lv = live lv - {i}"
    using i(3,4) lv by (auto simp: live_upd live_side_eq [of lv s])
  have keep: "pl_price (lnd la2 j) = pl_price (lnd ?la j) \<and> pl_head_order (lnd la2 j) = pl_head_order (lnd ?la j) \<and>
      pl_tail_order (lnd la2 j) = pl_tail_order (lnd ?la j) \<and> pl_total_qty (lnd la2 j) = pl_total_qty (lnd ?la j) \<and>
      pl_order_count (lnd la2 j) = pl_order_count (lnd ?la j)" if "j \<noteq> i" for j
    using that la2(3) same by (simp add: same_levels_def)
  have "ladders_ok b' ?lv (i # fl)"
  proof (rule ladders_okI [where s = s])
    show "la_free (ob_level_arena b') (i # fl)" "llen (ob_level_arena b') = MAX_PRICE_LEVELS"
      using la2 LD(2) same by (simp_all add: b'_def same_levels_def)
    show "chain_ok s (ob_level_arena b') (best s b') (?lv s)"
      unfolding b'_def using chain_ok_same_levels [OF ch' la2(4)] la2(3) i(4) by (simp, metis)
    show "chain_ok (\<not> s) (ob_level_arena b') (best (\<not> s) b') (?lv (\<not> s))"
    proof -
      have "lnd la2 j = lnd ?la j" if "j \<in> set (lv (\<not> s))" for j
      proof -
        have "j \<notin> set (xs @ ys)" using that ladders_disjoint [OF L, of s] lv by auto
        moreover have "j \<noteq> i" using that i(3) by blast
        ultimately show ?thesis using fr la2(3) by simp
      qed
      then show ?thesis
        using LD(3) [of "\<not> s"] same la2(4)
        by (auto simp: b'_def same_levels_def intro: chain_ok_same_levels)
    qed
    show "set (?lv s) \<inter> set (?lv (\<not> s)) = {}" using ladders_disjoint [OF L, of s] lv by auto
    show "live ?lv \<inter> set (i # fl) = {}" using LD(5) sub by auto
    show "price_index_ok (ob_price_index b')" using px(2) by (simp add: b'_def)
    show "price_map (ob_price_index b') p' = Some j \<longleftrightarrow> j \<in> live ?lv \<and> lprice (ob_level_arena b') j = p'" for p' j
      using prices_drop [where m = "price_map (ob_price_index b)" and price = "lprice ?la" and price' = "lprice la2",
          OF LD(7) i(1)] keep
      by (simp add: b'_def px(3) sub p)
  qed
  then show ?thesis using run keep sub by (auto simp: b'_def same_queue_def)
qed

lemma drop_level_ok:
  assumes L: "ladders_ok b lv fl" and Q: "queues_ok tq b lv qs fo" and lv: "lv s = xs @ i # ys"
    and q: "qs i = []" and p: "lprice (ob_level_arena b) i = p"
  shows "\<exists>b'. drop_level b i p s = Some b' \<and>
     ladders_ok b' (lv(s := xs @ ys)) (i # fl) \<and> queues_ok tq b' (lv(s := xs @ ys)) qs fo \<and>
     absl b' qs (xs @ ys) = absl b qs (xs @ ys) \<and> absl b' qs (lv (\<not> s)) = absl b qs (lv (\<not> s)) \<and>
     ob_order_arena b' = ob_order_arena b \<and> ob_order_index b' = ob_order_index b \<and>
     ob_client_order_index b' = ob_client_order_index b \<and>
     ob_trade_id_counter b' = ob_trade_id_counter b \<and> ob_order_id_counter b' = ob_order_id_counter b \<and>
     ob_symbol b' = ob_symbol b"
proof -
  let ?lv = "lv(s := xs @ ys)"
  obtain b' where b': "drop_level b i p s = Some b'" "ladders_ok b' ?lv (i # fl)" "live ?lv = live lv - {i}"
    "\<And>j. j \<noteq> i \<Longrightarrow> lprice (ob_level_arena b') j = lprice (ob_level_arena b) j \<and>
        same_queue (lnd (ob_level_arena b) j) (lnd (ob_level_arena b') j)"
    "ob_order_arena b' = ob_order_arena b" "ob_order_index b' = ob_order_index b"
    "ob_client_order_index b' = ob_client_order_index b" "ob_trade_id_counter b' = ob_trade_id_counter b"
    "ob_order_id_counter b' = ob_order_id_counter b" "ob_symbol b' = ob_symbol b"
    using drop_level_ladders [of b lv fl s xs i ys p, OF L lv p] by blast
  have "i \<notin> set (xs @ ys)" "i \<notin> set (lv (\<not> s))"
    using chain_okD(3) [OF ladders_okD(3) [OF L], of s] ladders_disjoint [OF L, of s] lv by auto
  moreover have "absl b' qs ls = absl b qs ls" if "i \<notin> set ls" for ls
  proof -
    have "lprice (ob_level_arena b') j = lprice (ob_level_arena b) j" if "j \<in> set ls" for j
      using b'(4) [of j] that \<open>i \<notin> set ls\<close> by blast
    then show ?thesis by (simp add: absl_def b'(5))
  qed
  moreover have "queues_ok tq b' ?lv qs fo"
    using b'(4) q by (intro queues_ok_reshape(1) [OF Q]) (auto simp: b'(3,5-7))
  ultimately show ?thesis using b' by simp
qed

section \<open>The sweep\<close>

text \<open>The state relation while an order is being matched; every live level has an order.\<close>

definition book_state ::
  "bool \<Rightarrow> OrderBook \<Rightarrow> (bool \<Rightarrow> u32 list) \<Rightarrow> (u32 \<Rightarrow> u32 list) \<Rightarrow> u32 list \<Rightarrow> u32 list \<Rightarrow> bool" where
  "book_state tq b lv qs fo fl \<longleftrightarrow>
     ladders_ok b lv fl \<and> queues_ok tq b lv qs fo \<and> (\<forall>i\<in>live lv. qs i \<noteq> [])"

text \<open>
  What a stretch of matching does to the state: the opposite ladder is then \<open>ls'\<close>, the trades \<open>ts\<close> were made and
  the orders \<open>rm\<close> are gone.
\<close>

definition swept :: "bool \<Rightarrow> bool \<Rightarrow> OrderBook \<Rightarrow> (bool \<Rightarrow> u32 list) \<Rightarrow> (u32 \<Rightarrow> u32 list) \<Rightarrow> u32 list \<Rightarrow> u32 list \<Rightarrow>
    alevel list \<Rightarrow> Trade list \<Rightarrow> resting list \<Rightarrow>
    OrderBook \<Rightarrow> (bool \<Rightarrow> u32 list) \<Rightarrow> (u32 \<Rightarrow> u32 list) \<Rightarrow> u32 list \<Rightarrow> u32 list \<Rightarrow> bool" where
  "swept tq s b lv qs fo fl ls' ts rm b' lv' qs' fo' fl' \<longleftrightarrow>
     book_state tq b' lv' qs' fo' fl' \<and>
     absl b' qs' (lv' (\<not> s)) = ls' \<and> absl b' qs' (lv' s) = absl b qs (lv s) \<and>
     length fo' = length fo + length rm \<and> length fl' + length ls' = length fl + length (lv (\<not> s)) \<and>
     client_map (ob_client_order_index b') = client_map (ob_client_order_index b) |` (- resting_key ` set rm) \<and>
     ob_trade_id_counter b' = ob_trade_id_counter b + of_nat (length ts) \<and>
     ob_order_id_counter b' = ob_order_id_counter b \<and> ob_symbol b' = ob_symbol b"

lemma swept_refl:
  "book_state tq b lv qs fo fl \<Longrightarrow> swept tq s b lv qs fo fl (absl b qs (lv (\<not> s))) [] [] b lv qs fo fl"
  by (simp add: swept_def absl_def)

lemma swept_trans:
  assumes "swept tq s b lv qs fo fl ls1 ts1 rm1 b1 lv1 qs1 fo1 fl1"
    and "swept tq s b1 lv1 qs1 fo1 fl1 ls2 ts2 rm2 b2 lv2 qs2 fo2 fl2"
  shows "swept tq s b lv qs fo fl ls2 (ts1 @ ts2) (rm1 @ rm2) b2 lv2 qs2 fo2 fl2"
proof -
  have "length ls1 = length (lv1 (\<not> s))" using assms(1) by (auto simp: swept_def absl_def)
  with assms show ?thesis by (simp add: swept_def image_Un Int_commute)
qed

text \<open>One level: the best one is matched, and dropped if that emptied it.\<close>

lemma swept_level:
  assumes S: "book_state tq b lv qs fo fl" and lv: "lv (\<not> s) = i # ls"
    and F: "fill_queue cid (ob_trade_id_counter b) inc (qdata (ob_order_arena b) (qs i)) = (inc1, q1, ts1, rm1, stp1)"
  defines "p \<equiv> lprice (ob_level_arena b) i"
  shows "\<exists>b1 b2 lv' qs' fo' fl'. match_level b inc cid i trades = Some (b1, inc1, trades @ ts1, stp1) \<and>
     best (\<not> s) b1 = i \<and> lget (ob_level_arena b1) i = Some (lnd (ob_level_arena b1) i) \<and>
     lprice (ob_level_arena b1) i = p \<and> pl_is_empty (lnd (ob_level_arena b1) i) = (q1 = []) \<and>
     (if q1 = [] then drop_level b1 i p (\<not> s) else Some b1) = Some b2 \<and>
     lv' (\<not> s) = (if q1 = [] then ls else i # ls) \<and>
     swept tq s b lv qs fo fl ((if q1 = [] then [] else [(p, q1)]) @ absl b qs ls) ts1 rm1 b2 lv' qs' fo' fl'"
proof -
  have L: "ladders_ok b lv fl" and Q: "queues_ok tq b lv qs fo" and ne: "\<forall>i\<in>live lv. qs i \<noteq> []"
    using S by (simp_all add: book_state_def)
  have i: "i \<in> live lv" using lv live_side [of i lv "\<not> s"] by simp
  from match_level_ok [OF L Q lv F, of trades] obtain b1 k where
    m: "match_level b inc cid i trades = Some (b1, inc1, trades @ ts1, stp1)"
    and m': "let qs' = qs(i := drop k (qs i)) in
       ladders_ok b1 lv fl \<and> queues_ok tq b1 lv qs' (rev (take k (qs i)) @ fo) \<and>
       absl b1 qs' (lv (\<not> s)) = (p, q1) # absl b qs ls \<and>
       absl b1 qs' (lv (\<not> \<not> s)) = absl b qs (lv (\<not> \<not> s)) \<and>
       length rm1 = length (take k (qs i)) \<and>
       client_map (ob_client_order_index b1) = client_map (ob_client_order_index b) |` (- resting_key ` set rm1) \<and>
       ob_trade_id_counter b1 = ob_trade_id_counter b + of_nat (length ts1) \<and>
       ob_order_id_counter b1 = ob_order_id_counter b \<and> ob_symbol b1 = ob_symbol b \<and>
       lprice (ob_level_arena b1) i = p \<and> best (\<not> s) b1 = i \<and>
       lget (ob_level_arena b1) i = Some (lnd (ob_level_arena b1) i)"
    unfolding p_def by blast
  define qs1 where "qs1 = qs(i := drop k (qs i))"
  define fo1 where "fo1 = rev (take k (qs i)) @ fo"
  note m1 = m' [unfolded Let_def, folded qs1_def fo1_def, simplified]
  have q1: "q1 = qdata (ob_order_arena b1) (qs1 i)" and ls: "absl b1 qs1 ls = absl b qs ls"
    using m1 by (simp_all add: absl_def lv)
  have empty: "pl_is_empty (lnd (ob_level_arena b1) i) = (q1 = [])"
    using is_empty_iff [OF queues_okD(3) [OF m1 [THEN conjunct2, THEN conjunct1] i]] q1 by simp
  have fo1: "length fo1 = length fo + length rm1" using m1 by (simp add: fo1_def)
  show ?thesis
  proof (cases "q1 = []")
    case False
    then have "book_state tq b1 lv qs1 fo1 fl" using m1 ne q1 by (auto simp: book_state_def qs1_def)
    with False m m1 lv fo1 empty show ?thesis
      by (intro exI [of _ b1] exI [of _ lv] exI [of _ qs1] exI [of _ fo1] exI [of _ fl]) (simp add: swept_def absl_def)
  next
    case True
    let ?lv = "lv(\<not> s := ls)"
    have "qs1 i = []" using True q1 by simp
    from drop_level_ok [of b1 lv fl tq qs1 fo1 "\<not> s" "[]" i ls p, OF _ _ _ this] m1 lv
    obtain b2 where d: "drop_level b1 i p (\<not> s) = Some b2" "ladders_ok b2 ?lv (i # fl)" "queues_ok tq b2 ?lv qs1 fo1"
      "absl b2 qs1 ls = absl b1 qs1 ls" "absl b2 qs1 (lv s) = absl b1 qs1 (lv s)"
      "ob_client_order_index b2 = ob_client_order_index b1"
      "ob_trade_id_counter b2 = ob_trade_id_counter b1" "ob_order_id_counter b2 = ob_order_id_counter b1"
      "ob_symbol b2 = ob_symbol b1"
      by auto
    have "i \<notin> live ?lv"
      using chain_okD(3) [OF ladders_okD(3) [OF L], of "\<not> s"] lv ladders_disjoint [OF L, of s] by (auto simp: live_upd)
    moreover have "live ?lv \<subseteq> live lv" using lv by (auto simp: live_upd live_side_eq [of lv s])
    ultimately have "book_state tq b2 ?lv qs1 fo1 (i # fl)"
      using d(2,3) ne by (auto simp: book_state_def qs1_def)
    with True m m1 d lv fo1 empty ls show ?thesis
      by (intro exI [of _ b1] exI [of _ b2] exI [of _ ?lv] exI [of _ qs1] exI [of _ fo1] exI [of _ "i # fl"])
        (simp add: swept_def absl_def)
  qed
qed

lemma sweep_swept:
  assumes "book_state tq b lv qs fo fl"
    and "sweep_levels s ot cid (ob_trade_id_counter b) inc (absl b qs (lv (\<not> s))) = (inc', ls', ts, rm, stp)"
  shows "\<exists>b' lv' qs' fo' fl'. sweep s ot cid b inc trades = Some (b', inc', trades @ ts, stp) \<and>
     swept tq s b lv qs fo fl ls' ts rm b' lv' qs' fo' fl'"
  using assms
proof (induction "lv (\<not> s)" arbitrary: b lv qs fo fl inc trades ts rm)
  case Nil
  then have "best (\<not> s) b = NULL_IDX"
    using chain_okD(1) [OF ladders_okD(3), of b lv fl "\<not> s"] by (simp add: book_state_def)
  with Nil.prems Nil.hyps swept_refl [OF Nil.prems(1), of s] show ?case
    by (subst sweep.simps) (force simp: absl_def Nil.hyps [symmetric])
next
  case (Cons i ls)
  note lv = Cons.hyps(2) [symmetric]
  let ?q = "qdata (ob_order_arena b) (qs i)" and ?p = "lprice (ob_level_arena b) i"
  have L: "ladders_ok b lv fl" using Cons.prems(1) by (simp add: book_state_def)
  have bi: "best (\<not> s) b = i" "i \<noteq> NULL_IDX" "unat i < llen (ob_level_arena b)"
    using chain_okD(1,7) [OF ladders_okD(3) [OF L], of "\<not> s"] live_range [OF L live_side [of i lv "\<not> s"]] lv by auto
  have abs: "absl b qs (lv (\<not> s)) = (?p, ?q) # absl b qs ls" by (simp add: absl_def lv)
  show ?case
  proof (cases "ord_qty inc = 0 \<or> beyond_limit s ot inc ?p")
    case True
    then have "sweep s ot cid b inc trades = Some (b, inc, trades, False)"
      using bi by (subst sweep.simps) (auto simp: Let_def word_gt_0)
    with True Cons.prems swept_refl [OF Cons.prems(1), of s] show ?thesis
      unfolding abs by auto
  next
    case False
    obtain inc1 q1 ts1 rm1 stp1 where F: "fill_queue cid (ob_trade_id_counter b) inc ?q = (inc1, q1, ts1, rm1, stp1)"
      by (metis prod_cases5)
    from swept_level [OF Cons.prems(1) lv F, of trades] obtain b1 b2 lv2 qs2 fo2 fl2 where
      m: "match_level b inc cid i trades = Some (b1, inc1, trades @ ts1, stp1)"
        "best (\<not> s) b1 = i" "lget (ob_level_arena b1) i = Some (lnd (ob_level_arena b1) i)"
        "lprice (ob_level_arena b1) i = ?p" "pl_is_empty (lnd (ob_level_arena b1) i) = (q1 = [])"
        "(if q1 = [] then drop_level b1 i ?p (\<not> s) else Some b1) = Some b2"
        "lv2 (\<not> s) = (if q1 = [] then ls else i # ls)"
      and sw: "swept tq s b lv qs fo fl ((if q1 = [] then [] else [(?p, q1)]) @ absl b qs ls) ts1 rm1 b2 lv2 qs2 fo2 fl2"
      by blast
    have unroll: "sweep s ot cid b inc trades =
       (if stp1 then Some (b2, inc1, trades @ ts1, True) else sweep s ot cid b2 inc1 (trades @ ts1))"
      using bi m False by (subst sweep.simps) (simp add: Let_def word_gt_0)
    show ?thesis
    proof (cases "q1 = []")
      case True
      have "stp1 = False" using fill_queue_stop [OF F] True by (simp split: if_splits)
      have c: "ob_trade_id_counter b2 = ob_trade_id_counter b + of_nat (length ts1)" "absl b2 qs2 (lv2 (\<not> s)) = absl b qs ls"
        "book_state tq b2 lv2 qs2 fo2 fl2" and lv2: "lv2 (\<not> s) = ls"
        using sw True m(7) by (simp_all add: swept_def)
      obtain ts2 rm2 where ts: "ts = ts1 @ ts2" "rm = rm1 @ rm2"
        "sweep_levels s ot cid (ob_trade_id_counter b2) inc1 (absl b2 qs2 (lv2 (\<not> s))) = (inc', ls', ts2, rm2, stp)"
        using Cons.prems(2) False F True c unfolding abs by (auto split: prod.splits)
      from Cons.hyps(1) [OF lv2 [symmetric] c(3) ts(3), of "trades @ ts1"] obtain b3 lv3 qs3 fo3 fl3 where
        "sweep s ot cid b2 inc1 (trades @ ts1) = Some (b3, inc', (trades @ ts1) @ ts2, stp)"
        and r: "swept tq s b2 lv2 qs2 fo2 fl2 ls' ts2 rm2 b3 lv3 qs3 fo3 fl3"
        by blast
      with swept_trans [OF sw r] \<open>stp1 = False\<close> unroll show ?thesis
        unfolding ts(1,2)
        by (intro exI [of _ b3] exI [of _ lv3] exI [of _ qs3] exI [of _ fo3] exI [of _ fl3]) simp
    next
      case False': False
      have eq: "inc' = inc1" "ls' = (?p, q1) # absl b qs ls" "ts = ts1" "rm = rm1" "stp = stp1"
        using Cons.prems(2) False F False' unfolding abs by auto
      have "sweep s ot cid b2 inc1 (trades @ ts1) = Some (b2, inc1, trades @ ts1, False)" if "\<not> stp1"
        using fill_queue_stop [OF F] that False' by (subst sweep.simps) simp
      with unroll eq sw False' show ?thesis by (cases stp1) auto
    qed
  qed
qed

lemma sweep_ok:
  assumes "book_state tq b lv qs fo fl"
    and "sweep_levels s ot cid (ob_trade_id_counter b) inc (absl b qs (lv (\<not> s))) = (inc', ls', ts, rm, stp)"
  shows "\<exists>b' lv' qs' fo' fl'. sweep s ot cid b inc trades = Some (b', inc', trades @ ts, stp) \<and>
     book_state tq b' lv' qs' fo' fl' \<and>
     absl b' qs' (lv' (\<not> s)) = ls' \<and> absl b' qs' (lv' s) = absl b qs (lv s) \<and>
     length fo' = length fo + length rm \<and> length fl' + length ls' = length fl + length (lv (\<not> s)) \<and>
     client_map (ob_client_order_index b') = client_map (ob_client_order_index b) |` (- resting_key ` set rm) \<and>
     ob_trade_id_counter b' = ob_trade_id_counter b + of_nat (length ts) \<and>
     ob_order_id_counter b' = ob_order_id_counter b \<and> ob_symbol b' = ob_symbol b"
  using sweep_swept [OF assms] by (simp add: swept_def)

end
