(* ===== verification/Book_Rest.thy ===== *)
theory Book_Rest
  imports Book_State
begin

text \<open>
  Resting an order: the allocation of its node, the opening of a level, the entry in queue and indices, none of
  which can run out of slots; and the refinement relation \<open>book_rel\<close> with \<open>rest_order\<close> against \<open>arest\<close>.
\<close>

section \<open>Resting an order\<close>

text \<open>Taking a node from the order arena.\<close>

lemma alloc_node_ok:
  assumes Q: "queues_ok tq b lv qs (n # fo)"
  shows "\<exists>oa'. oa_allocate (ob_order_arena b) order cid = Some (oa', Inr n) \<and>
     queues_ok tq (b\<lparr>ob_order_arena := oa'\<rparr>) lv qs fo \<and> n \<notin> nodes lv qs \<and> n \<notin> set fo \<and>
     unat n < MAX_ARENA_ORDERS \<and> on_order (ond oa' n) = order \<and> on_client_id (ond oa' n) = cid \<and>
     on_active (ond oa' n) \<and> (\<forall>j. j \<noteq> n \<longrightarrow> ond oa' j = ond (ob_order_arena b) j)"
proof -
  let ?oa = "ob_order_arena b"
  note QD = queues_okD [OF Q]
  define oa' where "oa' = ?oa\<lparr>oa_free_head := on_next (ond ?oa n),
      oa_nodes := vupd (oa_nodes ?oa) (unat n)
        (\<lambda>_. \<lparr>on_order = order, on_prev = NULL_IDX, on_next = NULL_IDX, on_client_id = cid, on_active = True\<rparr>),
      oa_active_count := oa_active_count ?oa + 1\<rparr>"
  have al: "oa_allocate ?oa order cid = Some (oa', Inr n)" "oa_free oa' fo"
    unfolding oa'_def by (rule oa_allocate_ok [OF QD(1)])+
  have n: "unat n < MAX_ARENA_ORDERS" "n \<notin> set fo"
    using QD(1,2) by (auto simp: oa_free_def free_nodes_Cons)
  have nn: "n \<notin> nodes lv qs" using QD(5) by (auto simp: nodes_def)
  have ond: "ond oa' j = ond ?oa j" if "j \<noteq> n" for j using that by (simp add: oa'_def ond_def)
  have on: "ond oa' m = ond ?oa m" if "m \<in> nodes lv qs" for m using that nn ond by metis
  have "queues_at tq oa' (ob_level_arena b) (live lv) qs fo"
  proof (rule queues_at_frame [OF QD(12)])
    show "ond oa' m = ond ?oa m" if "j \<in> live lv" "m \<in> set (qs j)" for j m
      using that by (intro on) (auto simp: nodes_def)
  qed (use QD(1) in \<open>auto simp: oa'_def\<close>)
  moreover have "indexed oa' (nodes lv qs) (order_map (ob_order_index b))"
    by (rule indexed_cong [OF QD(13)]) (rule node_like_same(1) [OF on])
  ultimately have "queues_ok tq (b\<lparr>ob_order_arena := oa'\<rparr>) lv qs fo"
    using QD(2,9,11) al(2) by (simp add: queues_ok_def) (simp add: oa'_def)
  with al(1) n nn ond show ?thesis by (auto simp: oa'_def ond_def)
qed

lemma price_index_room:
  assumes "ladders_ok b lv fl"
  shows "tb_count (ob_price_index b) < 6553"
proof -
  note LD = ladders_okD [OF assms]
  have "dom (price_map (ob_price_index b)) \<subseteq> lprice (ob_level_arena b) ` live lv"
    using LD(7) by (auto simp: dom_def)
  then have "card (dom (price_map (ob_price_index b))) \<le> card (live lv)"
    by (rule surj_card_le [rotated]) (simp add: live_def)
  also have "card (live lv) = card (unat ` live lv)"
    by (rule card_image [symmetric]) (simp add: inj_on_def)
  also have "\<dots> \<le> card {..<MAX_PRICE_LEVELS}"
    using live_range [OF assms] LD(2) by (intro card_mono) auto
  finally show ?thesis using count_price_index [OF LD(6)] by (simp add: MAX_PRICE_LEVELS_def)
qed

lemma order_index_room:
  assumes "queues_ok tq b lv qs fo"
  shows "tb_count (ob_order_index b) < 209715" "card (nodes lv qs) \<le> MAX_ARENA_ORDERS" "finite (nodes lv qs)"
proof -
  note QD = queues_okD [OF assms]
  show fin: "finite (nodes lv qs)" by (simp add: nodes_def live_def)
  have "card (nodes lv qs) = card (unat ` nodes lv qs)"
    by (rule card_image [symmetric]) (simp add: inj_on_def)
  also have "\<dots> \<le> card {..<MAX_ARENA_ORDERS}"
    using nodes_range [OF assms] QD(2) by (intro card_mono) auto
  finally show le: "card (nodes lv qs) \<le> MAX_ARENA_ORDERS" by simp
  have "dom (order_map (ob_order_index b)) \<subseteq> node_id (ob_order_arena b) ` nodes lv qs"
    using QD(10) by (auto simp: dom_def)
  then have "card (dom (order_map (ob_order_index b))) \<le> card (nodes lv qs)"
    by (rule surj_card_le [rotated]) (rule fin)
  then show "tb_count (ob_order_index b) < 209715"
    using count_order_index [OF QD(9)] le by (simp add: MAX_ARENA_ORDERS_def)
qed

text \<open>Opening a level for a price that no live level has.\<close>

lemma fresh_level:
  assumes "la_free a (i # fl)"
  shows "\<exists>la. la_allocate a p = Some (la, Inr i) \<and> la_free la fl \<and> llen la = llen a \<and>
     lnd la i = PriceLevelNode_default\<lparr>pl_price := p, pl_active := True\<rparr> \<and> (\<forall>j. j \<noteq> i \<longrightarrow> lnd la j = lnd a j) \<and>
     unat i < llen a \<and> i \<notin> set fl"
proof -
  have "unat i < llen a" "i \<notin> set fl" using assms by (auto simp: la_free_def free_nodes_Cons)
  with la_allocate_ok [OF assms, of p] show ?thesis by (simp add: lnd_def)
qed

lemma new_level_ladders:
  fixes s :: bool
  assumes L: "ladders_ok b lv (i # fl)" and p: "p \<notin> lprice (ob_level_arena b) ` live lv"
  defines "lv' \<equiv> lv(s := takeWhile (\<lambda>j. better s (lprice (ob_level_arena b) j) p) (lv s) @
             i # dropWhile (\<lambda>j. better s (lprice (ob_level_arena b) j) p) (lv s))"
  shows "\<exists>la px b'. la_allocate (ob_level_arena b) p = Some (la, Inr i) \<and>
     fpi_insert (ob_price_index b) p i = Some (px, Inr ()) \<and>
     link_price_level (b\<lparr>ob_level_arena := la, ob_price_index := px\<rparr>) i s = Some b' \<and>
     ladders_ok b' lv' fl \<and> live lv' = insert i (live lv) \<and> i \<notin> live lv \<and> lprice (ob_level_arena b') i = p \<and>
     same_queue PriceLevelNode_default (lnd (ob_level_arena b') i) \<and>
     (\<forall>j. j \<noteq> i \<longrightarrow> lprice (ob_level_arena b') j = lprice (ob_level_arena b) j \<and>
        same_queue (lnd (ob_level_arena b) j) (lnd (ob_level_arena b') j)) \<and>
     ob_order_arena b' = ob_order_arena b \<and> ob_order_index b' = ob_order_index b \<and>
     ob_client_order_index b' = ob_client_order_index b \<and>
     ob_trade_id_counter b' = ob_trade_id_counter b \<and> ob_order_id_counter b' = ob_order_id_counter b \<and>
     ob_symbol b' = ob_symbol b"
proof -
  let ?la = "ob_level_arena b"
  note LD = ladders_okD [OF L]
  obtain la where al: "la_allocate ?la p = Some (la, Inr i)" "la_free la fl" "llen la = llen ?la"
    "lnd la i = PriceLevelNode_default\<lparr>pl_price := p, pl_active := True\<rparr>"
    and lnd: "\<And>j. j \<noteq> i \<Longrightarrow> lnd la j = lnd ?la j" and i: "unat i < llen ?la" "i \<notin> set fl"
    using fresh_level [OF LD(1), of p] by blast
  have il: "i \<notin> live lv" using LD(5) by auto
  obtain px where px: "fpi_insert (ob_price_index b) p i = Some (px, Inr ())" "price_index_ok px"
    "price_map px = (price_map (ob_price_index b))(p \<mapsto> i)"
    using fpi_insert_ok [OF LD(6) price_index_room [OF L]] by blast
  define b1 where "b1 = b\<lparr>ob_level_arena := la, ob_price_index := px\<rparr>"
  have lnd_lv: "lnd la j = lnd ?la j" if "j \<in> set (lv t)" for j t
    using that il lnd live_side by metis
  have ch: "chain_ok t la (best t b1) (lv t)" for t
    using chain_ok_same_levels [OF LD(3) al(3) lnd_lv] by (simp add: b1_def)
  have tw: "takeWhile (\<lambda>j. better s (lprice la j) p) (lv s) = takeWhile (\<lambda>j. better s (lprice ?la j) p) (lv s)"
    "dropWhile (\<lambda>j. better s (lprice la j) p) (lv s) = dropWhile (\<lambda>j. better s (lprice ?la j) p) (lv s)"
    using lnd_lv [of _ s] by (simp_all cong: takeWhile_cong dropWhile_cong)
  have "p \<notin> lprice la ` set (lv s)" using p lnd_lv [of _ s] live_side [of _ lv s] by force
  with link_price_level_ok [of s b1 "lv s" i p] ch [of s] i(1) il live_side [of i lv s] al(3,4)
  obtain la' where link: "link_price_level b1 i s = Some ((set_best s (hd_or (lv' s) NULL_IDX) b1)\<lparr>ob_level_arena := la'\<rparr>)"
    and ch': "chain_ok s la' (hd_or (lv' s) NULL_IDX) (lv' s)" and same: "same_levels la la'"
    and fr: "\<And>j. j \<noteq> i \<Longrightarrow> j \<notin> set (lv s) \<Longrightarrow> lnd la' j = lnd la j"
    by (auto simp: b1_def lv'_def tw)
  define b' where "b' = (set_best s (hd_or (lv' s) NULL_IDX) b1)\<lparr>ob_level_arena := la'\<rparr>"
  have "set (lv s) = set (takeWhile P (lv s)) \<union> set (dropWhile P (lv s))" for P
    by (metis set_append takeWhile_dropWhile_id)
  then have set': "set (lv' s) = insert i (set (lv s))" by (simp add: lv'_def)
  have other: "lv' (\<not> s) = lv (\<not> s)" by (simp add: lv'_def)
  have live': "live lv' = insert i (live lv)" by (simp add: live_side_eq [of _ s] set' other)
  have keep: "lprice la' j = lprice ?la j \<and> same_queue (lnd ?la j) (lnd la' j)" if "j \<noteq> i" for j
    using same lnd [OF that] by (simp add: same_levels_def same_queue_def)
  have at_i: "lprice la' i = p" "same_queue PriceLevelNode_default (lnd la' i)"
    using same al(4) by (simp_all add: same_levels_def same_queue_def)
  have "ladders_ok b' lv' fl"
  proof (rule ladders_okI [where s = s])
    show "la_free (ob_level_arena b') fl" "llen (ob_level_arena b') = MAX_PRICE_LEVELS"
      using same al(2,3) LD(2) by (auto simp: b'_def same_levels_def intro: la_free_cong)
    show "chain_ok s (ob_level_arena b') (best s b') (lv' s)" using ch' by (simp add: b'_def)
    have "lnd la' j = lnd la j" if "j \<in> set (lv (\<not> s))" for j
      using that ladders_disjoint [OF L, of s] il live_side [of j lv "\<not> s"] by (intro fr) auto
    with ch [of "\<not> s"] same show "chain_ok (\<not> s) (ob_level_arena b') (best (\<not> s) b') (lv' (\<not> s))"
      by (auto simp: b'_def other b1_def same_levels_def intro: chain_ok_same_levels)
    show "set (lv' s) \<inter> set (lv' (\<not> s)) = {}"
      using ladders_disjoint [OF L, of s] il live_side [of i lv "\<not> s"] by (auto simp: set' other)
    show "live lv' \<inter> set fl = {}" using LD(5) i(2) by (auto simp: live')
    show "price_index_ok (ob_price_index b')" using px(2) by (simp add: b'_def b1_def)
    have "price_map (ob_price_index b) p \<noteq> Some j" for j
      using LD(7) [of p j] p by blast
    then have "price_map (ob_price_index b) p = None" by (metis option.exhaust)
    then show "price_map (ob_price_index b') p' = Some j \<longleftrightarrow> j \<in> live lv' \<and> lprice (ob_level_arena b') j = p'" for p' j
      using prices_add [where m = "price_map (ob_price_index b)" and price = "lprice ?la" and price' = "lprice la'",
          OF LD(7) il _ at_i(1)] keep
      by (simp add: b'_def b1_def px(3) live')
  qed
  then show ?thesis
    using al(1) px(1) link keep at_i il live' by (auto simp: b'_def b1_def)
qed

lemma new_level_ok:
  fixes s :: bool
  assumes L: "ladders_ok b lv (i # fl)" and Q: "queues_ok tq b lv qs fo"
    and p: "p \<notin> lprice (ob_level_arena b) ` live lv"
  defines "lv' \<equiv> lv(s := takeWhile (\<lambda>j. better s (lprice (ob_level_arena b) j) p) (lv s) @
             i # dropWhile (\<lambda>j. better s (lprice (ob_level_arena b) j) p) (lv s))"
  shows "\<exists>la px b'. la_allocate (ob_level_arena b) p = Some (la, Inr i) \<and>
     fpi_insert (ob_price_index b) p i = Some (px, Inr ()) \<and>
     link_price_level (b\<lparr>ob_level_arena := la, ob_price_index := px\<rparr>) i s = Some b' \<and>
     ladders_ok b' lv' fl \<and> queues_ok tq b' lv' (qs(i := [])) fo \<and> nodes lv' (qs(i := [])) = nodes lv qs \<and>
     live lv' = insert i (live lv) \<and> i \<notin> live lv \<and> lprice (ob_level_arena b') i = p \<and>
     (\<forall>j\<in>live lv. lprice (ob_level_arena b') j = lprice (ob_level_arena b) j) \<and>
     ob_order_arena b' = ob_order_arena b \<and> ob_order_index b' = ob_order_index b \<and>
     ob_client_order_index b' = ob_client_order_index b \<and>
     ob_trade_id_counter b' = ob_trade_id_counter b \<and> ob_order_id_counter b' = ob_order_id_counter b \<and>
     ob_symbol b' = ob_symbol b"
proof -
  from new_level_ladders [OF L p, of s, folded lv'_def] obtain la px b' where
    run: "la_allocate (ob_level_arena b) p = Some (la, Inr i)" "fpi_insert (ob_price_index b) p i = Some (px, Inr ())"
      "link_price_level (b\<lparr>ob_level_arena := la, ob_price_index := px\<rparr>) i s = Some b'"
    and lad: "ladders_ok b' lv' fl" "live lv' = insert i (live lv)" "i \<notin> live lv" "lprice (ob_level_arena b') i = p"
      "same_queue PriceLevelNode_default (lnd (ob_level_arena b') i)"
    and keep: "\<And>j. j \<noteq> i \<Longrightarrow> lprice (ob_level_arena b') j = lprice (ob_level_arena b) j \<and>
        same_queue (lnd (ob_level_arena b) j) (lnd (ob_level_arena b') j)"
    and b': "ob_order_arena b' = ob_order_arena b" "ob_order_index b' = ob_order_index b"
      "ob_client_order_index b' = ob_client_order_index b" "ob_trade_id_counter b' = ob_trade_id_counter b"
      "ob_order_id_counter b' = ob_order_id_counter b" "ob_symbol b' = ob_symbol b"
    by blast
  have ne: "j \<noteq> i" if "j \<in> live lv" for j using that lad(3) by blast
  have new: "j \<in> live lv \<and> (qs(i := [])) j = qs j \<and>
        same_queue (lnd (ob_level_arena b) j) (lnd (ob_level_arena b') j) \<or>
      (qs(i := [])) j = [] \<and> pl_head_order (lnd (ob_level_arena b') j) = NULL_IDX \<and>
        pl_tail_order (lnd (ob_level_arena b') j) = NULL_IDX \<and>
        pl_order_count (lnd (ob_level_arena b') j) = 0 \<and> pl_total_qty (lnd (ob_level_arena b') j) = 0"
    if "j \<in> live lv'" for j
    using that lad(2,5) keep [OF ne, of j] ne [of j]
    by (cases "j = i") (simp_all add: same_queue_def PriceLevelNode_default_def)
  have old: "j \<in> live lv' \<and> (qs(i := [])) j = qs j" if "j \<in> live lv" for j
    using that ne [OF that] lad(2) by simp
  have "queues_ok tq b' lv' (qs(i := [])) fo" "nodes lv' (qs(i := [])) = nodes lv qs"
    using queues_ok_reshape [OF Q new old b'(1-3)] by blast+
  with run lad keep b' ne show ?thesis
    by (intro exI [of _ la] exI [of _ px] exI [of _ b']) simp
qed

section \<open>Entering a node in its queue and in the indices\<close>

text \<open>A node of the arena that holds the order and is in no queue; the id of the order is new.\<close>

definition placed ::
  "OrderBook \<Rightarrow> (bool \<Rightarrow> u32 list) \<Rightarrow> (u32 \<Rightarrow> u32 list) \<Rightarrow> u32 list \<Rightarrow> u32 \<Rightarrow> Order \<Rightarrow> u64 \<Rightarrow> bool" where
  "placed b lv qs fo n order cid \<longleftrightarrow>
     unat n < MAX_ARENA_ORDERS \<and> n \<notin> nodes lv qs \<and> n \<notin> set fo \<and> on_active (ond (ob_order_arena b) n) \<and>
     on_order (ond (ob_order_arena b) n) = order \<and> on_client_id (ond (ob_order_arena b) n) = cid \<and>
     ord_id order \<notin> node_id (ob_order_arena b) ` nodes lv qs"

definition queue_total :: "OrderArena \<Rightarrow> u32 list \<Rightarrow> nat" where
  "queue_total oa q = sum_list (map (\<lambda>m. unat (ord_qty (on_order (ond oa m)))) q)"

lemma push_node_ok:
  assumes L: "ladders_ok b lv fl" and Q: "queues_ok tq b lv qs fo" and i: "i \<in> live lv"
    and P: "placed b lv qs fo n order cid"
    and tot: "tq \<Longrightarrow> queue_total (ob_order_arena b) (qs i) + unat (ord_qty order) < 2 ^ 64"
  shows "\<exists>l oa la oi b'. push_order (lnd (ob_level_arena b) i) n (ob_order_arena b) = Some (l, oa) \<and>
     lmod (ob_level_arena b) i (\<lambda>_. l) = Some la \<and>
     foi_insert (ob_order_index b) (ord_id order) (ord_client_order_id order) (ord_user_id order) (ord_price order) n
       (ord_side order) = Some (oi, Inr ()) \<and>
     b' = b\<lparr>ob_level_arena := la, ob_order_arena := oa, ob_order_index := oi\<rparr> \<and>
     ladders_ok b' lv fl \<and> queues_ok tq b' lv (qs(i := qs i @ [n])) fo \<and>
     same_data (ob_order_arena b) oa \<and> (\<forall>j. lprice la j = lprice (ob_level_arena b) j)"
proof -
  let ?la = "ob_level_arena b" and ?oa = "ob_order_arena b" and ?qs = "qs(i := qs i @ [n])"
  note QD = queues_okD [OF Q] and P = P [unfolded placed_def]
  have ni: "n \<notin> set (qs i)" using P i by (auto simp: nodes_def)
  have no: "unat n < olen ?oa" using P QD(2) by simp
  define l where "l = (lnd ?la i)\<lparr>pl_head_order := hd_or (qs i) n, pl_tail_order := n,
               pl_total_qty := pl_total_qty (lnd ?la i) + ord_qty (on_order (ond ?oa n)),
               pl_order_count := pl_order_count (lnd ?la i) + 1\<rparr>"
  obtain oa where push: "push_order (lnd ?la i) n ?oa = Some (l, oa)" and qok: "queue_ok oa l (qs i @ [n])"
    and data: "same_data ?oa oa" and fr: "\<And>j. j \<noteq> n \<Longrightarrow> j \<notin> set (qs i) \<Longrightarrow> ond oa j = ond ?oa j"
    by (rule push_order_ok [OF QD(3) [OF i] no ni, folded l_def]) (rule that)
  define la where "la = lset ?la i (\<lambda>_. l)"
  obtain oi where oi: "foi_insert (ob_order_index b) (ord_id order) (ord_client_order_id order) (ord_user_id order)
        (ord_price order) n (ord_side order) = Some (oi, Inr ())" "order_index_ok oi"
    "order_map oi = (order_map (ob_order_index b))(node_id ?oa n \<mapsto> index_entry ?oa n)"
    using foi_insert_ok [OF QD(9) order_index_room(1) [OF Q]] P unfolding index_entry_def node_id_def Let_def by blast
  define b' where "b' = b\<lparr>ob_level_arena := la, ob_order_arena := oa, ob_order_index := oi\<rparr>"
  have ll: "level_like (lnd ?la i) l" by (simp add: l_def level_like_def)
  have same: "same_ladder ?la la" unfolding la_def by (rule same_ladder_lset [OF ll])
  then have lad: "ladders_ok b' lv fl" by (intro ladders_frame [OF L]) (simp_all add: b'_def)
  have "queues_at tq oa la (live lv) ?qs fo"
  proof (rule queues_at_update [OF QD(12)])
    show "olen oa = olen ?oa" using data by (simp add: same_data_def)
    show "queue_ok oa (lnd la i) (qs i @ [n]) \<and> total_ok tq oa (lnd la i) (qs i @ [n])"
      using qok QD(4) [OF i] tot P data
      by (simp add: la_def) (simp add: l_def total_ok_def same_data_def queue_total_def unat_add_small)
    show "ond oa m = ond ?oa m \<and> m \<notin> set (qs i @ [n]) \<and> m \<notin> set fo"
      if "j \<in> live lv" "j \<noteq> i" "m \<in> set (qs j)" for j m
    proof -
      have "m \<noteq> n" using that P by (auto simp: nodes_def)
      moreover have "m \<notin> set (qs i)" using QD(6) [OF that(1) i that(2)] that(3) by blast
      ultimately show ?thesis using fr QD(5) [OF that(1)] that(3) by auto
    qed
  qed (use P QD(5) [OF i] in \<open>auto simp: la_def\<close>)
  moreover have "indexed oa (nodes lv ?qs) (order_map oi)"
  proof -
    have "nodes lv ?qs = insert n (nodes lv qs)" using i by (auto simp: nodes_def split: if_splits)
    moreover have "node_id ?oa n \<notin> node_id ?oa ` nodes lv qs" using P by (simp add: node_id_def)
    ultimately show ?thesis
      unfolding oi(3) using indexed_insert [OF QD(13)] P by (simp add: indexed_cong [OF _ node_like_same(2) [OF data]])
  qed
  moreover have "oa_free oa fo"
  proof (rule oa_free_cong [OF QD(1)])
    show "on_next (ond oa j) = on_next (ond ?oa j)" if "j \<in> set fo" for j
      using that P QD(5) [OF i] by (subst fr) auto
  qed (use data in \<open>simp_all add: same_data_def\<close>)
  ultimately have "queues_ok tq b' lv ?qs fo"
    using QD(2,11) data oi(2) by (simp add: queues_ok_def b'_def same_data_def)
  moreover have "lmod ?la i (\<lambda>_. l) = Some la" using live_range [OF L i] by (simp add: la_def)
  ultimately show ?thesis
    using push oi(1) lad data same by (auto simp: b'_def same_ladder_def)
qed

section \<open>The refinement relation\<close>

definition book_abs ::
  "bool \<Rightarrow> OrderBook \<Rightarrow> abook \<Rightarrow> (bool \<Rightarrow> u32 list) \<Rightarrow> (u32 \<Rightarrow> u32 list) \<Rightarrow> u32 list \<Rightarrow> u32 list \<Rightarrow> bool" where
  "book_abs tq b B lv qs fo fl \<longleftrightarrow>
     book_state tq b lv qs fo fl \<and> (\<forall>s. aside s B = absl b qs (lv s)) \<and>
     ab_clients B = client_map (ob_client_order_index b) \<and>
     ab_free_orders B = length fo \<and> ab_free_levels B = length fl \<and>
     ab_trade_ctr B = ob_trade_id_counter b \<and> ab_order_ctr B = ob_order_id_counter b"

definition book_rel :: "bool \<Rightarrow> OrderBook \<Rightarrow> abook \<Rightarrow> bool" where
  "book_rel tq b B \<longleftrightarrow> abook_ok B \<and> (\<exists>lv qs fo fl. book_abs tq b B lv qs fo fl)"

definition level_qty :: "alevel list \<Rightarrow> u64 \<Rightarrow> nat" where
  "level_qty ls p = sum_list (map (\<lambda>l. if fst l = p then qty_sum (map fst (snd l)) else 0) ls)"

lemma set_absl: "set (flat (absl b qs ls)) = (\<Union>i\<in>set ls. set (qdata (ob_order_arena b) (qs i)))"
  by (auto simp: absl_def flat_def)

lemma set_resting_abs:
  assumes "book_abs tq b B lv qs fo fl"
  shows "set (resting_orders B) = (\<lambda>n. (on_order (ond (ob_order_arena b) n), on_client_id (ond (ob_order_arena b) n))) ` nodes lv qs"
  using assms by (auto simp: book_abs_def resting_orders_def sides set_absl nodes_def live_def qdata_def)

lemma resting_ids_abs:
  assumes "book_abs tq b B lv qs fo fl"
  shows "resting_id ` set (resting_orders B) = node_id (ob_order_arena b) ` nodes lv qs"
    "resting_key ` set (resting_orders B) = node_key (ob_order_arena b) ` nodes lv qs"
  unfolding set_resting_abs [OF assms]
  by (auto simp: image_image resting_id_def resting_key_def node_id_def node_key_def)

lemma client_index_room:
  assumes "book_abs tq b B lv qs fo fl" "abook_ok B"
  shows "tb_count (ob_client_order_index b) < 209715"
proof -
  have Q: "queues_ok tq b lv qs fo" using assms(1) by (simp add: book_abs_def book_state_def)
  have "dom (client_map (ob_client_order_index b)) \<subseteq> resting_key ` set (resting_orders B)"
    using assms unfolding book_abs_def abook_ok_def by (force simp: dom_def)
  then have "dom (client_map (ob_client_order_index b)) \<subseteq> node_key (ob_order_arena b) ` nodes lv qs"
    by (simp only: resting_ids_abs(2) [OF assms(1)])
  then have "card (dom (client_map (ob_client_order_index b))) \<le> card (nodes lv qs)"
    by (rule surj_card_le [rotated]) (rule order_index_room(3) [OF Q])
  then show ?thesis
    using count_client_index [OF queues_okD(11) [OF Q]] order_index_room(2) [OF Q]
    by (simp add: MAX_ARENA_ORDERS_def)
qed

lemma price_lookup_abs:
  assumes A: "book_abs tq b B lv qs fo fl" and un: "p \<notin> fst ` set (aside (\<not> s) B)"
  shows "p \<in> fst ` set (aside s B) \<Longrightarrow>
      \<exists>i. price_map (ob_price_index b) p = Some i \<and> i \<in> set (lv s) \<and> lprice (ob_level_arena b) i = p"
    "p \<notin> fst ` set (aside s B) \<Longrightarrow>
      price_map (ob_price_index b) p = None \<and> p \<notin> lprice (ob_level_arena b) ` live lv"
proof -
  have L: "ladders_ok b lv fl" and as: "\<And>s. aside s B = absl b qs (lv s)"
    using A by (simp_all add: book_abs_def book_state_def)
  have pr: "fst ` set (aside t B) = lprice (ob_level_arena b) ` set (lv t)" for t
    by (simp add: as absl_def image_image)
  show "\<exists>i. price_map (ob_price_index b) p = Some i \<and> i \<in> set (lv s) \<and> lprice (ob_level_arena b) i = p"
    if "p \<in> fst ` set (aside s B)"
    using that ladders_okD(7) [OF L, of p] live_side [of _ lv s] unfolding pr by fastforce
  show "price_map (ob_price_index b) p = None \<and> p \<notin> lprice (ob_level_arena b) ` live lv"
    if "p \<notin> fst ` set (aside s B)"
  proof -
    have "p \<notin> lprice (ob_level_arena b) ` live lv"
      using that un unfolding pr live_side_eq [of lv s] by blast
    moreover from this have "price_map (ob_price_index b) p \<noteq> Some i" for i
      using ladders_okD(7) [OF L, of p i] by blast
    ultimately show ?thesis by (simp add: not_Some_eq [symmetric] del: not_Some_eq)
  qed
qed

lemma level_qty_abs:
  assumes "ladders_ok b lv fl" "i \<in> set (lv s)" "lprice (ob_level_arena b) i = p"
  shows "queue_total (ob_order_arena b) (qs i) \<le>
    level_qty (absl b qs (lv s)) p"
proof -
  from assms(2) obtain xs ys where lv: "lv s = xs @ i # ys" by (meson split_list)
  have "map (\<lambda>x. unat (ord_qty (fst x))) (qdata (ob_order_arena b) (qs i)) =
      map (\<lambda>m. unat (ord_qty (on_order (ond (ob_order_arena b) m)))) (qs i)"
    by (simp add: qdata_def)
  then show ?thesis by (simp add: queue_total_def level_qty_def absl_def lv assms(3) o_def)
qed

text \<open>The end of \<open>rest_order\<close>: the node goes to its level and to both indices.\<close>

lemma enter_order_ok:
  assumes L: "ladders_ok b lv fl" and Q: "queues_ok tq b lv qs fo" and i: "i \<in> live lv"
    and P: "placed b lv qs fo n order cid"
    and tot: "tq \<Longrightarrow> queue_total (ob_order_arena b) (qs i) + unat (ord_qty order) < 2 ^ 64"
    and room: "tb_count (ob_client_order_index b) < 209715"
  shows "\<exists>b'. enter_order b order n i = Some (b', Inr ()) \<and>
     ladders_ok b' lv fl \<and> queues_ok tq b' lv (qs(i := qs i @ [n])) fo \<and>
     (\<forall>ls. absl b' (qs(i := qs i @ [n])) ls =
       map (\<lambda>j. (lprice (ob_level_arena b) j,
              if j = i then qdata (ob_order_arena b) (qs i) @ [(order, cid)] else qdata (ob_order_arena b) (qs j))) ls) \<and>
     client_map (ob_client_order_index b') = (client_map (ob_client_order_index b))
       ((ord_user_id order, ord_client_order_id order) \<mapsto> ord_id order) \<and>
     ob_trade_id_counter b' = ob_trade_id_counter b \<and> ob_order_id_counter b' = ob_order_id_counter b \<and>
     ob_symbol b' = ob_symbol b"
proof -
  from push_node_ok [OF L Q i P tot] obtain l oa la oi b1 where
     N: "push_order (lnd (ob_level_arena b) i) n (ob_order_arena b) = Some (l, oa)"
     "lmod (ob_level_arena b) i (\<lambda>_. l) = Some la"
     "foi_insert (ob_order_index b) (ord_id order) (ord_client_order_id order) (ord_user_id order)
        (ord_price order) n (ord_side order) = Some (oi, Inr ())"
     "b1 = b\<lparr>ob_level_arena := la, ob_order_arena := oa, ob_order_index := oi\<rparr>"
     "ladders_ok b1 lv fl" "queues_ok tq b1 lv (qs(i := qs i @ [n])) fo"
    and dat: "same_data (ob_order_arena b) oa" "\<forall>j. lprice la j = lprice (ob_level_arena b) j"
    by blast
  obtain ci where ci: "fci_insert (ob_client_order_index b) (ord_user_id order) (ord_client_order_id order) (ord_id order) =
      Some (ci, Inr ())" "client_index_ok ci" "client_map ci = (client_map (ob_client_order_index b))
       ((ord_user_id order, ord_client_order_id order) \<mapsto> ord_id order)"
    using fci_insert_ok [OF queues_okD(11) [OF Q] room] by blast
  define b' where "b' = b1\<lparr>ob_client_order_index := ci\<rparr>"
  have "ladders_ok b' lv fl" using N(5) by (simp add: b'_def ladders_ok_def)
  moreover have "queues_ok tq b' lv (qs(i := qs i @ [n])) fo"
    using N(6) ci(2) by (simp add: b'_def queues_ok_def)
  moreover have "absl b' (qs(i := qs i @ [n])) ls =
       map (\<lambda>j. (lprice (ob_level_arena b) j,
              if j = i then qdata (ob_order_arena b) (qs i) @ [(order, cid)] else qdata (ob_order_arena b) (qs j))) ls" for ls
    using dat P by (simp add: absl_def b'_def N(4) qdata_def same_data_def placed_def)
  ultimately show ?thesis
    using N(1-3) ci(1,3) live_range [OF L i]
    by (intro exI [of _ b']) (simp add: enter_order_def b'_def N(4))
qed

lemma book_abs_restable:
  assumes "restable B order s"
  shows "ord_price order \<notin> fst ` set (aside (\<not> s) B)" "ord_id order \<notin> resting_id ` set (resting_orders B)"
  using assms by (auto simp: restable_def uncrossed_at_def split: if_splits)

text \<open>The order goes to a live level of its price, or to a level opened for it.\<close>

definition clients_add :: "Order \<Rightarrow> (u64 \<times> u64 \<rightharpoonup> u64) \<Rightarrow> (u64 \<times> u64 \<rightharpoonup> u64)" where
  "clients_add order m = m((ord_user_id order, ord_client_order_id order) \<mapsto> ord_id order)"

lemma join_level_ok:
  assumes A: "book_abs tq b B lv qs fo fl" and P: "placed b lv qs fo n order cid"
    and i: "i \<in> set (lv s)" "lprice (ob_level_arena b) i = ord_price order"
    and tot: "tq \<Longrightarrow> level_qty (aside s B) (ord_price order) + unat (ord_qty order) < 2 ^ 64"
    and room: "tb_count (ob_client_order_index b) < 209715"
  shows "\<exists>b' qs'. enter_order b order n i = Some (b', Inr ()) \<and> ob_symbol b' = ob_symbol b \<and>
     book_abs tq b' ((set_aside s (append_level (ord_price order) (order, cid) (aside s B)) B)
       \<lparr>ab_clients := clients_add order (ab_clients B)\<rparr>) lv qs' fo fl"
proof -
  have L: "ladders_ok b lv fl" and Q: "queues_ok tq b lv qs fo" and ne: "\<And>i. i \<in> live lv \<Longrightarrow> qs i \<noteq> []"
    and as: "\<And>s. aside s B = absl b qs (lv s)"
    using A by (simp_all add: book_abs_def book_state_def)
  note il = live_side [of i lv s, OF i(1)]
  let ?qs = "qs(i := qs i @ [n])"
  have "queue_total (ob_order_arena b) (qs i) + unat (ord_qty order) < 2 ^ 64" if "tq"
    using level_qty_abs [OF L i, of qs] tot [OF that] by (simp add: as)
  from enter_order_ok [OF L Q il P this room] obtain b' where
    run: "enter_order b order n i = Some (b', Inr ())" and st: "ladders_ok b' lv fl" "queues_ok tq b' lv ?qs fo"
    and ab: "\<And>ls. absl b' ?qs ls = map (\<lambda>j. (lprice (ob_level_arena b) j,
        if j = i then qdata (ob_order_arena b) (qs i) @ [(order, cid)] else qdata (ob_order_arena b) (qs j))) ls"
    and cl: "client_map (ob_client_order_index b') = clients_add order (client_map (ob_client_order_index b))"
      "ob_trade_id_counter b' = ob_trade_id_counter b" "ob_order_id_counter b' = ob_order_id_counter b"
      "ob_symbol b' = ob_symbol b"
    unfolding clients_add_def by blast
  have "lprice (ob_level_arena b) j = ord_price order \<longleftrightarrow> j = i" if "j \<in> live lv" for j
    using that ladders_okD(7) [OF L, of "ord_price order" i] ladders_okD(7) [OF L, of "ord_price order" j] i(2) il by auto
  then have "absl b' ?qs (lv s) = append_level (ord_price order) (order, cid) (aside s B)"
    using live_side [of _ lv s] unfolding ab as by (simp add: append_level_def absl_def)
  moreover have "absl b' ?qs (lv (\<not> s)) = aside (\<not> s) B"
    using i(1) ladders_disjoint [OF L, of s] unfolding ab as by (auto simp: absl_def)
  moreover define B' where "B' = (set_aside s (append_level (ord_price order) (order, cid) (aside s B)) B)
       \<lparr>ab_clients := clients_add order (ab_clients B)\<rparr>"
  ultimately have "aside t B' = absl b' ?qs (lv t)" for t by (cases "t = s") auto
  moreover have "ab_clients B' = clients_add order (ab_clients B)" "ab_free_orders B' = ab_free_orders B"
    "ab_free_levels B' = ab_free_levels B" "ab_trade_ctr B' = ab_trade_ctr B" "ab_order_ctr B' = ab_order_ctr B"
    by (simp_all add: B'_def)
  ultimately have "book_abs tq b' B' lv ?qs fo fl"
    using st ne cl A by (simp add: book_abs_def book_state_def)
  with run cl(4) show ?thesis unfolding B'_def by blast
qed

lemma open_level_ok:
  assumes A: "book_abs tq b B lv qs fo (i # fl)" and P: "placed b lv qs fo n order cid"
    and new: "ord_price order \<notin> lprice (ob_level_arena b) ` live lv"
    and room: "tb_count (ob_client_order_index b) < 209715"
  shows "\<exists>la px b1 b' lv' qs'. la_allocate (ob_level_arena b) (ord_price order) = Some (la, Inr i) \<and>
     fpi_insert (ob_price_index b) (ord_price order) i = Some (px, Inr ()) \<and>
     link_price_level (b\<lparr>ob_level_arena := la, ob_price_index := px\<rparr>) i s = Some b1 \<and>
     enter_order b1 order n i = Some (b', Inr ()) \<and> ob_symbol b' = ob_symbol b \<and>
     book_abs tq b' ((set_aside s (insert_level s (ord_price order) (order, cid) (aside s B)) B)
       \<lparr>ab_clients := clients_add order (ab_clients B), ab_free_levels := ab_free_levels B - 1\<rparr>) lv' qs' fo fl"
proof -
  let ?p = "ord_price order" and ?oa = "ob_order_arena b" and ?qe = "qs(i := [])" and ?qs = "qs(i := [n])"
  have L: "ladders_ok b lv (i # fl)" and Q: "queues_ok tq b lv qs fo" and ne: "\<And>i. i \<in> live lv \<Longrightarrow> qs i \<noteq> []"
    and as: "\<And>s. aside s B = absl b qs (lv s)"
    using A by (simp_all add: book_abs_def book_state_def)
  define T where "T = (\<lambda>j. better s (lprice (ob_level_arena b) j) ?p)"
  define lv' where "lv' = lv(s := takeWhile T (lv s) @ i # dropWhile T (lv s))"
  from new_level_ok [OF L Q new, of s, folded T_def lv'_def] obtain la px b1 where
    opn: "la_allocate (ob_level_arena b) ?p = Some (la, Inr i)" "fpi_insert (ob_price_index b) ?p i = Some (px, Inr ())"
      "link_price_level (b\<lparr>ob_level_arena := la, ob_price_index := px\<rparr>) i s = Some b1"
    and st1: "ladders_ok b1 lv' fl" "queues_ok tq b1 lv' ?qe fo" "nodes lv' ?qe = nodes lv qs"
      "live lv' = insert i (live lv)" "i \<notin> live lv" "lprice (ob_level_arena b1) i = ?p"
    and pr: "\<forall>j\<in>live lv. lprice (ob_level_arena b1) j = lprice (ob_level_arena b) j"
    and b1: "ob_order_arena b1 = ?oa" "ob_order_index b1 = ob_order_index b"
      "ob_client_order_index b1 = ob_client_order_index b" "ob_trade_id_counter b1 = ob_trade_id_counter b"
      "ob_order_id_counter b1 = ob_order_id_counter b" "ob_symbol b1 = ob_symbol b"
    by blast
  have il: "i \<in> live lv'" using st1(4) by simp
  have P1: "placed b1 lv' ?qe fo n order cid" using P by (simp add: placed_def b1 st1(3))
  have t1: "queue_total (ob_order_arena b1) (?qe i) + unat (ord_qty order) < 2 ^ 64"
    using unsigned_less [of "ord_qty order"] by (simp add: queue_total_def)
  have qe: "?qe(i := ?qe i @ [n]) = ?qs" "?qe i = []" by simp_all
  from enter_order_ok [OF st1(1,2) il P1 t1, unfolded qe(1), unfolded qe(2) b1 qdata_simps append_Nil,
      OF room, folded clients_add_def] obtain b' where
    run: "enter_order b1 order n i = Some (b', Inr ())" and st: "ladders_ok b' lv' fl" "queues_ok tq b' lv' ?qs fo"
    and ab: "\<And>ls. absl b' ?qs ls =
        map (\<lambda>j. (lprice (ob_level_arena b1) j, if j = i then [(order, cid)] else qdata ?oa (?qe j))) ls"
    and cl: "client_map (ob_client_order_index b') = clients_add order (client_map (ob_client_order_index b))"
      "ob_trade_id_counter b' = ob_trade_id_counter b" "ob_order_id_counter b' = ob_order_id_counter b"
      "ob_symbol b' = ob_symbol b"
    by blast
  have keep: "absl b' ?qs js = absl b qs js" if "set js \<subseteq> live lv" for js
    using that st1(5) pr unfolding ab by (auto simp: absl_def)
  have side: "set (lv t) \<subseteq> live lv" for t using live_side by blast
  have "absl b' ?qs (lv' s) = insert_level s ?p (order, cid) (aside s B)"
  proof -
    have "absl b' ?qs (takeWhile T (lv s)) = absl b qs (takeWhile T (lv s))"
      "absl b' ?qs (dropWhile T (lv s)) = absl b qs (dropWhile T (lv s))"
      using side [of s] by (intro keep; auto dest: set_takeWhileD set_dropWhileD)+
    then show ?thesis
      by (simp add: insert_level_def as lv'_def ab st1(6))
        (simp add: absl_def takeWhile_map dropWhile_map o_def T_def)
  qed
  moreover have "absl b' ?qs (lv' (\<not> s)) = aside (\<not> s) B" using keep [OF side] by (simp add: as lv'_def)
  moreover define B' where "B' = (set_aside s (insert_level s ?p (order, cid) (aside s B)) B)
       \<lparr>ab_clients := clients_add order (ab_clients B), ab_free_levels := ab_free_levels B - 1\<rparr>"
  ultimately have "aside t B' = absl b' ?qs (lv' t)" for t by (cases "t = s") auto
  moreover have "ab_clients B' = clients_add order (ab_clients B)" "ab_free_orders B' = ab_free_orders B"
    "ab_free_levels B' = ab_free_levels B - 1" "ab_trade_ctr B' = ab_trade_ctr B" "ab_order_ctr B' = ab_order_ctr B"
    by (simp_all add: B'_def)
  moreover have "?qs j \<noteq> []" if "j \<in> live lv'" for j using that ne st1(4) by auto
  ultimately have "book_abs tq b' B' lv' ?qs fo fl"
    using st cl A by (simp add: book_abs_def book_state_def)
  with opn run cl(4) show ?thesis unfolding B'_def by blast
qed

text \<open>Taking the node: the book is unchanged but for the arena.\<close>

lemma take_node_ok:
  assumes A: "book_abs tq b B lv qs (n # fo) fl" and new: "ord_id order \<notin> resting_id ` set (resting_orders B)"
  shows "\<exists>oa. oa_allocate (ob_order_arena b) order cid = Some (oa, Inr n) \<and>
     book_abs tq (b\<lparr>ob_order_arena := oa\<rparr>) (B\<lparr>ab_free_orders := ab_free_orders B - 1\<rparr>) lv qs fo fl \<and>
     placed (b\<lparr>ob_order_arena := oa\<rparr>) lv qs fo n order cid"
proof -
  have Q: "queues_ok tq b lv qs (n # fo)" using A by (simp add: book_abs_def book_state_def)
  from alloc_node_ok [OF Q, of order cid] obtain oa where
    al: "oa_allocate (ob_order_arena b) order cid = Some (oa, Inr n)"
    and Q1: "queues_ok tq (b\<lparr>ob_order_arena := oa\<rparr>) lv qs fo"
    and n: "n \<notin> nodes lv qs" "n \<notin> set fo" "unat n < MAX_ARENA_ORDERS" "on_order (ond oa n) = order"
      "on_client_id (ond oa n) = cid" "on_active (ond oa n)"
    and on: "\<And>j. j \<noteq> n \<Longrightarrow> ond oa j = ond (ob_order_arena b) j" by auto
  have same: "ond oa m = ond (ob_order_arena b) m" if "m \<in> nodes lv qs" for m using that n(1) on by metis
  have "m \<in> nodes lv qs" if "i \<in> live lv" "m \<in> set (qs i)" for i m using that by (auto simp: nodes_def)
  then have "qdata oa (qs i) = qdata (ob_order_arena b) (qs i)" if "i \<in> live lv" for i
    using that by (intro qdata_cong) (simp add: same)
  then have "absl (b\<lparr>ob_order_arena := oa\<rparr>) qs (lv t) = absl b qs (lv t)" for t
    using live_side by (auto simp: absl_def)
  with A Q1 have "book_abs tq (b\<lparr>ob_order_arena := oa\<rparr>) (B\<lparr>ab_free_orders := ab_free_orders B - 1\<rparr>) lv qs fo fl"
    by (simp add: book_abs_def book_state_def ladders_ok_def)
  moreover have "ord_id order \<notin> node_id oa ` nodes lv qs"
    using new same unfolding resting_ids_abs(1) [OF A] by (auto simp: node_id_def)
  ultimately show ?thesis using al n by (simp add: placed_def)
qed

lemma rest_order_ok:
  assumes A: "book_abs tq b B lv qs fo fl" and B: "abook_ok B" and R: "restable B order s"
    and room: "tq \<Longrightarrow> level_qty (aside s B) (ord_price order) + unat (ord_qty order) < 2 ^ 64"
    and E: "arest B order cid s = (B', r)"
  shows "\<exists>b' lv' qs' fo' fl'. rest_order b order cid s = Some (b', r) \<and> book_abs tq b' B' lv' qs' fo' fl' \<and>
           ob_symbol b' = ob_symbol b"
proof -
  have L: "ladders_ok b lv fl" and Q: "queues_ok tq b lv qs fo" and len: "ab_free_orders B = length fo" "ab_free_levels B = length fl"
    using A by (simp_all add: book_abs_def book_state_def)
  note un = book_abs_restable [OF R]
  show ?thesis
  proof (cases fo)
    case Nil
    then have "oa_allocate (ob_order_arena b) order cid = Some (ob_order_arena b, Inl EngineFull)"
      using queues_okD(1) [OF Q] oa_allocate_full by simp
    then show ?thesis using E Nil len A by (auto simp: rest_order_def arest_def)
  next
    case (Cons n fo')
    define B1 where "B1 = B\<lparr>ab_free_orders := ab_free_orders B - 1\<rparr>"
    from take_node_ok [OF A [unfolded Cons] un(2), of cid] obtain oa where
      al: "oa_allocate (ob_order_arena b) order cid = Some (oa, Inr n)"
      and A1: "book_abs tq (b\<lparr>ob_order_arena := oa\<rparr>) B1 lv qs fo' fl"
      and P: "placed (b\<lparr>ob_order_arena := oa\<rparr>) lv qs fo' n order cid"
      unfolding B1_def by blast
    have cr: "tb_count (ob_client_order_index (b\<lparr>ob_order_arena := oa\<rparr>)) < 209715"
      using client_index_room [OF A B] by simp
    note lk = fpi_lookup_eq [OF ladders_okD(6) [OF L], of "ord_price order"]
    consider (join) "ord_price order \<in> fst ` set (aside s B)"
      | (full) "ord_price order \<notin> fst ` set (aside s B)" "fl = []"
      | (new) i fl' where "ord_price order \<notin> fst ` set (aside s B)" "fl = i # fl'" by (cases fl) blast+
    then show ?thesis
    proof cases
      case join
      then obtain i where i: "price_map (ob_price_index b) (ord_price order) = Some i" "i \<in> set (lv s)"
        "lprice (ob_level_arena b) i = ord_price order"
        using price_lookup_abs(1) [OF A un(1)] by blast
      from join_level_ok [OF A1 P i(2) _ _ cr] i(3) room obtain b' qs' where
        "enter_order (b\<lparr>ob_order_arena := oa\<rparr>) order n i = Some (b', Inr ())" "ob_symbol b' = ob_symbol b"
        "book_abs tq b' ((set_aside s (append_level (ord_price order) (order, cid) (aside s B)) B1)
          \<lparr>ab_clients := clients_add order (ab_clients B)\<rparr>) lv qs' fo' fl"
        by (auto simp: B1_def)
      with E join Cons len al lk i(1) show ?thesis
        by (auto simp: rest_order_def arest_def Let_def B1_def clients_add_def)
    next
      case full
      with price_lookup_abs(2) [OF A un(1)] la_allocate_full ladders_okD(1) [OF L] al lk E Cons len A1 show ?thesis
        by (auto simp: rest_order_def arest_def Let_def B1_def)
    next
      case new
      note np = price_lookup_abs(2) [OF A un(1) new(1)]
      have "ord_price order \<notin> lprice (ob_level_arena (b\<lparr>ob_order_arena := oa\<rparr>)) ` live lv" using np by simp
      from open_level_ok [OF A1 [unfolded new(2)] P this cr, of s] obtain la px b1 b' lv' qs' where
        "la_allocate (ob_level_arena b) (ord_price order) = Some (la, Inr i)"
        "fpi_insert (ob_price_index b) (ord_price order) i = Some (px, Inr ())"
        "link_price_level (b\<lparr>ob_order_arena := oa, ob_level_arena := la, ob_price_index := px\<rparr>) i s = Some b1"
        "enter_order b1 order n i = Some (b', Inr ())" "ob_symbol b' = ob_symbol b"
        "book_abs tq b' ((set_aside s (insert_level s (ord_price order) (order, cid) (aside s B)) B1)
          \<lparr>ab_clients := clients_add order (ab_clients B), ab_free_levels := ab_free_levels B - 1\<rparr>) lv' qs' fo' fl'"
        by (auto simp: B1_def)
      with E new Cons len al lk np show ?thesis
        by (auto simp: rest_order_def arest_def Let_def B1_def clients_add_def)
    qed
  qed
qed

end
