(* ===== verification/Book_Cancel.thy ===== *)
theory Book_Cancel
  imports Book_Rest
begin

text \<open>
  Cancelling: the indices find what the specification finds, and \<open>remove_entry\<close> takes the order out of its queue,
  its level out of the ladder when it was the last one, and both out of the indices, as \<open>aremove\<close> does.
\<close>

section \<open>Cancelling\<close>

text \<open>The order index finds what the specification finds.\<close>

lemma lookup_abs:
  assumes A: "book_abs tq b B lv qs fo fl" and B: "abook_ok B"
  shows "find_resting B oid = None \<Longrightarrow> order_map (ob_order_index b) oid = None"
    "find_resting B oid = Some x \<Longrightarrow> \<exists>n\<in>nodes lv qs.
       order_map (ob_order_index b) oid = Some (index_entry (ob_order_arena b) n) \<and>
       x = (on_order (ond (ob_order_arena b) n), on_client_id (ond (ob_order_arena b) n)) \<and>
       node_id (ob_order_arena b) n = oid"
proof -
  let ?oa = "ob_order_arena b"
  have Q: "queues_ok tq b lv qs fo" using A by (simp add: book_abs_def book_state_def)
  note QD = queues_okD [OF Q]
  show "order_map (ob_order_index b) oid = None" if "find_resting B oid = None"
  proof -
    have "oid \<notin> node_id ?oa ` nodes lv qs"
      using that find_resting_None [of B oid] resting_ids_abs(1) [OF A] by simp
    then have "order_map (ob_order_index b) oid \<noteq> Some e" for e using QD(10) [of oid e] by blast
    then show ?thesis by (simp add: not_Some_eq [symmetric] del: not_Some_eq)
  qed
  show "\<exists>n\<in>nodes lv qs. order_map (ob_order_index b) oid = Some (index_entry ?oa n) \<and>
       x = (on_order (ond ?oa n), on_client_id (ond ?oa n)) \<and> node_id ?oa n = oid"
    if "find_resting B oid = Some x"
  proof -
    from find_resting_Some [OF that] obtain n where n: "n \<in> nodes lv qs"
      "x = (on_order (ond ?oa n), on_client_id (ond ?oa n))" "resting_id x = oid"
      unfolding set_resting_abs [OF A] by blast
    then have "node_id ?oa n = oid" by (simp add: node_id_def resting_id_def)
    moreover from this n(1) have "order_map (ob_order_index b) oid = Some (index_entry ?oa n)"
      using QD(10) [of oid "index_entry ?oa n"] by blast
    ultimately show ?thesis using n by blast
  qed
qed

text \<open>Taking a node out of its queue and giving it back to the arena.\<close>

lemma remove_node_ok:
  fixes b b' :: OrderBook
  defines "oa \<equiv> ob_order_arena b"
  assumes Q: "queues_ok tq b lv qs fo" and i: "i \<in> live lv" and qi: "qs i = xs @ n # ys"
    and l1: "queue_ok oa1 l1 (xs @ ys)"
      "pl_total_qty l1 = sat_sub (pl_total_qty (lnd (ob_level_arena b) i)) (ord_qty (on_order (ond oa n)))"
    and data: "same_data oa oa1" and fr: "\<And>j. j \<notin> set (xs @ ys) \<Longrightarrow> ond oa1 j = ond oa j"
    and b': "ob_order_arena b' = oa_deallocate oa1 n" "order_index_ok (ob_order_index b')"
      "order_map (ob_order_index b') = (order_map (ob_order_index b))(node_id oa n := None)"
      "client_index_ok (ob_client_order_index b')"
    and sub: "live lv' \<subseteq> live lv" "\<And>j. j \<in> live lv - live lv' \<Longrightarrow> j = i \<and> xs @ ys = []"
    and lnd: "\<And>j. j \<in> live lv' \<Longrightarrow>
        same_queue (if j = i then l1 else lnd (ob_level_arena b) j) (lnd (ob_level_arena b') j)"
  shows "queues_ok tq b' lv' (qs(i := xs @ ys)) (n # fo)"
    "\<And>j. j \<in> live lv' \<Longrightarrow> qdata (ob_order_arena b') ((qs(i := xs @ ys)) j) = qdata oa ((qs(i := xs @ ys)) j)"
proof -
  note QD = queues_okD [OF Q, folded oa_def]
  let ?qs = "qs(i := xs @ ys)"
  have d: "distinct (xs @ n # ys)" using queue_okD(4) [OF QD(3) [OF i]] qi by simp
  have n: "n \<in> nodes lv qs" unfolding nodes_def by (rule UN_I [OF i]) (simp add: qi)
  have no: "unat n < olen oa1" using nodes_range [OF Q n] data by (simp add: same_data_def oa_def)
  have fo: "n \<notin> set fo" "set (xs @ ys) \<inter> set fo = {}" using QD(5) [OF i] qi by auto
  then have "ond oa1 j = ond oa j" if "j \<in> set fo" for j using that by (intro fr) blast
  then have free: "oa_free oa1 fo" using QD(1) data by (auto simp: same_data_def intro: oa_free_cong)
  define oa2 where "oa2 = oa_deallocate oa1 n"
  note dl = oa_deallocate_ok [OF free no fo(1), folded oa2_def]
  have on2: "ond oa2 j = ond oa1 j" if "j \<noteq> n" for j using that by (simp add: dl(1))
  have len: "olen oa2 = olen oa" "olen oa1 = olen oa" using data by (simp_all add: dl(1) same_data_def)
  have dat: "on_order (ond oa2 j) = on_order (ond oa j)" "on_client_id (ond oa2 j) = on_client_id (ond oa j)" for j
    using data by (auto simp: dl(1) same_data_def)
  have apart: "m \<noteq> n \<and> m \<notin> set (xs @ ys) \<and> m \<notin> set fo" if "j \<in> live lv" "j \<noteq> i" "m \<in> set (qs j)" for j m
    using QD(6) [OF i that(1)] QD(5) [OF that(1)] that(2,3) qi by auto
  have "queues_at tq oa2 (ob_level_arena b') (live lv') ?qs (n # fo)"
  proof (rule queues_at_update [OF QD(12) len(1)])
    show "j \<in> live lv \<and> same_queue (lnd (ob_level_arena b) j) (lnd (ob_level_arena b') j)"
      if "j \<in> live lv'" "j \<noteq> i" for j
      using that lnd [OF that(1)] sub(1) by auto
    show "ond oa2 m = ond oa m \<and> m \<notin> set (xs @ ys) \<and> m \<notin> set (n # fo)"
      if "j \<in> live lv" "j \<noteq> i" "m \<in> set (qs j)" for j m
      using apart [OF that] by (simp add: on2 fr)
    have "total_ok tq oa1 l1 (xs @ ys)"
      using QD(4) [OF i] data by (auto simp: total_ok_def qi l1(2) unat_sat_sub same_data_def)
    then show "queue_ok oa2 (lnd (ob_level_arena b') i) (xs @ ys) \<and> total_ok tq oa2 (lnd (ob_level_arena b') i) (xs @ ys)"
      if "i \<in> live lv'"
      using lnd [OF that] len d by (intro queue_frame [OF l1(1)]) (auto intro!: on2)
    show "set (xs @ ys) \<inter> set (n # fo) = {}" using d fo(2) by auto
  qed
  moreover have "indexed oa2 (nodes lv' ?qs) (order_map (ob_order_index b'))"
  proof -
    have "set (?qs j) = set (qs j) - {n}" if "j \<in> live lv" for j
      using that apart [of j] d qi by (cases "j = i") auto
    moreover have "nodes lv' ?qs = nodes lv ?qs" using sub unfolding nodes_def by fastforce
    ultimately have "nodes lv' ?qs = nodes lv qs - {n}" by (auto simp: nodes_def)
    moreover have "node_like oa oa2 m" if "m \<in> nodes lv qs - {n}" for m
      using that on2 [of m] node_like_same(2) [OF data, of m] by (simp add: node_like_def)
    ultimately show ?thesis
      using indexed_cong [OF indexed_remove [OF QD(13), of "{n}"]] n
      by (simp add: b'(3) restrict_complement_singleton_eq)
  qed
  ultimately show "queues_ok tq b' lv' ?qs (n # fo)"
    using QD(2) len b'(2,4) dl by (simp add: queues_ok_def b'(1) oa2_def)
  show "qdata (ob_order_arena b') (?qs j) = qdata oa (?qs j)" if "j \<in> live lv'" for j
    using dat by (simp add: b'(1) oa2_def [symmetric] qdata_def)
qed

lemma remove_id_append: "remove_id oid (ls @ ms) = remove_id oid ls @ remove_id oid ms"
  by (simp add: remove_id_def)

lemma remove_id_absl:
  assumes inj: "inj_on (node_id (ob_order_arena b)) (nodes lv qs)" and sub: "set (ls @ i # ms) \<subseteq> live lv"
    and dist: "distinct (ls @ i # ms)"
    and dj: "\<And>j. j \<in> live lv \<Longrightarrow> j \<noteq> i \<Longrightarrow> n \<notin> set (qs j)"
    and qi: "qs i = xs @ n # ys" "distinct (qs i)" and ne: "\<And>j. j \<in> live lv \<Longrightarrow> qs j \<noteq> []"
  shows "remove_id (node_id (ob_order_arena b) n) (absl b qs (ls @ i # ms)) =
     absl b qs ls @ (if xs @ ys = [] then [] else [(lprice (ob_level_arena b) i, qdata (ob_order_arena b) (xs @ ys))]) @ absl b qs ms"
proof -
  let ?oa = "ob_order_arena b"
  have n: "n \<in> nodes lv qs" unfolding nodes_def by (rule UN_I [of i]) (use sub qi in auto)
  have ids: "node_id ?oa m \<noteq> node_id ?oa n" if "m \<in> set (qs j)" "j \<in> live lv" "m \<noteq> n" for m j
    using inj_onD [OF inj, of m n] n that by (auto simp: nodes_def)
  have keep: "remove_id (node_id ?oa n) (absl b qs js) = absl b qs js" if "set js \<subseteq> live lv" "i \<notin> set js" for js
  proof (rule remove_id_absent)
    show "\<forall>l\<in>set (absl b qs js). snd l \<noteq> []" using that ne by (auto simp: absl_def)
    show "node_id ?oa n \<notin> resting_id ` set (flat (absl b qs js))"
    proof
      assume "node_id ?oa n \<in> resting_id ` set (flat (absl b qs js))"
      then obtain j m where j: "j \<in> set js" "m \<in> set (qs j)" "node_id ?oa m = node_id ?oa n"
        by (auto simp: set_absl qdata_def resting_id_def node_id_def)
      with that have "j \<in> live lv" "j \<noteq> i" by auto
      with ids [OF j(2)] dj [of j] j show False by blast
    qed
  qed
  have f: "filter (\<lambda>x. resting_id x \<noteq> node_id ?oa n) (qdata ?oa zs) = qdata ?oa zs"
    if "set zs \<subseteq> set (qs i)" "n \<notin> set zs" for zs
  proof (rule filter_True, rule ballI)
    fix y assume "y \<in> set (qdata ?oa zs)"
    then obtain m where "m \<in> set zs" "resting_id y = node_id ?oa m"
      by (auto simp: qdata_def resting_id_def node_id_def)
    with that ids [of m i] sub show "resting_id y \<noteq> node_id ?oa n" by auto
  qed
  have "filter (\<lambda>x. resting_id x \<noteq> node_id ?oa n) (qdata ?oa (qs i)) = qdata ?oa (xs @ ys)"
  proof -
    have "set xs \<subseteq> set (qs i)" "set ys \<subseteq> set (qs i)" "n \<notin> set xs" "n \<notin> set ys" using qi by auto
    with f [of xs] f [of ys] show ?thesis by (simp add: qi(1)) (simp add: resting_id_def node_id_def)
  qed
  then have "remove_id (node_id ?oa n) (absl b qs [i]) =
      (if xs @ ys = [] then [] else [(lprice (ob_level_arena b) i, qdata ?oa (xs @ ys))])"
    by (simp add: remove_id_def absl_def)
  moreover have "absl b qs (ls @ i # ms) = absl b qs ls @ absl b qs [i] @ absl b qs ms"
    by (simp add: absl_def)
  ultimately show ?thesis
    using keep [of ls] keep [of ms] sub dist by (simp add: remove_id_append)
qed

text \<open>
  The parts of \<open>remove_entry\<close>: the order leaves its queue and an emptied level the ladder; the node goes back to the
  arena; and what is left is the specification's book without the order.
\<close>

lemma cut_level_ok:
  assumes L: "ladders_ok b lv fl" and Q: "queues_ok tq b lv qs fo" and lv: "lv s = ls @ i # ms"
    and qi: "qs i = xs @ n # ys" and p: "lprice (ob_level_arena b) i = p"
  defines "lv' \<equiv> if xs @ ys = [] then lv(s := ls @ ms) else lv"
    and "fl' \<equiv> if xs @ ys = [] then i # fl else fl"
  shows "\<exists>l1 oa1 b1 b2. unlink_order (lnd (ob_level_arena b) i) n (ob_order_arena b) = Some (l1, oa1) \<and>
     b1 = b\<lparr>ob_level_arena := lset (ob_level_arena b) i (\<lambda>_. l1), ob_order_arena := oa1\<rparr> \<and>
     (if pl_is_empty l1 then drop_level b1 i p s else Some b1) = Some b2 \<and>
     queue_ok oa1 l1 (xs @ ys) \<and>
     pl_total_qty l1 = sat_sub (pl_total_qty (lnd (ob_level_arena b) i)) (ord_qty (on_order (ond (ob_order_arena b) n))) \<and>
     same_data (ob_order_arena b) oa1 \<and> (\<forall>j. j \<notin> set (xs @ ys) \<longrightarrow> ond oa1 j = ond (ob_order_arena b) j) \<and>
     ladders_ok b2 lv' fl' \<and> live lv' = live lv - (if xs @ ys = [] then {i} else {}) \<and>
     (\<forall>j\<in>live lv'. lprice (ob_level_arena b2) j = lprice (ob_level_arena b) j \<and>
        same_queue (if j = i then l1 else lnd (ob_level_arena b) j) (lnd (ob_level_arena b2) j)) \<and>
     ob_order_arena b2 = oa1 \<and> ob_order_index b2 = ob_order_index b \<and>
     ob_client_order_index b2 = ob_client_order_index b \<and> ob_trade_id_counter b2 = ob_trade_id_counter b \<and>
     ob_order_id_counter b2 = ob_order_id_counter b \<and> ob_symbol b2 = ob_symbol b"
proof -
  let ?la = "ob_level_arena b" and ?oa = "ob_order_arena b"
  have i: "i \<in> live lv" using lv live_side [of i lv s] by simp
  define l1 where "l1 = (lnd ?la i)\<lparr>pl_head_order := hd_or (xs @ ys) NULL_IDX, pl_tail_order := last_or (xs @ ys) NULL_IDX,
      pl_total_qty := sat_sub (pl_total_qty (lnd ?la i)) (ord_qty (on_order (ond ?oa n))),
      pl_order_count := sat_sub (pl_order_count (lnd ?la i)) 1\<rparr>"
  obtain oa1 where un: "unlink_order (lnd ?la i) n ?oa = Some (l1, oa1)" "queue_ok oa1 l1 (xs @ ys)"
    "same_data ?oa oa1" "\<And>j. j \<notin> set (xs @ ys) \<Longrightarrow> ond oa1 j = ond ?oa j"
    by (rule unlink_order_ok [OF queues_okD(3) [OF Q i, unfolded qi], folded l1_def]) (rule that)
  have tot: "pl_total_qty l1 = sat_sub (pl_total_qty (lnd ?la i)) (ord_qty (on_order (ond ?oa n)))" by (simp add: l1_def)
  have emp: "pl_is_empty l1 \<longleftrightarrow> xs @ ys = []" by (rule is_empty_iff [OF un(2)])
  define b1 where "b1 = b\<lparr>ob_level_arena := lset ?la i (\<lambda>_. l1), ob_order_arena := oa1\<rparr>"
  have ll: "level_like (lnd ?la i) l1" by (simp add: l1_def level_like_def)
  have L1: "ladders_ok b1 lv fl"
    by (rule ladders_frame [OF L]) (simp_all add: b1_def same_ladder_lset [OF ll])
  have at: "lprice (ob_level_arena b1) j = lprice ?la j \<and>
      same_queue (if j = i then l1 else lnd ?la j) (lnd (ob_level_arena b1) j)" for j
    by (simp add: b1_def l1_def)
  show ?thesis
  proof (cases "xs @ ys = []")
    case False
    then have e: "lv' = lv" "fl' = fl" "(if xs @ ys = [] then {i} else {}) = {}" "\<not> pl_is_empty l1"
      by (simp_all only: lv'_def fl'_def emp if_False not_False_eq_True)
    then show ?thesis
      unfolding e using un tot L1 at
      by (intro exI [of _ l1] exI [of _ oa1] exI [of _ b1]) (simp, simp add: b1_def)
  next
    case True
    have "lprice (ob_level_arena b1) i = p" using at p by simp
    from drop_level_ladders [of b1 lv fl s ls i ms, OF L1 lv this] obtain b2 where
      d: "drop_level b1 i p s = Some b2" "ladders_ok b2 lv' fl'" "live lv' = live lv - {i}"
      and keep: "\<And>j. j \<noteq> i \<Longrightarrow> lprice (ob_level_arena b2) j = lprice (ob_level_arena b1) j \<and>
        same_queue (lnd (ob_level_arena b1) j) (lnd (ob_level_arena b2) j)"
      and b2: "ob_order_arena b2 = ob_order_arena b1" "ob_order_index b2 = ob_order_index b1"
      "ob_client_order_index b2 = ob_client_order_index b1" "ob_trade_id_counter b2 = ob_trade_id_counter b1"
      "ob_order_id_counter b2 = ob_order_id_counter b1" "ob_symbol b2 = ob_symbol b1"
      using True by (auto simp: lv'_def fl'_def)
    have "lprice (ob_level_arena b2) j = lprice ?la j \<and>
        same_queue (if j = i then l1 else lnd ?la j) (lnd (ob_level_arena b2) j)" if "j \<in> live lv'" for j
      using that d(3) keep [of j] by (simp add: b1_def)
    with True un tot emp d b2 show ?thesis
      by (intro exI [of _ l1] exI [of _ oa1] exI [of _ b1] exI [of _ b2]) (simp, simp add: b1_def)
  qed
qed

lemma removed_sides:
  fixes b b' :: OrderBook and lv :: "bool \<Rightarrow> u32 list" and ls ms xs ys :: "u32 list"
    and s :: bool and n :: u32
  defines "lv' \<equiv> if xs @ ys = [] then lv(s := ls @ ms) else lv"
    and "x \<equiv> (on_order (ond (ob_order_arena b) n), on_client_id (ond (ob_order_arena b) n))"
  assumes A: "book_abs tq b B lv qs fo fl" and lv: "lv s = ls @ i # ms" and qi: "qs i = xs @ n # ys"
    and s: "s = (ord_side (on_order (ond (ob_order_arena b) n)) = Side_as Sell)"
    and price: "\<And>j. j \<in> live lv' \<Longrightarrow> lprice (ob_level_arena b') j = lprice (ob_level_arena b) j"
    and dat: "\<And>j. j \<in> live lv' \<Longrightarrow>
        qdata (ob_order_arena b') ((qs(i := xs @ ys)) j) = qdata (ob_order_arena b) ((qs(i := xs @ ys)) j)"
  shows "remove_id (resting_id x) (aside s B) = absl b' (qs(i := xs @ ys)) (lv' s)"
    "aside t (aremove B x) = absl b' (qs(i := xs @ ys)) (lv' t)"
proof -
  let ?la = "ob_level_arena b" and ?oa = "ob_order_arena b" and ?qs = "qs(i := xs @ ys)"
  have L: "ladders_ok b lv fl" and Q: "queues_ok tq b lv qs fo" and ne: "\<And>i. i \<in> live lv \<Longrightarrow> qs i \<noteq> []"
    and as: "\<And>s. aside s B = absl b qs (lv s)"
    using A by (simp_all add: book_abs_def book_state_def)
  note QD = queues_okD [OF Q]
  have il: "i \<in> live lv" using lv live_side [of i lv s] by simp
  have dist: "distinct (ls @ i # ms)" using chain_okD(3) [OF ladders_okD(3) [OF L, of s]] lv by simp
  have ab: "absl b' ?qs (lv' u) = map (\<lambda>j. (lprice ?la j, qdata ?oa (?qs j))) (lv' u)" for u
    unfolding absl_def
  proof (rule map_cong [OF refl])
    fix j assume "j \<in> set (lv' u)"
    then have j: "j \<in> live lv'" by (rule live_side)
    show "(lprice (ob_level_arena b') j, qdata (ob_order_arena b') (?qs j)) = (lprice ?la j, qdata ?oa (?qs j))"
      by (simp only: price [OF j] dat [OF j])
  qed
  have "remove_id (node_id ?oa n) (absl b qs (ls @ i # ms)) =
    absl b qs ls @ (if xs @ ys = [] then [] else [(lprice ?la i, qdata ?oa (xs @ ys))]) @ absl b qs ms"
  proof (rule remove_id_absl [OF QD(8) _ dist _ qi _ ne])
    show "set (ls @ i # ms) \<subseteq> live lv" using live_side [of _ lv s] lv by auto
    show "n \<notin> set (qs j)" if "j \<in> live lv" "j \<noteq> i" for j using QD(6) [OF il that(1)] that(2) qi by auto
    show "distinct (qs i)" using queue_okD(4) [OF QD(3) [OF il]] .
  qed
  also have "\<dots> = absl b' ?qs (lv' s)"
    unfolding ab using dist lv by (auto simp: lv'_def absl_def)
  finally show rem: "remove_id (resting_id x) (aside s B) = absl b' ?qs (lv' s)"
    unfolding as lv x_def resting_id_def node_id_def fst_conv .
  have "i \<notin> set (lv (\<not> s))" using ladders_disjoint [OF L, of s] lv by auto
  then have "absl b' ?qs (lv' (\<not> s)) = aside (\<not> s) B"
    unfolding ab by (auto simp: lv'_def as absl_def)
  with rem show "aside t (aremove B x) = absl b' ?qs (lv' t)"
    by (cases "t = s") (auto simp: aremove_def Let_def x_def s)
qed

text \<open>Where an order of the book is: in the level of its price, on the ladder of its side.\<close>

lemma located:
  assumes A: "book_abs tq b B lv qs fo fl" and B: "abook_ok B" and n: "n \<in> nodes lv qs"
  defines "r \<equiv> on_order (ond (ob_order_arena b) n)"
  shows "\<exists>i ls ms xs ys. lv (ord_side r = Side_as Sell) = ls @ i # ms \<and> qs i = xs @ n # ys \<and>
     lprice (ob_level_arena b) i = ord_price r"
proof -
  from n obtain i t where it: "i \<in> set (lv t)" "n \<in> set (qs i)" by (auto simp: nodes_def live_def)
  let ?l = "(lprice (ob_level_arena b) i, qdata (ob_order_arena b) (qs i))"
  have "?l \<in> set (aside t B)" using it(1) A by (simp add: book_abs_def absl_def)
  then have "level_ok t ?l" using B by (simp add: abook_ok_def ladder_ok_def)
  moreover have "(r, on_client_id (ond (ob_order_arena b) n)) \<in> set (qdata (ob_order_arena b) (qs i))"
    using it(2) by (auto simp: qdata_def r_def)
  ultimately have "lprice (ob_level_arena b) i = ord_price r" "t = (ord_side r = Side_as Sell)"
    by (auto simp: level_ok_def)
  with it show ?thesis by (meson split_list)
qed

lemma remove_entry_ok:
  assumes A: "book_abs tq b B lv qs fo fl" and B: "abook_ok B" and n: "n \<in> nodes lv qs"
  defines "x \<equiv> (on_order (ond (ob_order_arena b) n), on_client_id (ond (ob_order_arena b) n))"
    and "entry \<equiv> index_entry (ob_order_arena b) n"
  shows "\<exists>b' lv' qs' fo' fl'. remove_entry b entry = Some b' \<and>
     book_abs tq b' (aremove B x) lv' qs' fo' fl' \<and> ob_symbol b' = ob_symbol b"
proof -
  let ?la = "ob_level_arena b" and ?oa = "ob_order_arena b"
  define r where "r = on_order (ond ?oa n)"
  define s where "s = (ord_side r = Side_as Sell)"
  have L: "ladders_ok b lv fl" and Q: "queues_ok tq b lv qs fo" and ne: "\<And>i. i \<in> live lv \<Longrightarrow> qs i \<noteq> []"
    and as: "\<And>s. aside s B = absl b qs (lv s)"
    using A by (simp_all add: book_abs_def book_state_def)
  note LD = ladders_okD [OF L] and QD = queues_okD [OF Q]
  from located [OF A B n, folded r_def] obtain i ls ms xs ys where
    lv: "lv s = ls @ i # ms" and qi: "qs i = xs @ n # ys" and p: "lprice ?la i = ord_price r"
    unfolding s_def by blast
  have il: "i \<in> live lv" using lv live_side [of i lv s] by simp
  define lv' where "lv' = (if xs @ ys = [] then lv(s := ls @ ms) else lv)"
  define fl' where "fl' = (if xs @ ys = [] then i # fl else fl)"
  from cut_level_ok [OF L Q lv qi p, folded lv'_def fl'_def r_def] obtain l1 oa1 b1 b2 where
    cut: "unlink_order (lnd ?la i) n ?oa = Some (l1, oa1)"
      "b1 = b\<lparr>ob_level_arena := lset ?la i (\<lambda>_. l1), ob_order_arena := oa1\<rparr>"
      "(if pl_is_empty l1 then drop_level b1 i (ord_price r) s else Some b1) = Some b2"
    and q1: "queue_ok oa1 l1 (xs @ ys)" "pl_total_qty l1 = sat_sub (pl_total_qty (lnd ?la i)) (ord_qty r)"
      "same_data ?oa oa1" "\<And>j. j \<notin> set (xs @ ys) \<Longrightarrow> ond oa1 j = ond ?oa j"
    and L2: "ladders_ok b2 lv' fl'" and live': "live lv' = live lv - (if xs @ ys = [] then {i} else {})"
    and keep: "\<And>j. j \<in> live lv' \<Longrightarrow> lprice (ob_level_arena b2) j = lprice ?la j \<and>
        same_queue (if j = i then l1 else lnd ?la j) (lnd (ob_level_arena b2) j)"
    and b2: "ob_order_arena b2 = oa1" "ob_order_index b2 = ob_order_index b"
      "ob_client_order_index b2 = ob_client_order_index b" "ob_trade_id_counter b2 = ob_trade_id_counter b"
      "ob_order_id_counter b2 = ob_order_id_counter b" "ob_symbol b2 = ob_symbol b"
    by blast
  obtain oi where oi: "foi_remove (ob_order_index b) (ord_id r) = Some (oi, order_map (ob_order_index b) (ord_id r))"
    "order_index_ok oi" "order_map oi = (order_map (ob_order_index b))(node_id ?oa n := None)"
    using foi_remove_ok [OF QD(9), of "ord_id r"] by (auto simp: node_id_def r_def)
  obtain ci where ci: "fci_remove (ob_client_order_index b) (ord_user_id r) (ord_client_order_id r) =
      Some (ci, client_map (ob_client_order_index b) (ord_user_id r, ord_client_order_id r))" "client_index_ok ci"
    "client_map ci = (client_map (ob_client_order_index b))(node_key ?oa n := None)"
    using fci_remove_ok [OF QD(11), of "ord_user_id r" "ord_client_order_id r"] by (auto simp: node_key_def r_def)
  define b' where "b' = b2\<lparr>ob_order_arena := oa_deallocate oa1 n, ob_order_index := oi, ob_client_order_index := ci\<rparr>"
  let ?qs = "qs(i := xs @ ys)"
  have gone: "j = i \<and> xs @ ys = []" if "j \<in> live lv - live lv'" for j using that live' by (auto split: if_splits)
  have sub: "live lv' \<subseteq> live lv" using live' by auto
  have b': "ob_order_arena b' = oa_deallocate oa1 n" "order_index_ok (ob_order_index b')"
    "order_map (ob_order_index b') = (order_map (ob_order_index b))(node_id ?oa n := None)"
    "client_index_ok (ob_client_order_index b')"
    using oi(2,3) ci(2) by (simp_all add: b'_def)
  have same: "same_queue (if j = i then l1 else lnd ?la j) (lnd (ob_level_arena b') j)" if "j \<in> live lv'" for j
    using keep [OF that] by (simp add: b'_def)
  note R = remove_node_ok [OF Q il qi q1(1) q1(2) [unfolded r_def] q1(3,4) b' sub gone same]
  have Q': "queues_ok tq b' lv' ?qs (n # fo)" by (rule R(1))
  have dat: "qdata (ob_order_arena b') (?qs j) = qdata ?oa (?qs j)" if "j \<in> live lv'" for j by (rule R(2) [OF _ _ _ that])
  have price: "lprice (ob_level_arena b') j = lprice ?la j" if "j \<in> live lv'" for j
    using keep [OF that] by (simp add: b'_def)
  note sides = removed_sides [OF A lv qi s_def [unfolded r_def] price [unfolded lv'_def] dat [unfolded lv'_def],
      folded lv'_def x_def]
  have ab: "aside t (aremove B x) = absl b' ?qs (lv' t)" for t by (rule sides(2)) assumption+
  have "remove_id (resting_id x) (aside s B) = absl b' ?qs (lv' s)" by (rule sides(1)) assumption+
  then have "length fl' = length fl + (length (aside s B) - length (remove_id (resting_id x) (aside s B)))"
    by (simp add: as absl_def lv fl'_def lv'_def)
  then have "book_abs tq b' (aremove B x) lv' ?qs (n # fo) fl'"
    using A L2 Q' ne live' ab ci(3) unfolding book_abs_def book_state_def
    by (auto simp: aremove_def Let_def x_def resting_key_def node_key_def b'_def b2 ladders_ok_def s_def r_def)
  moreover have "fpi_lookup (ob_price_index b) (ord_price r) = Some (Some i)"
    using fpi_lookup_eq [OF LD(6)] LD(7) [of "ord_price r" i] il p by simp
  then have "remove_entry b entry = Some b'"
    using live_range [OF L il] oi(1) ci(1) cut
    by (cases "pl_is_empty l1")
      (simp_all add: remove_entry_def entry_def index_entry_def Let_def b2 b'_def s_def r_def)
  ultimately show ?thesis by (auto simp: b'_def b2)
qed

lemma find_entry_abs:
  assumes A: "book_abs tq b B lv qs fo fl" and B: "abook_ok B"
  shows "\<exists>entry. find_entry b uid oid = Some entry \<and> (cancel_target B uid oid = None \<longrightarrow> entry = None) \<and>
     (\<forall>x. cancel_target B uid oid = Some x \<longrightarrow> (\<exists>n\<in>nodes lv qs. entry = Some (index_entry (ob_order_arena b) n) \<and>
        x = (on_order (ond (ob_order_arena b) n), on_client_id (ond (ob_order_arena b) n))))"
proof -
  let ?oa = "ob_order_arena b"
  have Q: "queues_ok tq b lv qs fo" using A by (simp add: book_abs_def book_state_def)
  note QD = queues_okD [OF Q]
  have ol: "foi_lookup (ob_order_index b) k = Some (order_map (ob_order_index b) k)" for k
    by (rule foi_lookup_eq [OF QD(9)])
  have cl: "fci_lookup (ob_client_order_index b) u c = Some (ab_clients B (u, c))" for u c
    using fci_lookup_eq [OF QD(11)] A by (simp add: book_abs_def)
  define entry where "entry = (case order_map (ob_order_index b) oid of
      Some e \<Rightarrow> Some e
    | None \<Rightarrow> (case ab_clients B (uid, oid) of
                 Some exchange_id \<Rightarrow> order_map (ob_order_index b) exchange_id
               | None \<Rightarrow> None))"
  have find: "order_map (ob_order_index b) k = None" if "find_resting B k = None" for k
    using lookup_abs(1) [OF A B that] .
  have entry_none: "entry = None" if "cancel_target B uid oid = None"
    using that find by (auto simp: cancel_target_def entry_def split: option.splits)
  have entry_some: "\<exists>n\<in>nodes lv qs. entry = Some (index_entry ?oa n) \<and>
      x = (on_order (ond ?oa n), on_client_id (ond ?oa n))" if x: "cancel_target B uid oid = Some x" for x
  proof (cases "find_resting B oid")
    case (Some y)
    with x have "find_resting B oid = Some x" by (simp add: cancel_target_def)
    from lookup_abs(2) [OF A B this] show ?thesis by (auto simp: entry_def)
  next
    case None
    with x obtain k where k: "ab_clients B (uid, oid) = Some k" "find_resting B k = Some x"
      by (auto simp: cancel_target_def split: option.splits)
    from lookup_abs(2) [OF A B k(2)] show ?thesis by (auto simp: entry_def find [OF None] k(1))
  qed
  have run: "find_entry b uid oid = Some entry"
    by (auto simp: find_entry_def entry_def ol cl split: option.splits)
  with entry_none entry_some show ?thesis by (intro exI [of _ entry]) simp
qed

lemma cancel_order_sim:
  assumes A: "book_abs tq b B lv qs fo fl" and B: "abook_ok B" and E: "acancel B uid oid = (B', r)"
  shows "\<exists>b' lv' qs' fo' fl'. cancel_order b uid oid = Some (b', r) \<and> book_abs tq b' B' lv' qs' fo' fl' \<and>
           ob_symbol b' = ob_symbol b"
proof -
  let ?oa = "ob_order_arena b"
  have Q: "queues_ok tq b lv qs fo" using A by (simp add: book_abs_def book_state_def)
  note QD = queues_okD [OF Q]
  obtain entry where run: "find_entry b uid oid = Some entry" and entry_none: "cancel_target B uid oid = None \<Longrightarrow> entry = None"
    and entry_some: "\<And>x. cancel_target B uid oid = Some x \<Longrightarrow> \<exists>n\<in>nodes lv qs. entry = Some (index_entry ?oa n) \<and>
        x = (on_order (ond ?oa n), on_client_id (ond ?oa n))"
    using find_entry_abs [OF A B, of uid oid] by (elim exE conjE) (rule that; simp)
  show ?thesis
  proof (cases "cancel_target B uid oid")
    case None
    with E have "B' = B" "r = Inl OrderNotFound" by (simp_all add: acancel_def)
    with A entry_none [OF None] run show ?thesis by (auto simp: cancel_order_def)
  next
    case (Some x)
    from entry_some [OF Some] obtain n where n: "n \<in> nodes lv qs" "entry = Some (index_entry ?oa n)"
      "x = (on_order (ond ?oa n), on_client_id (ond ?oa n))" by blast
    have e: "fi_user_id (index_entry ?oa n) = ord_user_id (fst x)" "fi_node_idx (index_entry ?oa n) = n"
      "fi_order_id (index_entry ?oa n) = ord_id (on_order (ond ?oa n))"
      using n(3) by (simp_all add: index_entry_def Let_def)
    show ?thesis
    proof (cases "ord_user_id (fst x) = uid")
      case False
      with E Some have "B' = B" "r = Inl Unauthorized" by (simp_all add: acancel_def)
      with A run n(2) False e show ?thesis by (auto simp: cancel_order_def)
    next
      case True
      with E Some have B': "B' = aremove B x" "r = Inr (fst x)" by (simp_all add: acancel_def)
      have on: "oget ?oa n = Some (ond ?oa n)" "on_active (ond ?oa n)"
        using nodes_range [OF Q n(1)] QD(7) [OF n(1)] by simp_all
      from remove_entry_ok [OF A B n(1), folded n(3)] obtain b' lv' qs' fo' fl' where
        ab: "book_abs tq b' (aremove B x) lv' qs' fo' fl'" "ob_symbol b' = ob_symbol b"
        "remove_entry b (index_entry ?oa n) = Some b'" by blast
      have "cancel_order b uid oid = Some (b', Inr (fst x))"
        using run on e True n(2) ab(3) by (simp add: cancel_order_def Let_def n(3))
      with ab B' show ?thesis by blast
    qed
  qed
qed

end
