(* ===== verification/Book_Refine.thy ===== *)
theory Book_Refine
  imports Book_Cancel
begin

text \<open>
  The order book of \<open>Order_Book\<close> implements the abstract book of \<open>Book_Spec\<close>: \<open>book_rel\<close> relates the
  two, and every operation of the code returns (no index out of range, no endless loop) with the
  result of its specification, in related states. With the flag of \<open>book_rel\<close> set, the cached level
  totals are exact too.
\<close>

section \<open>Processing and market data\<close>

lemma book_new_abs: "book_abs tq (OrderBook_new sy) abook_new (\<lambda>_. []) (\<lambda>_. [])
    (map of_nat [0..<MAX_ARENA_ORDERS]) (map of_nat [0..<MAX_PRICE_LEVELS])"
proof -
  have "chain_ok s (PriceLevelArena_new MAX_PRICE_LEVELS) NULL_IDX []" for s
    by (simp add: chain_ok_def PriceLevelArena_new_def MAX_PRICE_LEVELS_def)
  then show ?thesis
    using oa_free_new [of MAX_ARENA_ORDERS] la_free_new [of MAX_PRICE_LEVELS]
    by (simp add: book_abs_def book_state_def ladders_ok_def queues_ok_def queues_at_def indexed_def live_def nodes_def absl_def
        OrderBook_new_def abook_new_def aside_def best_def MAX_ARENA_ORDERS_def MAX_PRICE_LEVELS_def
        OrderArena_new_def PriceLevelArena_new_def)
qed

lemma book_new_rel: "book_rel tq (OrderBook_new sy) abook_new"
  unfolding book_rel_def using book_new_abs abook_new_ok by blast

lemma cancel_order_rel:
  assumes "book_rel tq b B" "acancel B uid oid = (B', r)"
  shows "\<exists>b'. cancel_order b uid oid = Some (b', r) \<and> book_rel tq b' B' \<and> ob_symbol b' = ob_symbol b"
proof -
  from assms(1) obtain lv qs fo fl where B: "abook_ok B" and A: "book_abs tq b B lv qs fo fl"
    by (auto simp: book_rel_def)
  from cancel_order_sim [OF A B assms(2)] acancel_ok [OF B assms(2)] show ?thesis
    unfolding book_rel_def by blast
qed

lemma fills_qty_le: "fills cid ctr inc q i q' ts rm \<Longrightarrow> unat (ord_qty i) \<le> unat (ord_qty inc)"
  using fills_taker_qty by fastforce

lemma sweep_sim:
  assumes A: "book_abs tq b B lv qs fo fl" and E: "asweep s ot cid B inc = (B', i, ts, stp)"
  shows "\<exists>b' lv' qs' fo' fl'. sweep s ot cid b inc trades = Some (b', i, trades @ ts, stp) \<and>
           book_abs tq b' B' lv' qs' fo' fl' \<and> ob_symbol b' = ob_symbol b"
proof -
  from E obtain ls rm where S: "sweep_levels s ot cid (ab_trade_ctr B) inc (aside (\<not> s) B) = (i, ls, ts, rm, stp)"
    and B': "B' = (set_aside (\<not> s) ls B)
             \<lparr>ab_clients := ab_clients B |` (- resting_key ` set rm),
              ab_free_orders := ab_free_orders B + length rm,
              ab_free_levels := ab_free_levels B + (length (aside (\<not> s) B) - length ls),
              ab_trade_ctr := ab_trade_ctr B + of_nat (length ts)\<rparr>"
    by (auto simp: asweep_def split: prod.splits)
  have st: "book_state tq b lv qs fo fl" and as: "\<And>s. aside s B = absl b qs (lv s)"
    and len: "ab_clients B = client_map (ob_client_order_index b)" "ab_free_orders B = length fo"
      "ab_free_levels B = length fl" "ab_trade_ctr B = ob_trade_id_counter b" "ab_order_ctr B = ob_order_id_counter b"
    using A by (simp_all add: book_abs_def)
  obtain b' lv' qs' fo' fl' where run: "sweep s ot cid b inc trades = Some (b', i, trades @ ts, stp)"
     "book_state tq b' lv' qs' fo' fl'" "absl b' qs' (lv' (\<not> s)) = ls" "absl b' qs' (lv' s) = absl b qs (lv s)"
     "length fo' = length fo + length rm" "length fl' + length ls = length fl + length (lv (\<not> s))"
     "client_map (ob_client_order_index b') = client_map (ob_client_order_index b) |` (- resting_key ` set rm)"
     "ob_trade_id_counter b' = ob_trade_id_counter b + of_nat (length ts)"
     "ob_order_id_counter b' = ob_order_id_counter b" "ob_symbol b' = ob_symbol b"
    using sweep_ok [OF st S [unfolded as len(4)]] by blast
  have "length ls \<le> length (lv (\<not> s))"
  proof -
    obtain k where "map fst ls = drop k (map fst (aside (\<not> s) B))"
      using sweep_levels_suffix [OF S] by blast
    then have "length ls = length (drop k (map fst (aside (\<not> s) B)))" by (metis length_map)
    then show ?thesis by (simp add: as absl_def)
  qed
  moreover have "aside t B' = absl b' qs' (lv' t)" for t
    using run(3,4) as by (cases "t = s") (auto simp: B')
  ultimately have "book_abs tq b' B' lv' qs' fo' fl'"
    using run len by (simp add: book_abs_def B') (simp add: as absl_def)
  with run show ?thesis by blast
qed

lemma ob_process_cancel:
  assumes R: "book_rel tq b B" and C: "order_type_of order = Cancel" and E: "aprocess B order cid = (B', ts, r)"
  shows "\<exists>b'. ob_process b order cid trades = Some (b', trades @ ts, r) \<and> book_rel tq b' B' \<and>
           ob_symbol b' = ob_symbol b"
proof -
  let ?id = "if ord_id order \<noteq> 0 then ord_id order else ord_client_order_id order"
  obtain c where c: "acancel B (ord_user_id order) ?id = (B', c)" "ts = []"
    using aprocess_cancel [OF C E] by blast
  then have r: "r = (case c of Inl e \<Rightarrow> Inl e | Inr cancelled \<Rightarrow>
      Inr \<lparr>er_executed_qty = 0, er_remaining_qty = ord_qty cancelled, er_stp_triggered = False\<rparr>)"
    using E C by (auto simp: aprocess_def split: sum.splits)
  obtain b' where b': "cancel_order b (ord_user_id order) ?id = Some (b', c)" "book_rel tq b' B'"
    "ob_symbol b' = ob_symbol b"
    using cancel_order_rel [OF R c(1)] by blast
  have "ob_process b order cid trades = Some (b', trades @ ts, r)"
    using b'(1) C by (simp add: ob_process_def Let_def r c(2))
  with b' show ?thesis by blast
qed

lemma ob_process_execute:
  assumes R: "book_rel tq b B" and False: "order_type_of order \<noteq> Cancel" and new: "order_type_of order = Limit \<Longrightarrow> fresh B order"
    and room: "tq \<Longrightarrow> level_qty (aside (ord_side order = Side_as Sell) B) (ord_price order) + unat (ord_qty order) < 2 ^ 64"
    and E: "aprocess B order cid = (B', ts, r)"
  shows "\<exists>b'. ob_process b order cid trades = Some (b', trades @ ts, r) \<and> book_rel tq b' B' \<and>
           ob_symbol b' = ob_symbol b"
proof -
  let ?s = "ord_side order = Side_as Sell" and ?B1 = "fst (astamp B order)"
  from R obtain lv qs fo fl where B: "abook_ok B" and A: "book_abs tq b B lv qs fo fl"
    by (auto simp: book_rel_def)
  obtain B2 i stp where S: "asweep ?s (order_type_of order) cid ?B1 (stamped B order) = (B2, i, ts, stp)"
    and rep: "\<And>rep. r = Inr rep \<Longrightarrow> rep = \<lparr>er_executed_qty = sat_sub (ord_qty order) (ord_qty i),
        er_remaining_qty = ord_qty i, er_stp_triggered = stp\<rparr>"
    and fin: "if \<not> stp \<and> order_type_of order = Limit \<and> ord_qty i \<noteq> 0
      then \<exists>r'. arest B2 i cid ?s = (B', r') \<and> (case r' of Inl e \<Rightarrow> r = Inl e | Inr _ \<Rightarrow> \<exists>rep. r = Inr rep)
      else B' = B2 \<and> (\<exists>rep. r = Inr rep)"
    by (rule aprocess_cases [OF False E]) (rule that)
  define b1 where "b1 = fst (stamp_id b order)"
  have b1: "stamp_id b order = (b1, stamped B order)" "book_abs tq b1 ?B1 lv qs fo fl" "ob_symbol b1 = ob_symbol b"
    using A by (auto simp: b1_def stamp_id_def stamped_def astamp_eq book_abs_def book_state_def ladders_ok_def
        queues_ok_def absl_def)
  have B1: "abook_ok ?B1" using B by (simp add: astamp_eq)
  note B2 = asweep_ok [OF B1 S]
  obtain b2 lv2 qs2 fo2 fl2 where sw: "sweep ?s (order_type_of order) cid b1 (stamped B order) trades =
      Some (b2, i, trades @ ts, stp)" "book_abs tq b2 B2 lv2 qs2 fo2 fl2" "ob_symbol b2 = ob_symbol b1"
    using sweep_sim [OF b1(2) S] by blast
  have run: "ob_process b order cid trades =
     (if \<not> stp \<and> order_type_of order = Limit \<and> ord_qty i \<noteq> 0
      then do { (b3, r') \<leftarrow> rest_order b2 i cid ?s;
                Some (b3, trades @ ts, (case r' of Inl e \<Rightarrow> Inl e | Inr _ \<Rightarrow>
                  Inr \<lparr>er_executed_qty = sat_sub (ord_qty order) (ord_qty i),
                       er_remaining_qty = ord_qty i, er_stp_triggered = stp\<rparr>)) }
      else Some (b2, trades @ ts, Inr \<lparr>er_executed_qty = sat_sub (ord_qty order) (ord_qty i),
                       er_remaining_qty = ord_qty i, er_stp_triggered = stp\<rparr>))"
    using False b1(1) sw(1) by (auto simp: ob_process_def Let_def word_gt_0 cong: sum.case_cong)
  show ?thesis
  proof (cases "\<not> stp \<and> order_type_of order = Limit \<and> ord_qty i \<noteq> 0")
    case True
    with fin obtain r' where R': "arest B2 i cid ?s = (B', r')"
      and rr: "case r' of Inl e \<Rightarrow> r = Inl e | Inr _ \<Rightarrow> \<exists>rep. r = Inr rep" by auto
    from True S have S': "asweep ?s Limit cid ?B1 (stamped B order) = (B2, i, ts, False)" by simp
    have rs: "restable B2 i ?s"
      by (rule asweep_restable [OF B1 S']) (use True new in \<open>simp_all add: fresh_def astamp_eq\<close>)
    obtain rm where f: "fills cid (ab_trade_ctr ?B1) (stamped B order) (flat (aside (\<not> ?s) ?B1)) i (flat (aside (\<not> ?s) B2)) ts rm"
      and own: "aside ?s B2 = aside ?s ?B1"
      using S' by (rule asweep_fills)
    have i: "ord_price i = ord_price order" "unat (ord_qty i) \<le> unat (ord_qty order)"
      using fills_incoming [OF f] fills_qty_le [OF f] by auto
    have "level_qty (aside ?s B2) (ord_price i) + unat (ord_qty i) < 2 ^ 64" if tq
      using room [OF that] i own by (simp add: astamp_eq)
    from rest_order_ok [OF sw(2) B2 rs this R'] obtain b3 where
      b3: "rest_order b2 i cid ?s = Some (b3, r')" "\<exists>lv qs fo fl. book_abs tq b3 B' lv qs fo fl"
        "ob_symbol b3 = ob_symbol b2" by blast
    have "ob_process b order cid trades = Some (b3, trades @ ts, r)"
      using run True b3(1) rr rep by (auto split: sum.splits)
    with b3 arest_ok [OF B2 rs R'] sw(3) b1(3) show ?thesis by (auto simp: book_rel_def)
  next
    case no: False
    with fin have "B' = B2" "\<exists>rep. r = Inr rep" by (auto split: if_splits)
    with run no rep have "ob_process b order cid trades = Some (b2, trades @ ts, r)" by auto
    with B2 \<open>B' = B2\<close> sw b1(3) show ?thesis by (auto simp: book_rel_def)
  qed
qed

lemma ob_process_sim:
  assumes R: "book_rel tq b B" and new: "order_type_of order = Limit \<Longrightarrow> fresh B order"
    and room: "tq \<Longrightarrow> level_qty (aside (ord_side order = Side_as Sell) B) (ord_price order) + unat (ord_qty order) < 2 ^ 64"
    and E: "aprocess B order cid = (B', ts, r)"
  shows "\<exists>b'. ob_process b order cid trades = Some (b', trades @ ts, r) \<and> book_rel tq b' B' \<and>
           ob_symbol b' = ob_symbol b"
  using ob_process_cancel [OF R _ E] ob_process_execute [OF R _ new room E] by blast

text \<open>The best bid and ask and the depth snapshot, from the abstract book.\<close>

definition alevel_qty :: "alevel \<Rightarrow> u64" where
  "alevel_qty l = of_nat (qty_sum (map fst (snd l)))"

definition aquote :: "alevel list \<Rightarrow> (u64 \<times> u64) option" where
  "aquote ls = (case ls of [] \<Rightarrow> None | l # _ \<Rightarrow> Some (fst l, alevel_qty l))"

definition adepth :: "nat \<Rightarrow> alevel list \<Rightarrow> MarketDepthLevel list" where
  "adepth n ls = map (\<lambda>l. \<lparr>md_price = fst l, md_total_qty = alevel_qty l,
                          md_order_count = of_nat (length (snd l))\<rparr>) (take n ls)"

lemma total_ok_absl:
  assumes "book_abs True b B lv qs fo fl" "i \<in> live lv"
  shows "pl_total_qty (lnd (ob_level_arena b) i) =
    alevel_qty (lprice (ob_level_arena b) i, qdata (ob_order_arena b) (qs i))"
proof -
  have "unat (pl_total_qty (lnd (ob_level_arena b) i)) =
      sum_list (map (\<lambda>m. unat (ord_qty (on_order (ond (ob_order_arena b) m)))) (qs i))"
    using assms queues_okD(4) by (auto simp: book_abs_def book_state_def total_ok_def)
  also have "\<dots> = qty_sum (map fst (qdata (ob_order_arena b) (qs i)))"
    by (simp add: qdata_def o_def)
  finally have "of_nat (unat (pl_total_qty (lnd (ob_level_arena b) i))) =
      alevel_qty (lprice (ob_level_arena b) i, qdata (ob_order_arena b) (qs i))"
    by (simp only: alevel_qty_def snd_conv)
  then show ?thesis by simp
qed

lemma level_quote_ok:
  assumes A: "book_abs True b B lv qs fo fl"
  shows "level_quote (ob_level_arena b) (best s b) = Some (aquote (aside s B))"
proof -
  have L: "ladders_ok b lv fl" and as: "aside s B = absl b qs (lv s)"
    using A by (simp_all add: book_abs_def book_state_def)
  note ch = chain_okD [OF ladders_okD(3) [OF L, of s]]
  show ?thesis
  proof (cases "lv s")
    case Nil
    with ch(1) as show ?thesis by (simp add: level_quote_def aquote_def absl_def)
  next
    case (Cons i ls)
    then have "i \<in> live lv" using live_side [of i lv s] by simp
    with Cons ch(1,7) as live_range [OF L] total_ok_absl [OF A] show ?thesis
      by (auto simp: level_quote_def aquote_def absl_def)
  qed
qed

text \<open>Whatever the cached totals hold, the quotes can be read.\<close>

lemma level_quote_total:
  assumes "book_abs tq b B lv qs fo fl"
  shows "\<exists>q. level_quote (ob_level_arena b) (best s b) = Some q"
proof -
  have L: "ladders_ok b lv fl" using assms by (simp add: book_abs_def book_state_def)
  note ch = chain_okD [OF ladders_okD(3) [OF L, of s]]
  show ?thesis using ch(1,4) by (cases "lv s") (auto simp: level_quote_def)
qed

lemma get_bbo_total: "book_rel tq b B \<Longrightarrow> \<exists>q. get_bbo b = Some q"
  using level_quote_total [of tq b B _ _ _ _ False] level_quote_total [of tq b B _ _ _ _ True]
  by (fastforce simp: book_rel_def get_bbo_def best_def)

lemma get_bbo_sim: "book_rel True b B \<Longrightarrow> get_bbo b = Some (aquote (ab_bids B), aquote (ab_asks B))"
  using level_quote_ok [of b B _ _ _ _ False] level_quote_ok [of b B _ _ _ _ True]
  by (auto simp: book_rel_def get_bbo_def best_def aside_def)

lemma depth_from_ok:
  assumes A: "book_abs True b B lv qs fo fl"
    and "links (\<lambda>i. pl_next_level (lnd (ob_level_arena b) i)) pv p ls NULL_IDX" "set ls \<subseteq> live lv"
  shows "depth_from (ob_level_arena b) (hd_or ls NULL_IDX) n = Some (adepth n (absl b qs ls))"
  using assms(2,3)
proof (induction n arbitrary: ls p)
  case 0
  then show ?case by (simp add: adepth_def)
next
  case (Suc n)
  have L: "ladders_ok b lv fl" and Q: "queues_ok True b lv qs fo"
    using A by (simp_all add: book_abs_def book_state_def)
  show ?case
  proof (cases ls)
    case Nil
    then show ?thesis by (simp add: adepth_def absl_def)
  next
    case (Cons i ls')
    then have i: "i \<in> live lv" and n: "pl_next_level (lnd (ob_level_arena b) i) = hd_or ls' NULL_IDX"
      and IH: "depth_from (ob_level_arena b) (hd_or ls' NULL_IDX) n = Some (adepth n (absl b qs ls'))"
      using Suc by auto
    have "i \<noteq> NULL_IDX" "unat i < llen (ob_level_arena b)"
      using live_range [OF L i] ladders_okD(2) [OF L] in_range_not_NULL [of i "llen (ob_level_arena b)"]
      by (auto simp: MAX_PRICE_LEVELS_def)
    moreover have "pl_order_count (lnd (ob_level_arena b) i) = of_nat (length (qs i))"
      using queues_okD(3) [OF Q i] by (simp add: queue_ok_def)
    ultimately show ?thesis
      using Cons n IH total_ok_absl [OF A i] by (simp add: adepth_def absl_def)
  qed
qed

lemma get_depth_sim:
  assumes "book_rel True b B"
  shows "get_depth b n = Some (adepth n (ab_bids B), adepth n (ab_asks B))"
proof -
  from assms obtain lv qs fo fl where A: "book_abs True b B lv qs fo fl" by (auto simp: book_rel_def)
  have L: "ladders_ok b lv fl" using A by (simp add: book_abs_def book_state_def)
  have "depth_from (ob_level_arena b) (best s b) n = Some (adepth n (aside s B))" for s
  proof -
    note ch = chain_okD [OF ladders_okD(3) [OF L, of s]]
    have "set (lv s) \<subseteq> live lv" using live_side [of _ lv s] by blast
    from depth_from_ok [OF A ch(2) this] ch(1) A show ?thesis by (simp add: book_abs_def)
  qed
  from this [of False] this [of True] show ?thesis
    by (simp add: get_depth_def best_def aside_def)
qed

end
