(* ===== verification/Book_Props.thy ===== *)
theory Book_Props
  imports Book_Refine
begin

text \<open>
  What an order book promises to its callers. First the effect of a whole order on the abstract
  book; then the interface of a book as the locale \<open>book_impl\<close>, in which the guarantees of matching
  are proved for every implementation of the abstract book; then its interpretation on the code's
  \<open>OrderBook\<close> and the guarantees as theorems about \<open>ob_process\<close>, \<open>cancel_order\<close>, \<open>get_bbo\<close> and
  \<open>get_depth\<close>.
\<close>

section \<open>The effect of an order on the abstract book\<close>

lemma fill_queue_price:
  assumes "fill_queue cid ctr inc q = (i, q', ts, rm, stp)" "\<forall>x\<in>set q. ord_price (fst x) = p" "t \<in> set ts"
  shows "tr_price t = p"
proof -
  obtain x c n where "x \<in> set q" "t = mk_trade inc cid (fst x) (snd x) c n"
    using fills_trades [OF fill_queue_fills [OF assms(1)] assms(3)] by blast
  with assms(2) show ?thesis by simp
qed

text \<open>No trade is made beyond the limit of the incoming order.\<close>

lemma sweep_levels_within_limit:
  "sweep_levels s ot cid ctr inc ls = (i, ls', ts, rm, stp) \<Longrightarrow> ladder_ok s' ls \<Longrightarrow> t \<in> set ts \<Longrightarrow>
     \<not> beyond_limit s ot inc (tr_price t)"
proof (induction s ot cid ctr inc ls arbitrary: i ls' ts rm stp rule: sweep_levels.induct)
  case (2 s ot cid ctr inc p q ls)
  obtain inc1 q1 ts1 rm1 stp1 where F: "fill_queue cid ctr inc q = (inc1, q1, ts1, rm1, stp1)"
    by (metis prod_cases5)
  have stop: "\<not> (ord_qty inc = 0 \<or> beyond_limit s ot inc p)"
    using "2.prems"(1,3) by (auto split: if_splits)
  have q: "\<forall>x\<in>set q. ord_price (fst x) = p"
    using "2.prems"(2) by (simp add: ladder_ok_Cons level_ok_def)
  obtain z where z: "inc1 = inc\<lparr>ord_qty := z\<rparr>"
    using fills_incoming [OF fill_queue_fills [OF F]] by blast
  show ?case
  proof (cases "t \<in> set ts1")
    case True
    with fill_queue_price [OF F q] stop show ?thesis by simp
  next
    case False
    then have "q1 = []" using "2.prems"(1,3) F stop by (auto split: if_splits)
    with "2.prems"(1) F stop obtain ls2 ts2 rm2 where
      S: "sweep_levels s ot cid (ctr + of_nat (length ts1)) inc1 ls = (i, ls2, ts2, rm2, stp)"
      and ts: "ts = ts1 @ ts2"
      by (auto split: prod.splits)
    from False ts "2.prems"(3) have "t \<in> set ts2" by simp
    moreover have "ladder_ok s' ls" using "2.prems"(2) by (simp add: ladder_ok_Cons)
    ultimately have "\<not> beyond_limit s ot inc1 (tr_price t)"
      using "2.IH" [OF stop F [symmetric] refl refl refl \<open>q1 = []\<close> S] by simp
    then show ?thesis by (simp add: z)
  qed
qed simp

lemma arest_effect:
  assumes B: "abook_ok B" and A: "arest B order cid s = (B', r)"
  shows "aside (\<not> s) B' = aside (\<not> s) B"
    "mset (flat (aside s B')) = mset (flat (aside s B)) + (if isl r then {#} else {#(order, cid)#})"
    "ab_trade_ctr B' = ab_trade_ctr B" "ab_order_ctr B' = ab_order_ctr B"
    "\<not> isl r \<Longrightarrow> ab_clients B' = (ab_clients B)((ord_user_id order, ord_client_order_id order) \<mapsto> ord_id order)"
    "r = Inl e \<Longrightarrow> e = EngineFull \<and> (ab_free_orders B = 0 \<or> ab_free_levels B = 0)"
proof -
  have d: "distinct (map fst (aside s B))"
    using B ladder_prices_distinct by (auto simp: abook_ok_side [of B s])
  show "mset (flat (aside s B')) = mset (flat (aside s B)) + (if isl r then {#} else {#(order, cid)#})"
    using A mset_append_level [OF d, of "ord_price order" "(order, cid)"]
    by (cases "ord_price order \<in> fst ` set (aside s B)")
      (auto simp: arest_def Let_def mset_insert_level split: if_splits)
qed (use A in \<open>auto simp: arest_def Let_def split: if_splits\<close>)

text \<open>The order that rests after an execution, if any.\<close>

definition rests :: "Order \<Rightarrow> RejectReason + ExecutionReport \<Rightarrow> bool" where
  "rests order r \<longleftrightarrow> (case r of Inl _ \<Rightarrow> False
     | Inr rep \<Rightarrow> \<not> er_stp_triggered rep \<and> order_type_of order = Limit \<and> er_remaining_qty rep \<noteq> 0)"

lemma aprocess_exec:
  assumes B: "abook_ok B" and nc: "order_type_of order \<noteq> Cancel" and A: "aprocess B order cid = (B', ts, r)"
  defines "s \<equiv> ord_side order = Side_as Sell"
  obtains i rm where
    "fills cid (ab_trade_ctr B) (stamped B order) (flat (aside (\<not> s) B)) i (flat (aside (\<not> s) B')) ts rm"
    "\<And>t. t \<in> set ts \<Longrightarrow> \<not> beyond_limit s (order_type_of order) order (tr_price t)"
    "mset (flat (aside s B')) = mset (flat (aside s B)) + (if rests order r then {#(i, cid)#} else {#})"
    "\<And>rep. r = Inr rep \<Longrightarrow> er_executed_qty rep = ord_qty order - ord_qty i \<and> er_remaining_qty rep = ord_qty i"
    "\<And>e. r = Inl e \<Longrightarrow> e = EngineFull \<and> order_type_of order = Limit \<and> ord_qty i \<noteq> 0"
    "ab_trade_ctr B' = ab_trade_ctr B + of_nat (length ts)"
    "rests order r \<Longrightarrow> ab_clients B' (ord_user_id order, ord_client_order_id order) = Some (ord_id i)"
proof -
  define B1 where "B1 = fst (astamp B order)"
  obtain B2 i stp where S: "asweep s (order_type_of order) cid B1 (stamped B order) = (B2, i, ts, stp)"
    and R: "\<And>rep. r = Inr rep \<Longrightarrow> rep = \<lparr>er_executed_qty = sat_sub (ord_qty order) (ord_qty i),
        er_remaining_qty = ord_qty i, er_stp_triggered = stp\<rparr>"
    and E: "if \<not> stp \<and> order_type_of order = Limit \<and> ord_qty i \<noteq> 0
      then \<exists>r'. arest B2 i cid s = (B', r') \<and> (case r' of Inl e \<Rightarrow> r = Inl e | Inr _ \<Rightarrow> \<exists>rep. r = Inr rep)
      else B' = B2 \<and> (\<exists>rep. r = Inr rep)"
    using nc A unfolding s_def B1_def by (rule aprocess_cases) blast
  have B1: "abook_ok B1" "aside s' B1 = aside s' B" "ab_trade_ctr B1 = ab_trade_ctr B" for s'
    using B by (simp_all add: B1_def astamp_eq)
  have B2: "abook_ok B2" by (rule asweep_ok [OF B1(1) S])
  obtain rm where W: "sweep_levels s (order_type_of order) cid (ab_trade_ctr B1) (stamped B order) (aside (\<not> s) B1)
      = (i, aside (\<not> s) B2, ts, rm, stp)"
    and f: "fills cid (ab_trade_ctr B) (stamped B order) (flat (aside (\<not> s) B)) i (flat (aside (\<not> s) B2)) ts rm"
    and own: "aside s B2 = aside s B" and ctr: "ab_trade_ctr B2 = ab_trade_ctr B + of_nat (length ts)"
    using S by (rule asweep_fills) (simp add: B1)
  have "ladder_ok (\<not> s) (aside (\<not> s) B1)" using B by (simp add: B1 abook_ok_side [of B s])
  from sweep_levels_within_limit [OF W this]
  have lim: "\<not> beyond_limit s (order_type_of order) order (tr_price t)" if "t \<in> set ts" for t
    using that by simp
  have le: "ord_qty i \<le> ord_qty order"
    using fills_taker_qty [OF f] by (simp add: word_le_nat_alt)
  obtain z where z: "i = (stamped B order)\<lparr>ord_qty := z\<rparr>"
    using fills_incoming [OF f] by blast
  have B': "aside (\<not> s) B' = aside (\<not> s) B2 \<and> ab_trade_ctr B' = ab_trade_ctr B2 \<and>
      mset (flat (aside s B')) = mset (flat (aside s B2)) + (if rests order r then {#(i, cid)#} else {#}) \<and>
      (rests order r \<longrightarrow> ab_clients B' (ord_user_id order, ord_client_order_id order) = Some (ord_id i)) \<and>
      (\<forall>e. r = Inl e \<longrightarrow> e = EngineFull \<and> order_type_of order = Limit \<and> ord_qty i \<noteq> 0)"
  proof (cases "\<not> stp \<and> order_type_of order = Limit \<and> ord_qty i \<noteq> 0")
    case True
    with E obtain r' where a: "arest B2 i cid s = (B', r')"
      and r': "case r' of Inl e \<Rightarrow> r = Inl e | Inr _ \<Rightarrow> \<exists>rep. r = Inr rep" by auto
    note ae = arest_effect [OF B2 a]
    have "rests order r \<longleftrightarrow> \<not> isl r'" using True r' R by (cases r') (auto simp: rests_def)
    then show ?thesis using ae(1-5) ae(6) r' True by (cases r') (auto simp: z)
  next
    case False
    with E obtain rep where e: "B' = B2" "r = Inr rep" by (simp only: if_False) blast
    have "\<not> rests order r" using False by (auto simp: rests_def e(2) R [OF e(2)])
    with e show ?thesis by simp
  qed
  show thesis
    by (rule that [of i rm]) (use f lim own ctr B' R le in \<open>auto simp: sat_sub_le\<close>)
qed


text \<open>Executed quantities are positive when the resting orders' quantities are.\<close>

lemma fills_positive:
  "fills cid ctr inc q i q' ts rm \<Longrightarrow> \<forall>x\<in>set q. ord_qty (fst x) \<noteq> 0 \<Longrightarrow> t \<in> set ts \<Longrightarrow> tr_qty t \<noteq> 0"
  by (induction rule: fills.induct) auto

lemma opposite_positive:
  "abook_ok B \<Longrightarrow> x \<in> set (flat (aside s B)) \<Longrightarrow> ord_qty (fst x) \<noteq> 0"
  by (auto simp: abook_ok_side [of B s] ladder_ok_def level_ok_def set_flat)

text \<open>Removing an order keeps all other orders, in their places.\<close>

lemma aremove_flat:
  assumes B: "abook_ok B" and x: "x \<in> set (resting_orders B)"
  shows "flat (aside s (aremove B x)) = filter (\<lambda>y. resting_id y \<noteq> resting_id x) (flat (aside s B))"
proof (cases "s = (ord_side (fst x) = Side_as Sell)")
  case True
  then show ?thesis by (simp add: aremove_def Let_def flat_remove_id)
next
  case False
  let ?s = "ord_side (fst x) = Side_as Sell"
  have "x \<in> set (flat (aside ?s B))" by (rule resting_side [OF B x])
  then have "resting_id y \<noteq> resting_id x" if "y \<in> set (flat (aside (\<not> ?s) B))" for y
    using that B unfolding abook_ok_side [of B ?s] by (auto dest: imageI [of x _ resting_id])
  moreover have "s = (\<not> ?s)" using False by auto
  ultimately show ?thesis by (auto simp: aremove_def Let_def intro!: filter_True [symmetric])
qed

lemma aremove_side_mset:
  assumes B: "abook_ok B" and x: "x \<in> set (resting_orders B)"
  defines "s \<equiv> ord_side (fst x) = Side_as Sell"
  shows "mset (flat (aside s B)) = add_mset x (mset (flat (aside s (aremove B x))))"
    "flat (aside (\<not> s) (aremove B x)) = flat (aside (\<not> s) B)"
proof -
  have xs: "x \<in> set (flat (aside s B))" using resting_side [OF B x] by (simp add: s_def)
  have d: "distinct (map resting_id (flat (aside s B)))" using B by (simp add: abook_ok_side [of B s])
  have "filter (\<lambda>y. resting_id y \<noteq> resting_id x) (flat (aside s B)) = remove1 x (flat (aside s B))"
    using d xs by (auto simp: distinct_remove1_removeAll distinct_map removeAll_filter_not_eq inj_on_def
        intro!: filter_cong)
  with xs show "mset (flat (aside s B)) = add_mset x (mset (flat (aside s (aremove B x))))"
    by (simp add: aremove_flat [OF B x])
  show "flat (aside (\<not> s) (aremove B x)) = flat (aside (\<not> s) B)"
    by (simp add: aremove_def Let_def s_def)
qed

section \<open>The interface of an order book\<close>

text \<open>
  An order may be given to the book when its id is not in use (the engine only sends new ids), and,
  for the published level totals, when the total of its price level stays below \<open>2^64\<close>.
\<close>

definition admissible :: "abook \<Rightarrow> Order \<Rightarrow> bool" where
  "admissible B order \<longleftrightarrow> (order_type_of order = Limit \<longrightarrow> fresh B order)"

definition level_room :: "abook \<Rightarrow> Order \<Rightarrow> bool" where
  "level_room B order \<longleftrightarrow>
     level_qty (aside (ord_side order = Side_as Sell) B) (ord_price order) + unat (ord_qty order) < 2 ^ 64"

text \<open>
  The guarantees of matching. Trades consume the queue of resting orders from its front, each at its
  maker's price, and fill every maker but the last one completely:
\<close>

definition in_priority_order :: "resting list \<Rightarrow> Trade list \<Rightarrow> bool" where
  "in_priority_order q ts \<longleftrightarrow>
     length ts \<le> length q \<and>
     map tr_maker_order_id ts = map resting_id (take (length ts) q) \<and>
     map tr_price ts = map (\<lambda>x. ord_price (fst x)) (take (length ts) q) \<and>
     (\<forall>k. k + 1 < length ts \<longrightarrow> tr_qty (ts ! k) = ord_qty (fst (q ! k)))"

text \<open>No quantity is created or lost: not on the opposite side, the incoming order, or its own side.\<close>

definition side_total :: "bool \<Rightarrow> abook \<Rightarrow> nat" where
  "side_total s B = qty_sum (map fst (flat (aside s B)))"

definition quantity_kept ::
  "Order \<Rightarrow> abook \<Rightarrow> abook \<Rightarrow> Trade list \<Rightarrow> RejectReason + ExecutionReport \<Rightarrow> bool" where
  "quantity_kept order B B' ts r \<longleftrightarrow>
     (let s = (ord_side order = Side_as Sell) in
        side_total (\<not> s) B = side_total (\<not> s) B' + trade_sum ts \<and>
        trade_sum ts \<le> unat (ord_qty order) \<and>
        (case r of
           Inl e \<Rightarrow> side_total s B' = side_total s B
         | Inr rep \<Rightarrow>
             unat (er_executed_qty rep) = trade_sum ts \<and>
             unat (ord_qty order) = trade_sum ts + unat (er_remaining_qty rep) \<and>
             side_total s B' = side_total s B + (if rests order r then unat (er_remaining_qty rep) else 0)))"

text \<open>A trade respects the limit of the incoming order and never matches a user with itself.\<close>

definition safe_trade :: "Order \<Rightarrow> Trade \<Rightarrow> bool" where
  "safe_trade order t \<longleftrightarrow>
     (order_type_of order = Limit \<or> order_type_of order = Market \<and> ord_price order \<noteq> 0 \<longrightarrow>
        (if ord_side order = Side_as Sell then ord_price order \<le> tr_price t else tr_price t \<le> ord_price order)) \<and>
     tr_maker_user_id t \<noteq> ord_user_id order \<and> tr_taker_user_id t = ord_user_id order \<and>
     tr_qty t \<noteq> 0 \<and> tr_symbol_id t = ord_symbol_id order"

text \<open>A cancel removes the order it names and no other, and only for its owner.\<close>

definition cancels_exactly :: "abook \<Rightarrow> u64 \<Rightarrow> u64 \<Rightarrow> abook \<Rightarrow> RejectReason + Order \<Rightarrow> bool" where
  "cancels_exactly B uid oid B' c \<longleftrightarrow>
     (case cancel_target B uid oid of
        None \<Rightarrow> c = Inl OrderNotFound \<and> B' = B
      | Some x \<Rightarrow>
          if ord_user_id (fst x) \<noteq> uid then c = Inl Unauthorized \<and> B' = B
          else c = Inr (fst x) \<and> x \<in> set (resting_orders B) \<and>
            (\<forall>s. flat (aside s B') = filter (\<lambda>y. resting_id y \<noteq> resting_id x) (flat (aside s B))))"

text \<open>Nothing was traded, and no client can see a difference.\<close>

definition harmless :: "abook \<Rightarrow> abook \<Rightarrow> Trade list \<Rightarrow> bool" where
  "harmless B B' ts \<longleftrightarrow>
     ts = [] \<and> ab_bids B' = ab_bids B \<and> ab_asks B' = ab_asks B \<and> ab_clients B' = ab_clients B"

locale book_impl =
  fixes new :: "Symbol \<Rightarrow> 'b"
    and process :: "'b \<Rightarrow> Order \<Rightarrow> u64 \<Rightarrow> Trade list \<Rightarrow>
      ('b \<times> Trade list \<times> (RejectReason + ExecutionReport)) option"
    and cancel :: "'b \<Rightarrow> u64 \<Rightarrow> u64 \<Rightarrow> ('b \<times> (RejectReason + Order)) option"
    and rel :: "'b \<Rightarrow> abook \<Rightarrow> bool"
    and room :: "abook \<Rightarrow> Order \<Rightarrow> bool"
  assumes new_rel: "rel (new sy) abook_new"
    and rel_ok: "rel b B \<Longrightarrow> abook_ok B"
    and process_rel: "rel b B \<Longrightarrow> admissible B order \<Longrightarrow> room B order \<Longrightarrow>
      aprocess B order cid = (B', ts, r) \<Longrightarrow>
      \<exists>b'. process b order cid tr = Some (b', tr @ ts, r) \<and> rel b' B'"
    and cancel_rel: "rel b B \<Longrightarrow> acancel B uid oid = (B', c) \<Longrightarrow> \<exists>b'. cancel b uid oid = Some (b', c) \<and> rel b' B'"
begin

lemma process_runs:
  assumes "rel b B" "admissible B order" "room B order"
  shows "\<exists>b' B' ts r. process b order cid tr = Some (b', tr @ ts, r) \<and> rel b' B' \<and>
    aprocess B order cid = (B', ts, r)"
proof -
  obtain B' ts r where A: "aprocess B order cid = (B', ts, r)" by (rule prod_cases3)
  with process_rel [OF assms A, of tr] show ?thesis by auto
qed

lemma process_exec:
  assumes R: "rel b B" and ad: "admissible B order" "room B order" and nc: "order_type_of order \<noteq> Cancel"
  defines "s \<equiv> ord_side order = Side_as Sell"
  obtains b' B' ts r i rm where
    "process b order cid tr = Some (b', tr @ ts, r)" "rel b' B'"
    "fills cid (ab_trade_ctr B) (stamped B order) (flat (aside (\<not> s) B)) i (flat (aside (\<not> s) B')) ts rm"
    "\<And>t. t \<in> set ts \<Longrightarrow> \<not> beyond_limit s (order_type_of order) order (tr_price t)"
    "mset (flat (aside s B')) = mset (flat (aside s B)) + (if rests order r then {#(i, cid)#} else {#})"
    "\<And>rep. r = Inr rep \<Longrightarrow> er_executed_qty rep = ord_qty order - ord_qty i \<and> er_remaining_qty rep = ord_qty i"
    "\<And>e. r = Inl e \<Longrightarrow> e = EngineFull \<and> order_type_of order = Limit \<and> ord_qty i \<noteq> 0"
    "rests order r \<Longrightarrow> ab_clients B' (ord_user_id order, ord_client_order_id order) = Some (ord_id i)"
proof -
  obtain b' B' ts r where P: "process b order cid tr = Some (b', tr @ ts, r)" "rel b' B'"
    and A: "aprocess B order cid = (B', ts, r)"
    using process_runs [OF R ad, of cid tr] by blast
  show thesis
    by (rule aprocess_exec [OF rel_ok [OF R] nc A, folded s_def]) (rule that [OF P])
qed

lemma rejection:
  assumes R: "rel b B" and ad: "admissible B order" "room B order"
  shows "\<exists>b' B' ts r. process b order cid tr = Some (b', tr @ ts, r) \<and> rel b' B' \<and>
    (\<forall>e. r = Inl e \<longrightarrow> harmless B B' ts \<and>
       (order_type_of order \<noteq> Cancel \<longrightarrow> e = EngineFull \<and> (ab_free_orders B = 0 \<or> ab_free_levels B = 0)))"
proof -
  obtain b' B' ts r where P: "process b order cid tr = Some (b', tr @ ts, r)" "rel b' B'"
    and A: "aprocess B order cid = (B', ts, r)"
    using process_runs [OF R ad, of cid tr] by blast
  have "harmless B B' ts \<and> (order_type_of order \<noteq> Cancel \<longrightarrow> e = EngineFull \<and> (ab_free_orders B = 0 \<or> ab_free_levels B = 0))"
    if "r = Inl e" for e
    using aprocess_error [OF rel_ok [OF R] A [unfolded that]] by (simp add: harmless_def)
  with P show ?thesis by blast
qed

lemma priority:
  assumes R: "rel b B" and ad: "admissible B order" "room B order" and nc: "order_type_of order \<noteq> Cancel"
  shows "\<exists>b' B' ts r. process b order cid tr = Some (b', tr @ ts, r) \<and> rel b' B' \<and>
    in_priority_order (flat (aside (ord_side order \<noteq> Side_as Sell) B)) ts"
proof (rule process_exec [OF R ad nc, where cid = cid and tr = tr])
  fix b' B' ts r i rm
  assume "process b order cid tr = Some (b', tr @ ts, r)" "rel b' B'"
    and "fills cid (ab_trade_ctr B) (stamped B order) (flat (aside (ord_side order \<noteq> Side_as Sell) B)) i
           (flat (aside (ord_side order \<noteq> Side_as Sell) B')) ts rm"
  then show ?thesis
    using fills_priority fills_makers_filled by (fastforce simp: in_priority_order_def)
qed

lemma conservation:
  assumes R: "rel b B" and ad: "admissible B order" "room B order" and nc: "order_type_of order \<noteq> Cancel"
  shows "\<exists>b' B' ts r. process b order cid tr = Some (b', tr @ ts, r) \<and> rel b' B' \<and>
    quantity_kept order B B' ts r"
proof (rule process_exec [OF R ad nc, where cid = cid and tr = tr])
  fix b' B' ts r i rm
  let ?s = "ord_side order = Side_as Sell"
  assume P: "process b order cid tr = Some (b', tr @ ts, r)" "rel b' B'"
    and f: "fills cid (ab_trade_ctr B) (stamped B order) (flat (aside (\<not> ?s) B)) i (flat (aside (\<not> ?s) B')) ts rm"
    and own: "mset (flat (aside ?s B')) = mset (flat (aside ?s B)) + (if rests order r then {#(i, cid)#} else {#})"
    and rep: "\<And>rep. r = Inr rep \<Longrightarrow> er_executed_qty rep = ord_qty order - ord_qty i \<and> er_remaining_qty rep = ord_qty i"
  have tot: "qty_sum (map fst xs) = (\<Sum>x\<in>#mset xs. unat (ord_qty (fst x)))" for xs :: "resting list"
    by (simp add: comp_def flip: sum_mset_sum_list)
  have t: "unat (ord_qty order) = unat (ord_qty i) + trade_sum ts" using fills_taker_qty [OF f] by simp
  then have "ord_qty i \<le> ord_qty order" by (simp add: word_le_nat_alt)
  then have ex: "unat (ord_qty order - ord_qty i) = trade_sum ts" using t by (simp add: unat_sub)
  have "qty_sum (map fst (flat (aside ?s B'))) =
      qty_sum (map fst (flat (aside ?s B))) + (if rests order r then unat (ord_qty i) else 0)"
    unfolding tot own by simp
  moreover have "\<not> rests order (Inl e)" for e by (simp add: rests_def)
  ultimately show ?thesis
    using P fills_maker_qty [OF f] t ex rep by (cases r) (auto simp: Let_def quantity_kept_def side_total_def)
qed

lemma safe_trades:
  assumes R: "rel b B" and ad: "admissible B order" "room B order" and nc: "order_type_of order \<noteq> Cancel"
  shows "\<exists>b' B' ts r. process b order cid tr = Some (b', tr @ ts, r) \<and> rel b' B' \<and>
    (\<forall>t\<in>set ts. safe_trade order t)"
proof (rule process_exec [OF R ad nc, where cid = cid and tr = tr])
  fix b' B' ts r i rm
  let ?s = "ord_side order = Side_as Sell"
  assume P: "process b order cid tr = Some (b', tr @ ts, r)" "rel b' B'"
    and f: "fills cid (ab_trade_ctr B) (stamped B order) (flat (aside (\<not> ?s) B)) i (flat (aside (\<not> ?s) B')) ts rm"
    and lim: "\<And>t. t \<in> set ts \<Longrightarrow> \<not> beyond_limit ?s (order_type_of order) order (tr_price t)"
  have "tr_qty t \<noteq> 0" if "t \<in> set ts" for t
    by (rule fills_positive [OF f _ that]) (use opposite_positive [OF rel_ok [OF R]] in blast)
  moreover have "tr_maker_user_id t \<noteq> ord_user_id order \<and> tr_taker_user_id t = ord_user_id order \<and>
      tr_symbol_id t = ord_symbol_id order" if "t \<in> set ts" for t
    using fills_trades [OF f that] by auto
  moreover have "if ?s then ord_price order \<le> tr_price t else tr_price t \<le> ord_price order"
    if "t \<in> set ts" "order_type_of order = Limit \<or> order_type_of order = Market \<and> ord_price order \<noteq> 0" for t
    using lim [OF that(1)] that(2) by (auto simp: beyond_limit_def word_gt_0 not_less split: if_splits)
  ultimately have "\<forall>t\<in>set ts. safe_trade order t" by (simp add: safe_trade_def)
  with P show ?thesis by blast
qed

lemma match_ids:
  assumes R: "rel b B" and ad: "admissible B order" "room B order" and nc: "order_type_of order \<noteq> Cancel"
  shows "\<exists>b' B' ts r. process b order cid tr = Some (b', tr @ ts, r) \<and> rel b' B' \<and>
    map tr_match_id ts = map (\<lambda>k. ab_trade_ctr B + of_nat k) [0..<length ts]"
proof (rule process_exec [OF R ad nc, where cid = cid and tr = tr])
  fix b' B' ts r i rm
  let ?s = "ord_side order = Side_as Sell"
  assume P: "process b order cid tr = Some (b', tr @ ts, r)" "rel b' B'"
    and f: "fills cid (ab_trade_ctr B) (stamped B order) (flat (aside (\<not> ?s) B)) i (flat (aside (\<not> ?s) B')) ts rm"
  have "map tr_match_id ts = map (\<lambda>k. ab_trade_ctr B + of_nat k) [0..<length ts]"
    using fills_match_ids [OF f] by (intro nth_equalityI) simp_all
  with P show ?thesis by blast
qed

lemma cancel_exact:
  assumes R: "rel b B"
  shows "\<exists>b' B' c. cancel b uid oid = Some (b', c) \<and> rel b' B' \<and>
    cancels_exactly B uid oid B' c"
proof -
  obtain B' c where A: "acancel B uid oid = (B', c)" by (rule prod.exhaust)
  obtain b' where b': "cancel b uid oid = Some (b', c)" "rel b' B'"
    using cancel_rel [OF R A] by blast
  show ?thesis
  proof (cases "cancel_target B uid oid")
    case None
    with A b' show ?thesis by (auto simp: acancel_def cancels_exactly_def)
  next
    case (Some x)
    have x: "x \<in> set (resting_orders B)" by (rule cancel_target_Some [OF Some])
    from A Some have "ord_user_id (fst x) \<noteq> uid \<and> B' = B \<and> c = Inl Unauthorized \<or>
        ord_user_id (fst x) = uid \<and> B' = aremove B x \<and> c = Inr (fst x)"
      by (auto simp: acancel_def split: if_splits)
    then show ?thesis
      using b' x aremove_flat [OF rel_ok [OF R] x] Some
      by (intro exI conjI) (auto simp: cancels_exactly_def)
  qed
qed

lemma rest_cancel:
  assumes R: "rel b B" and ad: "admissible B order" "room B order" and nc: "order_type_of order \<noteq> Cancel"
  shows "\<exists>b' B' ts r. process b order cid tr = Some (b', tr @ ts, r) \<and> rel b' B' \<and>
    (\<forall>rep. r = Inr rep \<longrightarrow> rests order r \<longrightarrow>
      (\<forall>k. k = ord_id (stamped B order) \<or> k = ord_client_order_id order \<and> find_resting B' k = None \<longrightarrow>
        (\<exists>b'' B''. cancel b' (ord_user_id order) k =
            Some (b'', Inr ((stamped B order)\<lparr>ord_qty := er_remaining_qty rep\<rparr>)) \<and> rel b'' B'' \<and>
          (\<forall>s. mset (flat (aside s B'')) = mset (flat (aside s (if s = (ord_side order = Side_as Sell) then B else B')))))))"
proof (rule process_exec [OF R ad nc, where cid = cid and tr = tr])
  fix b' B' ts r i rm
  let ?s = "ord_side order = Side_as Sell"
  assume P: "process b order cid tr = Some (b', tr @ ts, r)" "rel b' B'"
    and f: "fills cid (ab_trade_ctr B) (stamped B order) (flat (aside (\<not> ?s) B)) i (flat (aside (\<not> ?s) B')) ts rm"
    and own: "mset (flat (aside ?s B')) = mset (flat (aside ?s B)) + (if rests order r then {#(i, cid)#} else {#})"
    and rep: "\<And>rep. r = Inr rep \<Longrightarrow> er_executed_qty rep = ord_qty order - ord_qty i \<and> er_remaining_qty rep = ord_qty i"
    and cl: "rests order r \<Longrightarrow> ab_clients B' (ord_user_id order, ord_client_order_id order) = Some (ord_id i)"
  obtain z where "i = (stamped B order)\<lparr>ord_qty := z\<rparr>" using fills_incoming [OF f] by blast
  then have i: "i = (stamped B order)\<lparr>ord_qty := ord_qty i\<rparr>" by simp
  then have sel: "ord_id i = ord_id (stamped B order)" "ord_user_id i = ord_user_id order" "ord_side i = ord_side order"
    by (metis Order.select_convs Order.surjective Order.update_convs(3) stamped_sel)+
  have "\<exists>b'' B''. cancel b' (ord_user_id order) k = Some (b'', Inr i) \<and> rel b'' B'' \<and>
      (\<forall>s. mset (flat (aside s B'')) = mset (flat (aside s (if s = ?s then B else B'))))"
    if rs: "rests order r" and k: "k = ord_id (stamped B order) \<or> k = ord_client_order_id order \<and> find_resting B' k = None" for k
  proof -
    have x: "(i, cid) \<in> set (resting_orders B')"
    proof -
      have "(i, cid) \<in># mset (flat (aside ?s B'))" using own rs by simp
      then show ?thesis unfolding set_resting [of B' ?s] set_mset_mset by (rule UnI1)
    qed
    have t: "cancel_target B' (ord_user_id order) k = Some (i, cid)"
      using k find_resting_unique [OF rel_ok [OF P(2)] x] cl [OF rs] sel(1)
      by (auto simp: cancel_target_def resting_id_def)
    then have "acancel B' (ord_user_id order) k = (aremove B' (i, cid), Inr i)"
      by (simp add: acancel_def sel)
    from cancel_rel [OF P(2) this] obtain b'' where
      "cancel b' (ord_user_id order) k = Some (b'', Inr i)" "rel b'' (aremove B' (i, cid))" by blast
    moreover have "mset (flat (aside s (aremove B' (i, cid)))) = mset (flat (aside s (if s = ?s then B else B')))" for s
    proof (cases "s = ?s")
      case True
      with aremove_side_mset(1) [OF rel_ok [OF P(2)] x] own rs show ?thesis by (simp add: sel)
    next
      case False
      then have s: "s = (\<not> ?s)" by auto
      with aremove_side_mset(2) [OF rel_ok [OF P(2)] x] show ?thesis by (simp add: sel)
    qed
    ultimately show ?thesis by blast
  qed
  moreover have "i = (stamped B order)\<lparr>ord_qty := er_remaining_qty rep'\<rparr>" if "r = Inr rep'" for rep'
    using rep [OF that] i by simp
  ultimately show ?thesis using P by metis
qed

end

text \<open>A book that also publishes its best quotes and its depth, from the level totals.\<close>

locale quoted_book = book_impl new process cancel rel room
  for new :: "Symbol \<Rightarrow> 'b" and process cancel rel room +
  fixes bbo :: "'b \<Rightarrow> ((u64 \<times> u64) option \<times> (u64 \<times> u64) option) option"
    and depth :: "'b \<Rightarrow> nat \<Rightarrow> (MarketDepthLevel list \<times> MarketDepthLevel list) option"
  assumes bbo_rel: "rel b B \<Longrightarrow> bbo b = Some (aquote (ab_bids B), aquote (ab_asks B))"
    and depth_rel: "rel b B \<Longrightarrow> depth b n = Some (adepth n (ab_bids B), adepth n (ab_asks B))"
begin

lemma bbo_uncrossed:
  assumes "rel b B" "bbo b = Some (Some (bid, bid_qty), Some (ask, ask_qty))"
  shows "bid < ask"
  using assms rel_ok [OF assms(1)]
  by (auto simp: bbo_rel aquote_def abook_ok_def split: list.splits)

lemma quotes_after:
  assumes R: "rel b B" and ad: "admissible B order" "room B order"
  shows "\<exists>b' B' ts r bid ask. process b order cid tr = Some (b', tr @ ts, r) \<and> rel b' B' \<and>
    aprocess B order cid = (B', ts, r) \<and> bbo b' = Some (bid, ask) \<and>
    bid = aquote (ab_bids B') \<and> ask = aquote (ab_asks B') \<and>
    (\<forall>bp bq ap aq. bid = Some (bp, bq) \<longrightarrow> ask = Some (ap, aq) \<longrightarrow> bp < ap)"
proof -
  obtain b' B' ts r where P: "process b order cid tr = Some (b', tr @ ts, r)" "rel b' B'"
    and A: "aprocess B order cid = (B', ts, r)"
    using process_runs [OF R ad, of cid tr] by blast
  with bbo_rel [OF P(2)] bbo_uncrossed [OF P(2)] show ?thesis by fastforce
qed

end

section \<open>The order book of the code\<close>

interpretation obook: book_impl OrderBook_new ob_process cancel_order "book_rel False" "\<lambda>_ _. True"
proof unfold_locales
  show "book_rel False (OrderBook_new sy) abook_new" for sy by (rule book_new_rel)
  show "abook_ok B" if "book_rel False b B" for b B using that by (simp add: book_rel_def)
  show "\<exists>b'. ob_process b order cid tr = Some (b', tr @ ts, r) \<and> book_rel False b' B'"
    if "book_rel False b B" "admissible B order" "aprocess B order cid = (B', ts, r)" for b B order cid tr B' ts r
    using ob_process_sim [OF that(1) _ _ that(3), of tr] that(2) by (auto simp: admissible_def)
  show "\<exists>b'. cancel_order b uid oid = Some (b', c) \<and> book_rel False b' B'"
    if "book_rel False b B" "acancel B uid oid = (B', c)" for b B uid oid B' c
    using cancel_order_rel [OF that] by blast
qed

interpretation qbook: quoted_book OrderBook_new ob_process cancel_order "book_rel True" level_room get_bbo get_depth
proof unfold_locales
  show "book_rel True (OrderBook_new sy) abook_new" for sy by (rule book_new_rel)
  show "abook_ok B" if "book_rel True b B" for b B using that by (simp add: book_rel_def)
  show "\<exists>b'. ob_process b order cid tr = Some (b', tr @ ts, r) \<and> book_rel True b' B'"
    if "book_rel True b B" "admissible B order" "level_room B order" "aprocess B order cid = (B', ts, r)"
    for b B order cid tr B' ts r
    using ob_process_sim [OF that(1) _ _ that(4), of tr] that(2,3) by (auto simp: admissible_def level_room_def)
  show "\<exists>b'. cancel_order b uid oid = Some (b', c) \<and> book_rel True b' B'"
    if "book_rel True b B" "acancel B uid oid = (B', c)" for b B uid oid B' c
    using cancel_order_rel [OF that] by blast
qed (rule get_bbo_sim get_depth_sim; assumption)+

text \<open>
  A small book for the witnesses: two asks of users 1 and 2 and a bid of user 3, entered through
  \<open>ob_process\<close>.
\<close>

definition demo_cmds :: "(Order \<times> u64) list" where
  "demo_cmds = [(new_limit 11 1 Btc Sell 100 10, 7), (new_limit 12 2 Btc Sell 101 20, 8),
                (new_limit 13 3 Btc Buy 99 30, 9)]"

definition demo_book :: abook where
  "demo_book = fold (\<lambda>(order, cid) B. fst (aprocess B order cid)) demo_cmds abook_new"

lemmas abook_run = aprocess_def asweep_def arest_def astamp_def order_type_of_def get_order_type_def
  OrderType_try_from_def aside_def set_aside_def flat_def resting_key_def insert_level_def
  append_level_def better_def beyond_limit_def sat_sub_def new_limit_def MAX_ARENA_ORDERS_def
  MAX_PRICE_LEVELS_def mk_trade_def acancel_def cancel_target_def find_resting_def aremove_def
  remove_id_def resting_id_def resting_orders_def

lemmas abook_check = admissible_def fresh_def stamped_def level_room_def level_qty_def resting_orders_def
  flat_def order_type_of_def get_order_type_def OrderType_try_from_def new_limit_def new_market_def
  aside_def resting_id_def

lemma demo_book_eq:
  "demo_book =
     \<lparr>ab_bids = [(99, [(new_limit 13 3 Btc Buy 99 30, 9)])],
      ab_asks = [(100, [(new_limit 11 1 Btc Sell 100 10, 7)]), (101, [(new_limit 12 2 Btc Sell 101 20, 8)])],
      ab_clients = [(1, 11) \<mapsto> 11, (2, 12) \<mapsto> 12, (3, 13) \<mapsto> 13],
      ab_free_orders = 131069, ab_free_levels = 4093, ab_trade_ctr = 1, ab_order_ctr = 14\<rparr>"
  unfolding demo_book_def demo_cmds_def by (simp add: abook_run abook_new_def)

lemma demo_rel: "\<exists>b. book_rel tq b demo_book"
proof -
  have step: "\<exists>b'. book_rel tq b' (fst (aprocess B order cid))"
    if "book_rel tq b B" "admissible B order" "level_room B order" for b B order cid
    using ob_process_sim [OF that(1), of order cid "fst (aprocess B order cid)" _ _ "[]"] that(2,3)
    by (metis admissible_def level_room_def prod.collapse)
  define o1 o2 o3 where "o1 = new_limit 11 1 Btc Sell 100 10" and "o2 = new_limit 12 2 Btc Sell 101 20"
    and "o3 = new_limit 13 3 Btc Buy 99 30"
  define B1 B2 where "B1 = fst (aprocess abook_new o1 7)" and "B2 = fst (aprocess B1 o2 8)"
  obtain b1 where b1: "book_rel tq b1 B1"
    using step [OF book_new_rel [of tq Btc], of o1 7]
    unfolding B1_def by (auto simp: abook_check abook_new_def o1_def)
  have "admissible B1 o2" "level_room B1 o2"
    by (simp_all add: B1_def o1_def o2_def abook_run abook_new_def abook_check)
  with step [OF b1, of o2 8] obtain b2 where b2: "book_rel tq b2 B2"
    unfolding B2_def by auto
  have "admissible B2 o3" "level_room B2 o3"
    by (simp_all add: B2_def B1_def o1_def o2_def o3_def abook_run abook_new_def abook_check)
  with step [OF b2, of o3 9] show ?thesis
    by (simp add: demo_book_def demo_cmds_def B2_def B1_def o1_def o2_def o3_def)
qed

text \<open>An order that takes from both asks, and a market order that runs into an order of its own user.\<close>

definition demo_taker :: Order where
  "demo_taker = new_limit 14 4 Btc Buy 101 15"

definition demo_market :: Order where
  "demo_market = new_market 14 2 Btc Buy 15 101"

lemma demo_taker_ok: "admissible demo_book demo_taker" "level_room demo_book demo_taker"
    "order_type_of demo_taker \<noteq> Cancel"
  by (simp_all add: demo_taker_def demo_book_eq abook_check)

lemma demo_market_ok: "admissible demo_book demo_market" "order_type_of demo_market \<noteq> Cancel"
  by (simp_all add: demo_market_def demo_book_eq abook_check)

section \<open>Guarantees of the order book\<close>

text \<open>C3. Refinement: on every order that the engine may send, \<open>ob_process\<close> with its arenas, links and
  hash indices returns (no panic, no endless loop), appends the trades and returns the result of the
  list-based specification, and leaves a book that represents the specification's next state.\<close>

theorem ob_process_refines:
  assumes "book_rel tq b B" "admissible B order" "tq \<longrightarrow> level_room B order"
  shows "\<exists>b' B' ts r. ob_process b order cid trades = Some (b', trades @ ts, r) \<and>
    aprocess B order cid = (B', ts, r) \<and> book_rel tq b' B'"
proof -
  obtain B' ts r where "aprocess B order cid = (B', ts, r)" by (rule prod_cases3)
  with ob_process_sim [OF assms(1) _ _ this, of trades] assms(2,3) show ?thesis
    by (auto simp: admissible_def level_room_def)
qed

theorem ob_process_refines_witness:
  "\<exists>b. book_rel True b demo_book \<and>
     (\<exists>b' B' ts r. ob_process b demo_taker 5 [] = Some (b', [] @ ts, r) \<and>
        aprocess demo_book demo_taker 5 = (B', ts, r) \<and> book_rel True b' B')"
proof -
  obtain b where b: "book_rel True b demo_book" using demo_rel by blast
  with ob_process_refines [OF b demo_taker_ok(1) impI [OF demo_taker_ok(2)], of 5 "[]"] show ?thesis by blast
qed

text \<open>C4. Price-time priority: the trades of an order take the resting orders of the opposite side from
  the best price and the oldest order on, at their prices, and skip nobody.\<close>

theorem price_time_priority:
  assumes "book_rel False b B" "admissible B order" "order_type_of order \<noteq> Cancel"
  shows "\<exists>b' B' ts r. ob_process b order cid trades = Some (b', trades @ ts, r) \<and> book_rel False b' B' \<and>
    in_priority_order (flat (aside (ord_side order \<noteq> Side_as Sell) B)) ts"
  by (rule obook.priority [OF assms(1,2) TrueI assms(3)])

theorem price_time_priority_witness:
  "\<exists>b b' B' ts r. book_rel False b demo_book \<and>
     ob_process b demo_taker 5 [] = Some (b', [] @ ts, r) \<and> book_rel False b' B' \<and>
     in_priority_order (flat (aside (ord_side demo_taker \<noteq> Side_as Sell) demo_book)) ts"
proof -
  obtain b where b: "book_rel False b demo_book" using demo_rel by blast
  with price_time_priority [OF b demo_taker_ok(1) demo_taker_ok(3), of 5 "[]"] show ?thesis by blast
qed

text \<open>C5. Conservation: what the opposite side loses is what trades, the executed and the remaining
  quantity of the report add up to the order's, and the own side gains the remainder that rests.\<close>

theorem quantity_conserved:
  assumes "book_rel False b B" "admissible B order" "order_type_of order \<noteq> Cancel"
  shows "\<exists>b' B' ts r. ob_process b order cid trades = Some (b', trades @ ts, r) \<and> book_rel False b' B' \<and>
    quantity_kept order B B' ts r"
  by (rule obook.conservation [OF assms(1,2) TrueI assms(3)])

theorem quantity_conserved_witness:
  "\<exists>b b' B' ts r. book_rel False b demo_book \<and>
     ob_process b demo_taker 5 [] = Some (b', [] @ ts, r) \<and> book_rel False b' B' \<and>
     quantity_kept demo_taker demo_book B' ts r"
proof -
  obtain b where b: "book_rel False b demo_book" using demo_rel by blast
  with quantity_conserved [OF b demo_taker_ok(1) demo_taker_ok(3), of 5 "[]"] show ?thesis by blast
qed

text \<open>C10. Safety of every trade: never worse than the limit (or slippage bound) of the incoming order,
  never between two orders of one user, never of quantity zero.\<close>

theorem trades_safe:
  assumes "book_rel False b B" "admissible B order" "order_type_of order \<noteq> Cancel"
  shows "\<exists>b' B' ts r. ob_process b order cid trades = Some (b', trades @ ts, r) \<and> book_rel False b' B' \<and>
    (\<forall>t\<in>set ts. safe_trade order t)"
  by (rule obook.safe_trades [OF assms(1,2) TrueI assms(3)])

theorem trades_safe_witness:
  "\<exists>b b' B' ts r. book_rel False b demo_book \<and>
     ob_process b demo_market 5 [] = Some (b', [] @ ts, r) \<and> book_rel False b' B' \<and>
     (\<forall>t\<in>set ts. safe_trade demo_market t)"
proof -
  obtain b where b: "book_rel False b demo_book" using demo_rel by blast
  with trades_safe [OF b demo_market_ok(1) demo_market_ok(2), of 5 "[]"] show ?thesis by blast
qed

text \<open>The trades of an order carry consecutive match ids from the book's counter on.\<close>

lemma match_ids_sequential:
  assumes "book_rel False b B" "admissible B order" "order_type_of order \<noteq> Cancel"
  shows "\<exists>b' B' ts r. ob_process b order cid trades = Some (b', trades @ ts, r) \<and> book_rel False b' B' \<and>
    map tr_match_id ts = map (\<lambda>k. ob_trade_id_counter b + of_nat k) [0..<length ts]"
proof -
  have "ab_trade_ctr B = ob_trade_id_counter b"
    using assms(1) by (auto simp: book_rel_def book_abs_def)
  with obook.match_ids [OF assms(1,2) TrueI assms(3), of cid trades] show ?thesis by simp
qed



text \<open>C24. Rejections are atomic: an order that \<open>ob_process\<close> answers with an error has traded nothing, and both sides of
  the book and the index of the clients' ids are what they were. An order that is not a cancel is refused only
  with \<open>EngineFull\<close>, by a book that has no free node or no free level.\<close>

theorem rejection_harmless:
  assumes "book_rel False b B" "admissible B order"
  shows "\<exists>b' B' ts r. ob_process b order cid trades = Some (b', trades @ ts, r) \<and> book_rel False b' B' \<and>
    (\<forall>e. r = Inl e \<longrightarrow> harmless B B' ts \<and>
       (order_type_of order \<noteq> Cancel \<longrightarrow> e = EngineFull \<and> (ab_free_orders B = 0 \<or> ab_free_levels B = 0)))"
  by (rule obook.rejection [OF assms TrueI])

theorem rejection_harmless_witness:
  "\<exists>b b' B'. ob_process b (new_cancel 99 1 Btc) 5 [] = Some (b', [], Inl OrderNotFound) \<and>
     book_rel False b' B' \<and> ab_asks B' = ab_asks demo_book \<and> ab_bids B' = ab_bids demo_book"
proof -
  let ?o = "new_cancel 99 1 Btc"
  obtain b where b: "book_rel False b demo_book" using demo_rel by blast
  have ok: "admissible demo_book ?o" by (simp add: demo_book_eq abook_check ob_simps)
  obtain b' B' ts r where P: "ob_process b ?o 5 [] = Some (b', [] @ ts, r)" "book_rel False b' B'"
    and H: "\<forall>e. r = Inl e \<longrightarrow> harmless demo_book B' ts \<and>
       (order_type_of ?o \<noteq> Cancel \<longrightarrow> e = EngineFull \<and> (ab_free_orders demo_book = 0 \<or> ab_free_levels demo_book = 0))"
    using rejection_harmless [OF b ok, of 5 "[]"] by blast
  have "aprocess demo_book ?o 5 = (demo_book, [], Inl OrderNotFound)"
    by (simp add: demo_book_eq abook_run ob_simps)
  then have "r = Inl OrderNotFound" using ob_process_sim [OF b, of ?o 5 _ _ _ "[]"] ok P(1) by (auto simp: admissible_def)
  then show ?thesis using P H by (auto simp: harmless_def)
qed

text \<open>C26. Depth: the snapshot of \<open>n\<close> levels lists the best \<open>n\<close> prices of each side in order, each with the
  total quantity and the number of its resting orders.\<close>

theorem depth_snapshot:
  assumes "book_rel True b B"
  shows "get_depth b n = Some (adepth n (ab_bids B), adepth n (ab_asks B)) \<and>
    sorted_wrt (\<lambda>l m. md_price l > md_price m) (adepth n (ab_bids B)) \<and>
    sorted_wrt (\<lambda>l m. md_price l < md_price m) (adepth n (ab_asks B))"
proof -
  have "ladder_ok False (ab_bids B)" "ladder_ok True (ab_asks B)"
    using assms by (simp_all add: book_rel_def abook_ok_def sides)
  then have "sorted_wrt (\<lambda>l m. fst l > fst m) (take n (ab_bids B))"
    "sorted_wrt (\<lambda>l m. fst l < fst m) (take n (ab_asks B))"
    by (auto simp: ladder_ok_def better_def intro: sorted_wrt_take)
  then show ?thesis
    using qbook.depth_rel [OF assms] by (simp add: adepth_def sorted_wrt_map)
qed

theorem depth_snapshot_witness:
  "\<exists>b. get_depth b 1 =
     Some ([\<lparr>md_price = 99, md_total_qty = 30, md_order_count = 1\<rparr>],
           [\<lparr>md_price = 100, md_total_qty = 10, md_order_count = 1\<rparr>])"
proof -
  obtain b where b: "book_rel True b demo_book" using demo_rel by blast
  with depth_snapshot [OF b, of 1] show ?thesis
    by (auto simp: demo_book_eq adepth_def alevel_qty_def new_limit_def)
qed

text \<open>C23. Cancellation: \<open>cancel_order\<close> returns the order it names, by exchange id or else by client id,
  and removes it and nothing else; an unknown id and a foreign order are rejected and change nothing.\<close>

theorem cancel_order_exact:
  assumes "book_rel False b B"
  shows "\<exists>b' B' c. cancel_order b uid oid = Some (b', c) \<and> book_rel False b' B' \<and>
    cancels_exactly B uid oid B' c"
  by (rule obook.cancel_exact [OF assms])

theorem cancel_order_exact_witness:
  "\<exists>b b' B'. cancel_order b 2 12 = Some (b', Inr (new_limit 12 2 Btc Sell 101 20)) \<and>
     map resting_id (flat (ab_asks B')) = [11] \<and> book_rel False b' B'"
proof -
  obtain b where b: "book_rel False b demo_book" using demo_rel by blast
  obtain b' B' c where r: "cancel_order b 2 12 = Some (b', c)" "book_rel False b' B'"
    and x: "cancels_exactly demo_book 2 12 B' c"
    using cancel_order_exact [OF b, of 2 12] by blast
  have "cancel_target demo_book 2 12 = Some (new_limit 12 2 Btc Sell 101 20, 8)"
    by (simp add: abook_run demo_book_eq)
  with x have "c = Inr (new_limit 12 2 Btc Sell 101 20)"
    "flat (aside True B') = filter (\<lambda>y. resting_id y \<noteq> 12) (flat (aside True demo_book))"
    by (simp_all add: cancels_exactly_def new_limit_def resting_id_def)
  moreover from this(2) have "map resting_id (flat (ab_asks B')) = [11]"
    by (simp add: aside_def demo_book_eq flat_def resting_id_def new_limit_def)
  ultimately show ?thesis using r by (intro exI [of _ b] exI [of _ b'] exI [of _ B']) simp
qed

text \<open>C25. Resting and cancelling: an order whose remainder rests can be cancelled right away by its
  exchange id, and by its client id unless that is the exchange id of a resting order; the cancel
  returns the order with the remainder, and its side of the book is what it was before.\<close>

theorem cancel_after_rest:
  assumes "book_rel False b B" "admissible B order" "order_type_of order \<noteq> Cancel"
  shows "\<exists>b' B' ts r. ob_process b order cid trades = Some (b', trades @ ts, r) \<and> book_rel False b' B' \<and>
    (\<forall>rep. r = Inr rep \<longrightarrow> rests order r \<longrightarrow>
      (\<forall>k. k = ord_id (stamped B order) \<or> k = ord_client_order_id order \<and> find_resting B' k = None \<longrightarrow>
        (\<exists>b'' B''. cancel_order b' (ord_user_id order) k =
            Some (b'', Inr ((stamped B order)\<lparr>ord_qty := er_remaining_qty rep\<rparr>)) \<and> book_rel False b'' B'' \<and>
          (\<forall>s. mset (flat (aside s B'')) = mset (flat (aside s (if s = (ord_side order = Side_as Sell) then B else B')))))))"
  by (rule obook.rest_cancel [OF assms(1,2) TrueI assms(3)])

theorem cancel_after_rest_witness:
  "\<exists>b b' b'' r. ob_process b (new_limit 15 4 Btc Buy 99 6) 5 [] = Some (b', [], r) \<and>
     cancel_order b' 4 15 = Some (b'', Inr (new_limit 15 4 Btc Buy 99 6))"
proof -
  let ?o = "new_limit 15 4 Btc Buy 99 6"
  obtain b where b: "book_rel False b demo_book" using demo_rel by blast
  have ok: "admissible demo_book ?o" "order_type_of ?o \<noteq> Cancel"
    by (simp_all add: demo_book_eq abook_check)
  obtain b' B' ts r where P: "ob_process b ?o 5 [] = Some (b', [] @ ts, r)" "aprocess demo_book ?o 5 = (B', ts, r)"
    using ob_process_refines [OF b ok(1), of 5 "[]"] by blast
  from P(2) have r: "ts = []" "r = Inr \<lparr>er_executed_qty = 0, er_remaining_qty = 6, er_stp_triggered = False\<rparr>"
    by (simp_all add: demo_book_eq abook_run)
  have rs: "rests ?o r" by (simp add: r rests_def abook_check)
  have st: "(stamped demo_book ?o)\<lparr>ord_qty := 6\<rparr> = ?o" "ord_user_id ?o = 4" "ord_id (stamped demo_book ?o) = 15"
    by (simp_all add: stamped_def new_limit_def)
  obtain b'' where "cancel_order b' (ord_user_id ?o) 15 = Some (b'', Inr ((stamped demo_book ?o)\<lparr>ord_qty := 6\<rparr>))"
    using cancel_after_rest [OF b ok, of 5 "[]"] P(1) r(2) rs st(3) by auto
  with P(1) r(1) show ?thesis unfolding st by auto
qed

end
