(* ===== verification/Gateway.thy ===== *)
theory Gateway
  imports OB_Types
begin

text \<open>
  The gateway of \<open>src/gateway.rs\<close>: the messages between the stages of the pipeline, the ingress loop
  of a connection, which frames 48-byte orders and quarantines what clients may not choose, and the
  egress writer. The byte casts \<open>bytemuck::from_bytes\<close> and \<open>bytemuck::bytes_of\<close> are parameters;
  \<open>pod_codec\<close> and \<open>wire_codec\<close> state what the code relies on. Sockets, tasks and the accept loop are not modelled: a
  connection is the sequence of bytes its client sends.
\<close>

section \<open>Messages between the stages\<close>

text \<open>The ingress timestamp of an inbound message only feeds the latency histogram and is left out.\<close>

record InboundMessage =
  im_order :: Order
  im_client_id :: u64

datatype OutboundEvent =
  ClientAck (ev_client: u64) (ev_msg: ServerMessage)
| ClientReject (ev_client: u64) (ev_msg: ServerMessage)
| ClientCancelOk (ev_client: u64) (ev_msg: ServerMessage)
| TradeFill (ev_taker: u64) (ev_maker: u64) (ev_taker_msg: ServerMessage) (ev_maker_msg: ServerMessage)
| BboBroadcast (ev_msg: ServerMessage)

datatype 'sender ConnectionEvent = Connected u64 'sender | Disconnected u64

section \<open>Plain data\<close>

text \<open>
  The laws of a type whose values are reinterpreted as bytes: a fixed size, and a cast that undoes the
  other. They are the contract of \<open>bytemuck::Pod\<close>.
\<close>

locale pod_codec =
  fixes bytes_of :: "'a \<Rightarrow> u8 list" and from_bytes :: "u8 list \<Rightarrow> 'a" and size :: nat
  assumes length_bytes: "length (bytes_of x) = size"
    and from_bytes_of: "from_bytes (bytes_of x) = x"
begin

lemma take_bytes: "take size (bytes_of x @ rest) = bytes_of x" "drop size (bytes_of x @ rest) = rest"
  using length_bytes [of x] by simp_all

lemma decode_front: "from_bytes (take size (bytes_of x @ rest)) = x"
  unfolding take_bytes by (rule from_bytes_of)

end

text \<open>The memory image of an \<open>Order\<close>: \<open>#[repr(C)]\<close>, fields in order, no padding between them.\<close>

definition order_size :: nat where
  "order_size = 48"

definition order_bytes :: "endian \<Rightarrow> Order \<Rightarrow> u8 list" where
  "order_bytes h o' =
     mem_bytes h (ord_id o') @ mem_bytes h (ord_price o') @ mem_bytes h (ord_qty o') @
     mem_bytes h (ord_user_id o') @ mem_bytes h (ord_client_order_id o') @
     [ord_side o', ord_order_type o'] @ mem_bytes h (ord_symbol_id o') @ mem_bytes h (ord_magic o') @
     [fst (ord_padding o'), snd (ord_padding o')]"

definition order_of_bytes :: "endian \<Rightarrow> u8 list \<Rightarrow> Order" where
  "order_of_bytes h bs =
     \<lparr>ord_id = mem_word h (take 8 bs), ord_price = mem_word h (take 8 (drop 8 bs)),
      ord_qty = mem_word h (take 8 (drop 16 bs)), ord_user_id = mem_word h (take 8 (drop 24 bs)),
      ord_client_order_id = mem_word h (take 8 (drop 32 bs)), ord_side = bs ! 40,
      ord_order_type = bs ! 41, ord_symbol_id = mem_word h (take 2 (drop 42 bs)),
      ord_magic = mem_word h (take 2 (drop 44 bs)), ord_padding = (bs ! 46, bs ! 47)\<rparr>"

interpretation order_codec: pod_codec "order_bytes h" "order_of_bytes h" order_size
  by unfold_locales (simp_all add: order_bytes_def order_of_bytes_def order_size_def nth_append)

text \<open>
  The wire: one host writes the bytes of the value's little-endian form, and another, of either byte
  order, reads them and converts.
\<close>

locale wire_codec =
  fixes bytes_of :: "endian \<Rightarrow> 'a \<Rightarrow> u8 list" and from_bytes :: "endian \<Rightarrow> u8 list \<Rightarrow> 'a"
    and to_le :: "endian \<Rightarrow> 'a \<Rightarrow> 'a" and from_le :: "endian \<Rightarrow> 'a \<Rightarrow> 'a" and size :: nat
  assumes length_wire: "length (bytes_of h x) = size"
    and read_wire: "from_le h' (from_bytes h' (bytes_of h (to_le h x))) = x"
begin

lemma wire_front:
  "take size (bytes_of h x @ rest) = bytes_of h x" "drop size (bytes_of h x @ rest) = rest"
  using length_wire [of h x] by simp_all

lemma wire_length: "size \<le> length (bytes_of h x @ rest)"
  by (simp add: length_wire)

end

lemma Order_from_to_le [simp]: "Order_from_le h (Order_to_le h o') = o'"
  by (simp add: Order_from_le_def Order_to_le_def)

interpretation order_wire: wire_codec order_bytes order_of_bytes Order_to_le Order_from_le order_size
  by unfold_locales
    (simp_all add: order_bytes_def order_of_bytes_def order_size_def Order_to_le_def Order_from_le_def nth_append)

section \<open>Ingress\<close>

text \<open>
  One frame of the reader loop: the order on the host, the check of the protocol magic, which ends the
  connection, and the quarantine, which takes the exchange id out of the client's hands.
\<close>

definition quarantine :: "Order \<Rightarrow> Order" where
  "quarantine order =
     (if unwrap_or (get_order_type order) Limit \<noteq> Cancel then
        (let order = (if ord_client_order_id order = 0
                      then order\<lparr>ord_client_order_id := ord_id order\<rparr> else order)
         in order\<lparr>ord_id := 0\<rparr>)
      else order)"

definition ingress_frame :: "endian \<Rightarrow> u64 \<Rightarrow> Order \<Rightarrow> InboundMessage option" where
  "ingress_frame h client_id raw_order =
     (let order = Order_from_le h raw_order in
      if ord_magic order \<noteq> ORDER_MAGIC then None
      else Some \<lparr>im_order = quarantine order, im_client_id = client_id\<rparr>)"

text \<open>
  The reader loop on the bytes of a connection, up to the first incomplete frame or bad magic. The
  queue to the engine is open (a closed queue ends the loop as well).
\<close>

function reader_loop ::
  "(u8 list \<Rightarrow> Order) \<Rightarrow> endian \<Rightarrow> u64 \<Rightarrow> u8 list \<Rightarrow> InboundMessage list" where
  "reader_loop from_bytes h client_id bytes =
     (if length bytes < order_size then []
      else
        (case ingress_frame h client_id (from_bytes (take order_size bytes)) of
           None \<Rightarrow> []
         | Some inbound \<Rightarrow> inbound # reader_loop from_bytes h client_id (drop order_size bytes)))"
  by pat_completeness auto
termination
  by (relation "measure (\<lambda>(_, _, _, bytes). length bytes)") (auto simp: order_size_def)

declare reader_loop.simps [simp del]

text \<open>The writer task: the bytes of the messages a connection is sent.\<close>

definition writer_bytes :: "(ServerMessage \<Rightarrow> u8 list) \<Rightarrow> endian \<Rightarrow> ServerMessage list \<Rightarrow> u8 list" where
  "writer_bytes bytes_of h msgs = concat (map (\<lambda>msg. bytes_of (ServerMessage_to_le h msg)) msgs)"

section \<open>Connections\<close>

text \<open>
  A connection from its registration with the dispatcher to its end: the events it sends there, and the
  messages it sends to the engine.
\<close>

definition handle_client ::
  "(u8 list \<Rightarrow> Order) \<Rightarrow> endian \<Rightarrow> 'sender \<Rightarrow> u64 \<Rightarrow> u8 list \<Rightarrow> 'sender ConnectionEvent list \<times> InboundMessage list" where
  "handle_client from_bytes h outbound_tx client_id stream =
     ([Connected client_id outbound_tx, Disconnected client_id], reader_loop from_bytes h client_id stream)"

text \<open>
  The accept loop on the results of \<open>accept\<close> (\<open>None\<close> is an error), with the counter of client ids: the
  connections that are served, each with its id.
\<close>

fun run_gateway :: "u64 \<Rightarrow> 'socket option list \<Rightarrow> (u64 \<times> 'socket) list" where
  "run_gateway next_client_id [] = []"
| "run_gateway next_client_id (Some socket # rest) = (next_client_id, socket) # run_gateway (next_client_id + 1) rest"
| "run_gateway next_client_id (None # rest) = run_gateway next_client_id rest"

section \<open>Lemmas\<close>

lemma quarantine_sel [simp]:
  "ord_qty (quarantine o') = ord_qty o'" "ord_price (quarantine o') = ord_price o'"
  "ord_side (quarantine o') = ord_side o'" "ord_order_type (quarantine o') = ord_order_type o'"
  "ord_user_id (quarantine o') = ord_user_id o'" "ord_symbol_id (quarantine o') = ord_symbol_id o'"
  by (simp_all add: quarantine_def Let_def)

lemma reader_loop_short: "length bytes < order_size \<Longrightarrow> reader_loop from_bytes h cid bytes = []"
  by (subst reader_loop.simps) simp

context wire_codec
begin

text \<open>A loop over frames of the codec's size, each converted and answered or the end.\<close>

lemma frames_loop:
  fixes loop :: "u8 list \<Rightarrow> 'b list"
  assumes step: "\<And>bs. loop bs = (if length bs < size then []
      else (case frame (from_le h' (from_bytes h' (take size bs))) of None \<Rightarrow> [] | Some y \<Rightarrow> y # loop (drop size bs)))"
    and rest: "length rest < size"
  shows "loop (concat (map (\<lambda>x. bytes_of h (to_le h x)) xs) @ rest) =
    map (\<lambda>x. the (frame x)) (takeWhile (\<lambda>x. frame x \<noteq> None) xs)"
proof (induction xs)
  case Nil
  show ?case using rest by (subst step) simp
next
  case (Cons x xs)
  then show ?case
    by (subst step) (auto simp: wire_front read_wire length_wire split: option.split)
qed

end

lemma reader_loop_frames:
  assumes W: "wire_codec bytes_of from_bytes Order_to_le Order_from_le order_size" and rest: "length rest < order_size"
  shows "reader_loop (from_bytes h') h' cid (concat (map (\<lambda>o'. bytes_of h (Order_to_le h o')) os) @ rest) =
    map (\<lambda>o'. \<lparr>im_order = quarantine o', im_client_id = cid\<rparr>) (takeWhile (\<lambda>o'. ord_magic o' = ORDER_MAGIC) os)"
proof -
  let ?f = "\<lambda>order. if ord_magic order \<noteq> ORDER_MAGIC then None
    else Some \<lparr>im_order = quarantine order, im_client_id = cid\<rparr>"
  have "reader_loop (from_bytes h') h' cid bs = (if length bs < order_size then []
      else (case ?f (Order_from_le h' (from_bytes h' (take order_size bs))) of
        None \<Rightarrow> [] | Some y \<Rightarrow> y # reader_loop (from_bytes h') h' cid (drop order_size bs)))" for bs
    by (subst reader_loop.simps) (simp add: ingress_frame_def Let_def)
  from wire_codec.frames_loop [OF W this rest, of h os] show ?thesis
    by (auto simp: takeWhile_map cong: takeWhile_cong map_cong dest: set_takeWhileD)
qed

text \<open>Any bytes at all: the messages of the reader loop are the quarantined frames they come from.\<close>

lemma quarantine_eq:
  "quarantine order =
     (if get_order_type order = Some Cancel then order
      else order\<lparr>ord_id := 0,
             ord_client_order_id := if ord_client_order_id order = 0 then ord_id order else ord_client_order_id order\<rparr>)"
  by (cases "get_order_type order") (auto simp: quarantine_def Let_def)

lemma reader_loop_nth:
  "j < length (reader_loop from_bytes h cid bytes) \<Longrightarrow>
     Suc j * order_size \<le> length bytes \<and>
     ingress_frame h cid (from_bytes (take order_size (drop (j * order_size) bytes))) =
       Some (reader_loop from_bytes h cid bytes ! j)"
proof (induction from_bytes h cid bytes arbitrary: j rule: reader_loop.induct)
  case (1 from_bytes h cid bytes)
  from "1.prems" have len: "\<not> length bytes < order_size" by (auto simp: reader_loop_short)
  with "1.prems" obtain m where m: "ingress_frame h cid (from_bytes (take order_size bytes)) = Some m"
    by (subst (asm) reader_loop.simps) (auto split: option.splits)
  with len have l: "reader_loop from_bytes h cid bytes = m # reader_loop from_bytes h cid (drop order_size bytes)"
    by (subst reader_loop.simps) simp
  show ?case
  proof (cases j)
    case 0
    with l m len show ?thesis by simp
  next
    case (Suc k)
    with l "1.prems" have "k < length (reader_loop from_bytes h cid (drop order_size bytes))" by simp
    from "1.IH" [OF len m this] l Suc show ?thesis by (auto simp: add.commute)
  qed
qed

lemma run_gateway_ids:
  "length rs \<le> 2 ^ 64 \<Longrightarrow>
     map fst (run_gateway n rs) = map (\<lambda>k. n + of_nat k) [0..<length (run_gateway n rs)] \<and>
     length (run_gateway n rs) \<le> length rs"
proof (induction n rs rule: run_gateway.induct)
  case (2 n socket rest)
  have "[0..<Suc m] = 0 # map Suc [0..<m]" for m by (simp add: map_Suc_upt upt_conv_Cons)
  with 2 show ?case by (simp add: comp_def add.assoc del: upt_Suc)
qed simp_all

lemma of_nat_inj_on: "m \<le> 2 ^ 64 \<Longrightarrow> inj_on (\<lambda>k. n + of_nat k :: u64) (set [0..<m])"
proof (rule inj_onI)
  fix x y assume m: "m \<le> 2 ^ 64" and x: "x \<in> set [0..<m]" and y: "y \<in> set [0..<m]"
    and e: "n + of_nat x = n + (of_nat y :: u64)"
  then have "unat (of_nat x :: u64) = unat (of_nat y :: u64)" by simp
  with m x y show "x = y" by (simp add: unat_of_nat take_bit_nat_eq_self)
qed

section \<open>Guarantees of the gateway\<close>

text \<open>C21. Ingress framing: whatever orders a client encodes, on a host of either byte order, and
  wherever its byte stream is cut, the reader loop delivers exactly the complete frames before the first
  one of a wrong magic, in order, quarantined, under the connection's id.\<close>

theorem ingress_delivers_frames:
  assumes "wire_codec bytes_of from_bytes Order_to_le Order_from_le order_size" and "length rest < order_size"
  shows "reader_loop (from_bytes h') h' cid (concat (map (\<lambda>o'. bytes_of h (Order_to_le h o')) os) @ rest) =
    map (\<lambda>o'. \<lparr>im_order = quarantine o', im_client_id = cid\<rparr>) (takeWhile (\<lambda>o'. ord_magic o' = ORDER_MAGIC) os)"
  by (rule reader_loop_frames [OF assms])

theorem ingress_delivers_frames_witness:
  "reader_loop (order_of_bytes Big) Big 5
     (concat (map (\<lambda>o'. order_bytes Little (Order_to_le Little o'))
        [new_limit 77 1 Btc Buy 100 3, new_cancel 12 1 Btc, Order_default\<lparr>ord_magic := 0\<rparr>, new_cancel 13 1 Btc]) @ [1, 2]) =
   [\<lparr>im_order = (new_limit 77 1 Btc Buy 100 3)\<lparr>ord_id := 0\<rparr>, im_client_id = 5\<rparr>,
    \<lparr>im_order = new_cancel 12 1 Btc, im_client_id = 5\<rparr>]"
  by (subst ingress_delivers_frames [OF order_wire.wire_codec_axioms])
    (simp_all add: order_size_def Order_default_def quarantine_def ORDER_MAGIC_def ob_simps)

text \<open>C22. Quarantine, for any bytes a client may send: the message of number \<open>j\<close> that its connection passes on
  lies in complete frames, carries the id of the connection and the magic, and is the frame's order; unless
  it is a cancel, it has no exchange id, and its client order id is the frame's, or the number that the client
  put in the place of the exchange id.\<close>

theorem ingress_quarantine:
  assumes "j < length (reader_loop from_bytes h cid bytes)"
  shows "let m = reader_loop from_bytes h cid bytes ! j;
             order = Order_from_le h (from_bytes (take order_size (drop (j * order_size) bytes)))
         in Suc j * order_size \<le> length bytes \<and> im_client_id m = cid \<and> ord_magic (im_order m) = ORDER_MAGIC \<and>
            (if get_order_type order = Some Cancel then im_order m = order
             else im_order m = order\<lparr>ord_id := 0,
                    ord_client_order_id := if ord_client_order_id order = 0 then ord_id order
                                           else ord_client_order_id order\<rparr>)"
proof -
  let ?order = "Order_from_le h (from_bytes (take order_size (drop (j * order_size) bytes)))"
  have m: "ord_magic ?order = ORDER_MAGIC" "Suc j * order_size \<le> length bytes"
    "reader_loop from_bytes h cid bytes ! j = \<lparr>im_order = quarantine ?order, im_client_id = cid\<rparr>"
    using reader_loop_nth [OF assms] by (simp_all add: ingress_frame_def Let_def split: if_splits)
  show ?thesis unfolding Let_def m(3) using m(1,2) by (simp add: quarantine_eq)
qed

theorem ingress_quarantine_witness:
  "im_order (reader_loop (order_of_bytes Little) Little 5
     (order_bytes Little (Order_to_le Little (new_limit 9 1 Btc Sell 100 5\<lparr>ord_client_order_id := 0\<rparr>))) ! 0) =
   new_client_limit 9 1 Btc Sell 100 5"
proof -
  let ?o = "new_limit 9 1 Btc Sell 100 5\<lparr>ord_client_order_id := 0\<rparr>"
  let ?bytes = "order_bytes Little (Order_to_le Little ?o)"
  have "length (reader_loop (order_of_bytes Little) Little 5 ?bytes) = 1"
    using reader_loop_frames [OF order_wire.wire_codec_axioms, of "[]" Little 5 Little "[?o]"]
    by (simp add: order_size_def ob_simps)
  moreover have "Order_from_le Little (order_of_bytes Little ?bytes) = ?o" "take order_size ?bytes = ?bytes"
    using order_wire.read_wire order_wire.length_wire by simp_all
  ultimately show ?thesis
    using ingress_quarantine [of 0 "order_of_bytes Little" Little 5 ?bytes] by (simp add: ob_simps Let_def)
qed

text \<open>As long as fewer than \<open>2^64\<close> connections have been accepted no two have the same client id.\<close>

lemma client_ids_distinct:
  assumes "length rs \<le> 2 ^ 64"
  shows "distinct (map fst (run_gateway n rs))"
  using run_gateway_ids [OF assms, of n] of_nat_inj_on [of "length (run_gateway n rs)" n] assms
  by (simp add: distinct_map del: set_upt)

end
