(* ===== verification/Component_Props.thy ===== *)
theory Component_Props
  imports Level_Queue Fast_Indices Gateway
begin

text \<open>
  The containers of the order book against their specifications: the order index is a bounded map, the
  order arena a stack of free nodes, the queue of a price level a FIFO list with removal. All three are
  command machines: any sequence of operations returns, with the results of the specification.
\<close>

section \<open>Command machines\<close>

primrec run :: "('s \<Rightarrow> 'c \<Rightarrow> ('s \<times> 'r) option) \<Rightarrow> 's \<Rightarrow> 'c list \<Rightarrow> ('s \<times> 'r list) option" where
  "run step s [] = Some (s, [])"
| "run step s (c # cs) =
     do {
       (s, r) \<leftarrow> step s c;
       (s, rs) \<leftarrow> run step s cs;
       Some (s, r # rs)
     }"

primrec spec_run :: "('a \<Rightarrow> 'c \<Rightarrow> 'a \<times> 'r) \<Rightarrow> 'a \<Rightarrow> 'c list \<Rightarrow> 'r list" where
  "spec_run astep a [] = []"
| "spec_run astep a (c # cs) = snd (astep a c) # spec_run astep (fst (astep a c)) cs"

primrec legal_run :: "('a \<Rightarrow> 'c \<Rightarrow> bool) \<Rightarrow> ('a \<Rightarrow> 'c \<Rightarrow> 'a \<times> 'r) \<Rightarrow> 'a \<Rightarrow> 'c list \<Rightarrow> bool" where
  "legal_run legal astep a [] = True"
| "legal_run legal astep a (c # cs) = (legal a c \<and> legal_run legal astep (fst (astep a c)) cs)"

locale command_machine =
  fixes step :: "'s \<Rightarrow> 'c \<Rightarrow> ('s \<times> 'r) option" and astep :: "'a \<Rightarrow> 'c \<Rightarrow> 'a \<times> 'r"
    and legal :: "'a \<Rightarrow> 'c \<Rightarrow> bool" and rel :: "'s \<Rightarrow> 'a \<Rightarrow> bool"
  assumes step_sim: "rel s a \<Longrightarrow> legal a c \<Longrightarrow>
      \<exists>s'. step s c = Some (s', snd (astep a c)) \<and> rel s' (fst (astep a c))"
begin

lemma run_sim:
  "rel s a \<Longrightarrow> legal_run legal astep a cs \<Longrightarrow> \<exists>s'. run step s cs = Some (s', spec_run astep a cs)"
proof (induction cs arbitrary: s a)
  case (Cons c cs)
  from step_sim [OF Cons.prems(1)] Cons.prems(2) obtain s1 where
    s1: "step s c = Some (s1, snd (astep a c))" "rel s1 (fst (astep a c))" by auto
  from Cons.IH [OF s1(2)] Cons.prems(2) s1(1) show ?case by auto
qed simp

end

lemma legal_all: "legal_run (\<lambda>_ _. True) astep a cs"
  by (induction cs arbitrary: a) simp_all

section \<open>The order index\<close>

datatype index_cmd =
  Index_Insert u64 u64 u64 u64 u32 u8
| Index_Lookup u64
| Index_Remove u64

type_synonym index_result = "(RejectReason + unit) + FastIndexEntry option"

fun index_step :: "FastOrderIndex \<Rightarrow> index_cmd \<Rightarrow> (FastOrderIndex \<times> index_result) option" where
  "index_step t (Index_Insert oid cid uid p n s) =
     do { (t, r) \<leftarrow> foi_insert t oid cid uid p n s; Some (t, Inl r) }"
| "index_step t (Index_Lookup oid) = do { r \<leftarrow> foi_lookup t oid; Some (t, Inr r) }"
| "index_step t (Index_Remove oid) = do { (t, r) \<leftarrow> foi_remove t oid; Some (t, Inr r) }"

text \<open>The specification: a map of at most 209715 entries, 80 percent of the table.\<close>

fun map_step :: "(u64 \<rightharpoonup> FastIndexEntry) \<Rightarrow> index_cmd \<Rightarrow> (u64 \<rightharpoonup> FastIndexEntry) \<times> index_result" where
  "map_step m (Index_Insert oid cid uid p n s) =
     (if card (dom m) < 209715
      then (m(oid \<mapsto> \<lparr>fi_order_id = oid, fi_client_order_id = cid, fi_user_id = uid, fi_price = p,
                      fi_node_idx = n, fi_side = s, fi_occupied = True\<rparr>), Inl (Inr ()))
      else (m, Inl (Inl EngineFull)))"
| "map_step m (Index_Lookup oid) = (m, Inr (m oid))"
| "map_step m (Index_Remove oid) = (m(oid := None), Inr (m oid))"

interpretation index_machine: command_machine index_step map_step "\<lambda>_ _. True"
  "\<lambda>t m. order_index_ok t \<and> order_map t = m"
proof
  fix t m c
  assume "order_index_ok t \<and> order_map t = m"
  then have t: "order_index_ok t" "order_map t = m" "tb_count t = card (dom m)"
    using count_order_index by auto
  show "\<exists>t'. index_step t c = Some (t', snd (map_step m c)) \<and>
      order_index_ok t' \<and> order_map t' = fst (map_step m c)"
  proof (cases c)
    case (Index_Insert oid cid uid p n s)
    with t foi_insert_ok [of t oid cid uid p n s] foi_insert_full [of t oid cid uid p n s] show ?thesis
      by (cases "card (dom m) < 209715") auto
  next
    case (Index_Lookup oid)
    with t show ?thesis by (simp add: foi_lookup_eq)
  next
    case (Index_Remove oid)
    with t foi_remove_ok [OF t(1), of oid] show ?thesis by auto
  qed
qed

section \<open>The order arena\<close>

datatype arena_cmd = Arena_Alloc Order u64 | Arena_Free u32

fun arena_step :: "OrderArena \<Rightarrow> arena_cmd \<Rightarrow> (OrderArena \<times> (RejectReason + u32) option) option" where
  "arena_step a (Arena_Alloc order cid) = do { (a, r) \<leftarrow> oa_allocate a order cid; Some (a, Some r) }"
| "arena_step a (Arena_Free i) = Some (oa_deallocate a i, None)"

text \<open>The specification: the number of nodes and the stack of the free ones.\<close>

fun stack_step :: "nat \<times> u32 list \<Rightarrow> arena_cmd \<Rightarrow> (nat \<times> u32 list) \<times> (RejectReason + u32) option" where
  "stack_step (n, []) (Arena_Alloc order cid) = ((n, []), Some (Inl EngineFull))"
| "stack_step (n, i # fs) (Arena_Alloc order cid) = ((n, fs), Some (Inr i))"
| "stack_step (n, fs) (Arena_Free i) = ((n, if unat i < n then i # fs else fs), None)"

text \<open>No node is freed twice.\<close>

fun arena_legal :: "nat \<times> u32 list \<Rightarrow> arena_cmd \<Rightarrow> bool" where
  "arena_legal a (Arena_Alloc order cid) = True"
| "arena_legal (n, fs) (Arena_Free i) = (i \<notin> set fs)"

interpretation arena_machine: command_machine arena_step stack_step arena_legal
  "\<lambda>a s. oa_free a (snd s) \<and> vlen (oa_nodes a) = fst s"
proof
  fix a s c
  assume r: "oa_free a (snd s) \<and> vlen (oa_nodes a) = fst s" and l: "arena_legal s c"
  obtain n fs where s: "s = (n, fs)" by (rule prod.exhaust)
  show "\<exists>a'. arena_step a c = Some (a', snd (stack_step s c)) \<and>
      oa_free a' (snd (fst (stack_step s c))) \<and> vlen (oa_nodes a') = fst (fst (stack_step s c))"
  proof (cases c)
    case (Arena_Alloc order cid)
    with r s oal.alloc_full [of a "(order, cid)"] oal.alloc_head [of a _ _ "(order, cid)"] show ?thesis
      by (cases fs) fastforce+
  next
    case (Arena_Free i)
    with r s l oal.dealloc_push [of a fs i] show ?thesis
      by (cases "unat i < n") (auto simp: oa_deallocate_def)
  qed
qed
section \<open>The queue of a price level\<close>

datatype queue_cmd = Queue_Push u32 | Queue_Pop | Queue_Unlink u32

fun queue_step ::
  "OrderArena \<times> PriceLevelNode \<Rightarrow> queue_cmd \<Rightarrow> ((OrderArena \<times> PriceLevelNode) \<times> u32 option) option" where
  "queue_step (a, l) (Queue_Push i) = do { (l, a) \<leftarrow> push_order l i a; Some ((a, l), None) }"
| "queue_step (a, l) Queue_Pop = do { (l, a, r) \<leftarrow> pop_order l a; Some ((a, l), r) }"
| "queue_step (a, l) (Queue_Unlink i) = do { (l, a) \<leftarrow> unlink_order l i a; Some ((a, l), None) }"

text \<open>The specification: the number of nodes of the arena and the queue, oldest first.\<close>

fun fifo_step :: "nat \<times> u32 list \<Rightarrow> queue_cmd \<Rightarrow> (nat \<times> u32 list) \<times> u32 option" where
  "fifo_step (n, q) (Queue_Push i) = ((n, q @ [i]), None)"
| "fifo_step (n, q) Queue_Pop = (case q of [] \<Rightarrow> ((n, []), None) | i # q' \<Rightarrow> ((n, q'), Some i))"
| "fifo_step (n, q) (Queue_Unlink i) = ((n, remove1 i q), None)"

text \<open>A node is pushed when it is in no queue, and unlinked from the queue it is in.\<close>

fun queue_legal :: "nat \<times> u32 list \<Rightarrow> queue_cmd \<Rightarrow> bool" where
  "queue_legal (n, q) (Queue_Push i) = (unat i < n \<and> i \<notin> set q)"
| "queue_legal (n, q) Queue_Pop = True"
| "queue_legal (n, q) (Queue_Unlink i) = (i \<in> set q)"

interpretation queue_machine: command_machine queue_step fifo_step queue_legal
  "\<lambda>s t. queue_ok (fst s) (snd s) (snd t) \<and> olen (fst s) = fst t"
proof
  fix s t c
  assume r: "queue_ok (fst s) (snd s) (snd t) \<and> olen (fst s) = fst t" and l: "queue_legal t c"
  obtain a p where s: "s = (a, p)" by (rule prod.exhaust)
  obtain n q where t: "t = (n, q)" by (rule prod.exhaust)
  from r have q: "queue_ok a p q" "olen a = n" by (simp_all add: s t)
  show "\<exists>s'. queue_step s c = Some (s', snd (fifo_step t c)) \<and>
      queue_ok (fst s') (snd s') (snd (fst (fifo_step t c))) \<and> olen (fst s') = fst (fst (fifo_step t c))"
  proof (cases c)
    case (Queue_Push i)
    with l q have "unat i < olen a" "i \<notin> set q" by (simp_all add: t)
    from push_order_ok [OF q(1) this] obtain a' l' where
      "push_order p i a = Some (l', a')" "queue_ok a' l' (q @ [i])" "same_data a a'" by metis
    with Queue_Push q(2) show ?thesis by (auto simp: s t same_data_def)
  next
    case Queue_Pop
    show ?thesis
    proof (cases q)
      case Nil
      with Queue_Pop q pop_order_Nil [of a p] show ?thesis by (simp add: s t)
    next
      case (Cons i q')
      from pop_order_Cons [OF q(1) [unfolded Cons]] obtain a' l' where
        "pop_order p a = Some (l', a', Some i)" "queue_ok a' l' q'" "same_data a a'" by metis
      with Queue_Pop q(2) Cons show ?thesis by (auto simp: s t same_data_def)
    qed
  next
    case (Queue_Unlink i)
    with l have "i \<in> set q" by (simp add: t)
    then obtain xs ys where q': "q = xs @ i # ys" "i \<notin> set xs" by (meson split_list_first)
    from unlink_order_ok [OF q(1) [unfolded q'(1)]] obtain a' l' where
      "unlink_order p i a = Some (l', a')" "queue_ok a' l' (xs @ ys)" "same_data a a'" by metis
    with Queue_Unlink q(2) q' show ?thesis by (auto simp: s t same_data_def remove1_append)
  qed
qed

section \<open>The wire\<close>

lemma order_bytes_to_le: "order_bytes h (Order_to_le h o') = order_bytes Little o'"
  by (simp add: order_bytes_def Order_to_le_def mem_bytes_to_le)

section \<open>Guarantees of the containers\<close>

text \<open>C17. The order index is a map: for any sequence of insertions, lookups and removals the open-addressing
  table returns (no probe loop diverges, no slot is out of bounds), with the results of a finite map that
  takes up to 209715 entries, whatever collisions and shifts happen on the way.\<close>

theorem order_index_is_map:
  "\<exists>t. run index_step foi_new cmds = Some (t, spec_run map_step Map.empty cmds)"
  by (rule index_machine.run_sim) (simp_all add: legal_all)

text \<open>The order arena is a stack of free nodes: for any sequence of allocations and frees in which no free
  node is freed again, an arena of \<open>n\<close> nodes returns the results of a stack that starts with
  0, 1, and so on up to \<open>n - 1\<close>. So no node is handed out twice, and \<open>EngineFull\<close> comes exactly when all
  nodes are in use.\<close>

lemma order_arena_is_stack:
  assumes "0 < n" and "n \<le> 4294967295" and "legal_run arena_legal stack_step (n, map of_nat [0..<n]) cmds"
  shows "\<exists>a. run arena_step (OrderArena_new n) cmds = Some (a, spec_run stack_step (n, map of_nat [0..<n]) cmds)"
  by (rule arena_machine.run_sim [OF _ assms(3)]) (use oa_free_new [OF assms(1,2)] in \<open>simp add: OrderArena_new_def\<close>)

lemma order_arena_is_stack_witness:
  "\<exists>a. run arena_step (OrderArena_new 2)
     [Arena_Alloc Order_default 7, Arena_Alloc Order_default 8, Arena_Alloc Order_default 9, Arena_Free 0, Arena_Alloc Order_default 9] =
   Some (a, [Some (Inr 0), Some (Inr 1), Some (Inl EngineFull), None, Some (Inr 0)])"
  using order_arena_is_stack [of 2 "[Arena_Alloc Order_default 7, Arena_Alloc Order_default 8,
      Arena_Alloc Order_default 9, Arena_Free 0, Arena_Alloc Order_default 9]"]
  by (simp add: upt_rec)

text \<open>C29. A price level is a FIFO queue: on the doubly linked nodes of an arena, any legal sequence of pushes, pops
  and removals from the middle has the results of a list, oldest order first.\<close>

theorem level_queue_is_fifo:
  assumes "queue_ok a l q" and "legal_run queue_legal fifo_step (olen a, q) cmds"
  shows "\<exists>s. run queue_step (a, l) cmds = Some (s, spec_run fifo_step (olen a, q) cmds)"
  by (rule queue_machine.run_sim [OF _ assms(2)]) (use assms(1) in simp)

theorem level_queue_is_fifo_witness:
  "\<exists>s. run queue_step (OrderArena_new 3, PriceLevelNode_default)
     [Queue_Push 1, Queue_Push 0, Queue_Push 2, Queue_Unlink 0, Queue_Pop, Queue_Pop, Queue_Pop] =
   Some (s, [None, None, None, None, Some 1, Some 2, None])"
proof -
  have "queue_ok (OrderArena_new 3) PriceLevelNode_default []"
    by (simp add: queue_ok_def PriceLevelNode_default_def OrderArena_new_def)
  from level_queue_is_fifo [OF this, of "[Queue_Push 1, Queue_Push 0, Queue_Push 2, Queue_Unlink 0, Queue_Pop, Queue_Pop, Queue_Pop]"]
  show ?thesis by (simp add: OrderArena_new_def)
qed

text \<open>The wire format is portable: an order encoded on a host of either endianness and decoded on a host of
  either endianness is the same order, field by field, and the bytes in between do not depend on the hosts.\<close>

lemma wire_roundtrip:
  "Order_from_le h' (order_of_bytes h' (order_bytes h (Order_to_le h o'))) = o' \<and>
   order_bytes h (Order_to_le h o') = order_bytes h' (Order_to_le h' o')"
proof -
  have "order_bytes h (Order_to_le h o') = order_bytes h' (Order_to_le h' o')"
    by (simp only: order_bytes_to_le)
  then show ?thesis by (simp add: order_codec.from_bytes_of)
qed

text \<open>C31. Checked decoding: the enum fields of a decoded order are accepted exactly when they hold the byte of a
  constructor, and then yield that constructor; every other byte is refused. In particular a symbol id is
  accepted exactly when it is the number of one of the \<open>NUM_SYMBOLS\<close> books.\<close>

theorem enums_decode_exactly:
  "(get_side o' = Some s \<longleftrightarrow> ord_side o' = Side_as s) \<and>
   (get_order_type o' = Some t \<longleftrightarrow> ord_order_type o' = OrderType_as t) \<and>
   (get_symbol o' = Some y \<longleftrightarrow> ord_symbol_id o' = Symbol_as y) \<and>
   (Symbol_try_from_u8 b = Inr y \<longleftrightarrow> ucast b = Symbol_as y) \<and>
   (get_symbol o' \<noteq> None \<longleftrightarrow> unat (ord_symbol_id o') < NUM_SYMBOLS)"
proof -
  have sym: "get_symbol o' = Some y \<longleftrightarrow> ord_symbol_id o' = Symbol_as y" for y
    by (cases y) (auto simp: get_symbol_def Symbol_try_from_u16_def)
  then have "get_symbol o' \<noteq> None \<longleftrightarrow> unat (ord_symbol_id o') < NUM_SYMBOLS"
    unfolding symbol_id_iff [symmetric] by (metis not_None_eq)
  moreover have "Symbol_try_from_u8 b = Inr y \<longleftrightarrow> (ucast b :: u16) = Symbol_as y"
  proof -
    have "unat (ucast b :: u16) = unat b"
    proof -
      have "unat b < 2 ^ LENGTH(8)" by (rule unsigned_less)
      then have "unat b < 2 ^ 16" by simp
      then show ?thesis by (simp only: unsigned_ucast_eq len_num1 len_bit0) (simp add: take_bit_nat_eq_self)
    qed
    then show ?thesis
      by (cases y) (simp_all only: Symbol_try_from_u8_def Symbol_as.simps word_unat_eq_iff, auto)
  qed
  ultimately show ?thesis
    using sym [of y] get_side_Some_iff [of o' s] get_order_type_Some_iff [of o' t] by blast
qed

end
