(* ===== verification/Risk.thy ===== *)
theory Risk
  imports OB_Types
begin

text \<open>
  The risk engine of \<open>src/risk.rs\<close>: the accounts, deposits, the pre-trade margin reservation, the
  release of margin, the refund of market orders and the settlement of trades. The array fields
  \<open>[u64; NUM_SYMBOLS]\<close> are vectors; every access is behind the code's check of the symbol index, so
  no access can be out of range. The lemmas describe every operation in natural numbers: what it
  moves between the available and the locked funds of which account, and under which conditions
  nothing wraps around or saturates.
\<close>

section \<open>Accounts\<close>

record Account =
  ac_user_id :: u64
  ac_usd_available :: u64
  ac_usd_locked :: u64
  ac_asset_available :: "u64 vec"
  ac_asset_locked :: "u64 vec"

definition Account_new :: "u64 \<Rightarrow> u64 \<Rightarrow> Account" where
  "Account_new user_id initial_usd =
     \<lparr>ac_user_id = user_id, ac_usd_available = initial_usd, ac_usd_locked = 0,
      ac_asset_available = Vec NUM_SYMBOLS (\<lambda>_. 0), ac_asset_locked = Vec NUM_SYMBOLS (\<lambda>_. 0)\<rparr>"

record RiskEngine =
  re_accounts :: "u64 \<rightharpoonup> Account"

definition RiskEngine_new :: RiskEngine where
  "RiskEngine_new = \<lparr>re_accounts = Map.empty\<rparr>"

text \<open>\<open>if let Some(account) = self.accounts.get_mut(&id)\<close>: an update of an account that exists.\<close>

definition with_account :: "RiskEngine \<Rightarrow> u64 \<Rightarrow> (Account \<Rightarrow> Account) \<Rightarrow> RiskEngine" where
  "with_account re uid f =
     (case re_accounts re uid of
        Some a \<Rightarrow> re\<lparr>re_accounts := (re_accounts re)(uid \<mapsto> f a)\<rparr>
      | None \<Rightarrow> re)"

definition deposit :: "RiskEngine \<Rightarrow> u64 \<Rightarrow> u64 \<Rightarrow> u16 \<Rightarrow> u64 \<Rightarrow> RiskEngine" where
  "deposit re user_id usd symbol_id asset_qty =
     (let sym_idx = unat symbol_id in
      if sym_idx \<ge> NUM_SYMBOLS then re
      else
        let account = (case re_accounts re user_id of Some a \<Rightarrow> a | None \<Rightarrow> Account_new user_id 0)
        in re\<lparr>re_accounts := (re_accounts re)(user_id \<mapsto>
                account\<lparr>ac_usd_available := ac_usd_available account + usd,
                        ac_asset_available := vupd (ac_asset_available account) sym_idx (\<lambda>v. v + asset_qty)\<rparr>)\<rparr>)"

definition get_account :: "RiskEngine \<Rightarrow> u64 \<Rightarrow> Account option" where
  "get_account re user_id = re_accounts re user_id"

section \<open>Margin\<close>

definition lock_order_funds :: "RiskEngine \<Rightarrow> Order \<Rightarrow> RiskEngine \<times> (RejectReason + unit)" where
  "lock_order_funds re order =
     (let order_type = unwrap_or (get_order_type order) Limit;
          sym_idx = unat (ord_symbol_id order)
      in
      if order_type = Cancel then (re, Inr ())
      else if ord_qty order = 0 then (re, Inl InvalidOrder)
      else if sym_idx \<ge> NUM_SYMBOLS then (re, Inl InvalidOrder)
      else
        (case re_accounts re (ord_user_id order) of
           None \<Rightarrow> (re, Inl Unauthorized)
         | Some account \<Rightarrow>
             if ord_side order = Side_as Buy then
               (if ord_price order = 0 then (re, Inl InvalidOrder)
                else
                  (case checked_mul (ord_price order) (ord_qty order) of
                     None \<Rightarrow> (re, Inl InvalidOrder)
                   | Some required_usd \<Rightarrow>
                       if ac_usd_available account < required_usd then (re, Inl InsufficientFunds)
                       else
                         (re\<lparr>re_accounts := (re_accounts re)(ord_user_id order \<mapsto>
                            account\<lparr>ac_usd_available := ac_usd_available account - required_usd,
                                    ac_usd_locked := ac_usd_locked account + required_usd\<rparr>)\<rparr>,
                          Inr ())))
             else if vfun (ac_asset_available account) sym_idx < ord_qty order
             then (re, Inl InsufficientFunds)
             else
               (re\<lparr>re_accounts := (re_accounts re)(ord_user_id order \<mapsto>
                  account\<lparr>ac_asset_available := vupd (ac_asset_available account) sym_idx (\<lambda>v. v - ord_qty order),
                          ac_asset_locked := vupd (ac_asset_locked account) sym_idx (\<lambda>v. v + ord_qty order)\<rparr>)\<rparr>,
                Inr ())))"

definition unlock_order_funds ::
  "RiskEngine \<Rightarrow> u64 \<Rightarrow> u16 \<Rightarrow> Side \<Rightarrow> u64 \<Rightarrow> u64 \<Rightarrow> RiskEngine" where
  "unlock_order_funds re user_id symbol_id side price unexecuted_qty =
     (let sym_idx = unat symbol_id in
      if unexecuted_qty = 0 then re
      else if sym_idx \<ge> NUM_SYMBOLS then re
      else
        with_account re user_id
          (\<lambda>account.
             if side = Buy then
               (let locked_usd = sat_mul price unexecuted_qty in
                account\<lparr>ac_usd_locked := sat_sub (ac_usd_locked account) locked_usd,
                        ac_usd_available := ac_usd_available account + locked_usd\<rparr>)
             else
               account\<lparr>ac_asset_locked := vupd (ac_asset_locked account) sym_idx (\<lambda>v. sat_sub v unexecuted_qty),
                       ac_asset_available := vupd (ac_asset_available account) sym_idx (\<lambda>v. v + unexecuted_qty)\<rparr>))"

definition unlock_cancelled_order_margin :: "RiskEngine \<Rightarrow> Order \<Rightarrow> u64 \<Rightarrow> RiskEngine" where
  "unlock_cancelled_order_margin re order unexecuted_qty =
     (let side = unwrap_or (get_side order) Buy
      in unlock_order_funds re (ord_user_id order) (ord_symbol_id order) side (ord_price order) unexecuted_qty)"

definition refund_market_order_remainder ::
  "RiskEngine \<Rightarrow> u64 \<Rightarrow> u16 \<Rightarrow> Side \<Rightarrow> u64 \<Rightarrow> u64 \<Rightarrow> u64 \<Rightarrow> u64 \<Rightarrow> RiskEngine" where
  "refund_market_order_remainder re user_id symbol_id side budget_price total_requested_qty
     total_executed_qty total_executed_cost =
     (let sym_idx = unat symbol_id in
      if sym_idx \<ge> NUM_SYMBOLS then re
      else
        with_account re user_id
          (\<lambda>account.
             if side = Buy then
               (let locked_budget = sat_mul budget_price total_requested_qty in
                if locked_budget > total_executed_cost then
                  (let surplus = locked_budget - total_executed_cost in
                   account\<lparr>ac_usd_locked := sat_sub (ac_usd_locked account) surplus,
                           ac_usd_available := ac_usd_available account + surplus\<rparr>)
                else account)
             else
               (let unexecuted_qty = sat_sub total_requested_qty total_executed_qty in
                if unexecuted_qty > 0 then
                  account\<lparr>ac_asset_locked := vupd (ac_asset_locked account) sym_idx (\<lambda>v. sat_sub v unexecuted_qty),
                          ac_asset_available := vupd (ac_asset_available account) sym_idx (\<lambda>v. v + unexecuted_qty)\<rparr>
                else account)))"

section \<open>Settlement\<close>

definition settle_buyer :: "RiskEngine \<Rightarrow> Trade \<Rightarrow> u64 \<Rightarrow> RiskEngine" where
  "settle_buyer re trade taker_limit_price =
     (let total_cost = sat_mul (tr_price trade) (tr_qty trade);
          sym_idx = unat (tr_symbol_id trade)
      in with_account re (tr_buyer_id trade)
           (\<lambda>buyer.
              let locked_price = (if tr_buyer_id trade = tr_maker_user_id trade then tr_price trade
                                  else taker_limit_price);
                  locked_usd = sat_mul locked_price (tr_qty trade);
                  buyer = buyer\<lparr>ac_usd_locked := sat_sub (ac_usd_locked buyer) locked_usd\<rparr>;
                  buyer = (if locked_usd > total_cost
                           then buyer\<lparr>ac_usd_available := ac_usd_available buyer + (locked_usd - total_cost)\<rparr>
                           else buyer)
              in buyer\<lparr>ac_asset_available := vupd (ac_asset_available buyer) sym_idx (\<lambda>v. v + tr_qty trade)\<rparr>))"

definition settle_seller :: "RiskEngine \<Rightarrow> Trade \<Rightarrow> RiskEngine" where
  "settle_seller re trade =
     (let total_cost = sat_mul (tr_price trade) (tr_qty trade);
          sym_idx = unat (tr_symbol_id trade)
      in with_account re (tr_seller_id trade)
           (\<lambda>seller.
              seller\<lparr>ac_asset_locked := vupd (ac_asset_locked seller) sym_idx (\<lambda>v. sat_sub v (tr_qty trade)),
                     ac_usd_available := ac_usd_available seller + total_cost\<rparr>))"

definition settle_trade :: "RiskEngine \<Rightarrow> Trade \<Rightarrow> u64 \<Rightarrow> RiskEngine" where
  "settle_trade re trade taker_limit_price =
     (if unat (tr_symbol_id trade) \<ge> NUM_SYMBOLS then re
      else settle_seller (settle_buyer re trade taker_limit_price) trade)"

section \<open>Balances in natural numbers\<close>

text \<open>Balances of a user, zero without an account; and the supply that all accounts hold together.\<close>

definition usd_free :: "RiskEngine \<Rightarrow> u64 \<Rightarrow> nat" where
  "usd_free re u = (case re_accounts re u of Some a \<Rightarrow> unat (ac_usd_available a) | None \<Rightarrow> 0)"

definition usd_held :: "RiskEngine \<Rightarrow> u64 \<Rightarrow> nat" where
  "usd_held re u = (case re_accounts re u of Some a \<Rightarrow> unat (ac_usd_locked a) | None \<Rightarrow> 0)"

definition asset_free :: "RiskEngine \<Rightarrow> nat \<Rightarrow> u64 \<Rightarrow> nat" where
  "asset_free re s u = (case re_accounts re u of Some a \<Rightarrow> unat (vfun (ac_asset_available a) s) | None \<Rightarrow> 0)"

definition asset_held :: "RiskEngine \<Rightarrow> nat \<Rightarrow> u64 \<Rightarrow> nat" where
  "asset_held re s u = (case re_accounts re u of Some a \<Rightarrow> unat (vfun (ac_asset_locked a) s) | None \<Rightarrow> 0)"

definition usd_supply :: "RiskEngine \<Rightarrow> nat" where
  "usd_supply re = (\<Sum>u\<in>dom (re_accounts re). usd_free re u + usd_held re u)"

definition asset_supply :: "RiskEngine \<Rightarrow> nat \<Rightarrow> nat" where
  "asset_supply re s = (\<Sum>u\<in>dom (re_accounts re). asset_free re s u + asset_held re s u)"

section \<open>Updates of one account\<close>

abbreviation set_account :: "RiskEngine \<Rightarrow> u64 \<Rightarrow> Account \<Rightarrow> RiskEngine" where
  "set_account re u a \<equiv> re\<lparr>re_accounts := (re_accounts re)(u \<mapsto> a)\<rparr>"

lemma with_account_Some: "re_accounts re u = Some a \<Longrightarrow> with_account re u f = set_account re u (f a)"
  by (simp add: with_account_def)

lemma with_account_None: "re_accounts re u = None \<Longrightarrow> with_account re u f = re"
  by (simp add: with_account_def)

lemma balances_set_account [simp]:
  "usd_free (set_account re u a) v = (if v = u then unat (ac_usd_available a) else usd_free re v)"
  "usd_held (set_account re u a) v = (if v = u then unat (ac_usd_locked a) else usd_held re v)"
  "asset_free (set_account re u a) s v =
     (if v = u then unat (vfun (ac_asset_available a) s) else asset_free re s v)"
  "asset_held (set_account re u a) s v =
     (if v = u then unat (vfun (ac_asset_locked a) s) else asset_held re s v)"
  by (simp_all add: usd_free_def usd_held_def asset_free_def asset_held_def)

lemma balances_account:
  assumes "re_accounts re u = Some a"
  shows "usd_free re u = unat (ac_usd_available a)" "usd_held re u = unat (ac_usd_locked a)"
    "asset_free re s u = unat (vfun (ac_asset_available a) s)"
    "asset_held re s u = unat (vfun (ac_asset_locked a) s)"
  using assms by (simp_all add: usd_free_def usd_held_def asset_free_def asset_held_def)

lemma sum_upd:
  fixes f g :: "'a \<Rightarrow> nat"
  assumes "finite D" "u \<in> D" "\<And>v. v \<noteq> u \<Longrightarrow> g v = f v"
  shows "sum g D + f u = sum f D + g u"
proof -
  have "sum g (D - {u}) = sum f (D - {u})"
    using assms(3) by (intro sum.cong) auto
  then show ?thesis
    using assms(1,2) by (simp add: sum.remove)
qed

lemma supply_set_account:
  assumes "finite (dom (re_accounts re))" "re_accounts re u = Some a"
  shows "usd_supply (set_account re u a') + (usd_free re u + usd_held re u) =
           usd_supply re + (unat (ac_usd_available a') + unat (ac_usd_locked a'))"
    "asset_supply (set_account re u a') s + (asset_free re s u + asset_held re s u) =
       asset_supply re s + (unat (vfun (ac_asset_available a') s) + unat (vfun (ac_asset_locked a') s))"
proof -
  have d: "dom (re_accounts (set_account re u a')) = dom (re_accounts re)" "u \<in> dom (re_accounts re)"
    using assms(2) by auto
  show "usd_supply (set_account re u a') + (usd_free re u + usd_held re u) =
           usd_supply re + (unat (ac_usd_available a') + unat (ac_usd_locked a'))"
    using sum_upd [OF assms(1) d(2), of "\<lambda>v. usd_free (set_account re u a') v + usd_held (set_account re u a') v"
        "\<lambda>v. usd_free re v + usd_held re v"]
    unfolding usd_supply_def d(1) by simp
  show "asset_supply (set_account re u a') s + (asset_free re s u + asset_held re s u) =
       asset_supply re s + (unat (vfun (ac_asset_available a') s) + unat (vfun (ac_asset_locked a') s))"
    using sum_upd [OF assms(1) d(2), of "\<lambda>v. asset_free (set_account re u a') s v + asset_held (set_account re u a') s v"
        "\<lambda>v. asset_free re s v + asset_held re s v"]
    unfolding asset_supply_def d(1) by simp
qed

lemma supply_bound:
  assumes "finite (dom (re_accounts re))"
  shows "usd_free re u + usd_held re u \<le> usd_supply re"
    "asset_free re s u + asset_held re s u \<le> asset_supply re s"
    "u \<noteq> v \<Longrightarrow> usd_free re u + usd_held re u + (usd_free re v + usd_held re v) \<le> usd_supply re"
    "u \<noteq> v \<Longrightarrow> asset_free re s u + asset_held re s u + (asset_free re s v + asset_held re s v) \<le> asset_supply re s"
proof -
  have two: "f u + f v \<le> sum f (dom (re_accounts re))"
    if "u \<noteq> v" "\<And>w. w \<notin> dom (re_accounts re) \<Longrightarrow> f w = 0" for f :: "u64 \<Rightarrow> nat" and u v
  proof -
    have "f u + f v = sum f {u, v}" using that(1) by simp
    also have "\<dots> = sum f ({u, v} \<inter> dom (re_accounts re))"
    proof (rule sum.mono_neutral_right)
      show "\<forall>i\<in>{u, v} - {u, v} \<inter> dom (re_accounts re). f i = 0"
      proof
        fix i assume "i \<in> {u, v} - {u, v} \<inter> dom (re_accounts re)"
        then have "i \<notin> dom (re_accounts re)" by auto
        then show "f i = 0" by (rule that(2))
      qed
    qed simp_all
    also have "\<dots> \<le> sum f (dom (re_accounts re))"
      using assms by (intro sum_mono2) auto
    finally show ?thesis .
  qed
  have one: "f u \<le> sum f (dom (re_accounts re))"
    if "\<And>w. w \<notin> dom (re_accounts re) \<Longrightarrow> f w = 0" for f :: "u64 \<Rightarrow> nat" and u
    using assms that by (cases "u \<in> dom (re_accounts re)") (auto intro: member_le_sum)
  have z: "usd_free re w + usd_held re w = 0" "asset_free re s w + asset_held re s w = 0"
    if "w \<notin> dom (re_accounts re)" for w s
    using that by (auto simp: usd_free_def usd_held_def asset_free_def asset_held_def domIff)
  show "usd_free re u + usd_held re u \<le> usd_supply re"
    unfolding usd_supply_def by (rule one) (rule z)
  show "asset_free re s u + asset_held re s u \<le> asset_supply re s"
    unfolding asset_supply_def by (rule one) (rule z)
  show "u \<noteq> v \<Longrightarrow> usd_free re u + usd_held re u + (usd_free re v + usd_held re v) \<le> usd_supply re"
    unfolding usd_supply_def by (erule two) (rule z)
  show "u \<noteq> v \<Longrightarrow> asset_free re s u + asset_held re s u + (asset_free re s v + asset_held re s v) \<le> asset_supply re s"
    unfolding asset_supply_def by (erule two) (rule z)
qed

section \<open>The margin invariant and the operations\<close>

text \<open>
  \<open>funds_ok re U A UM AM\<close>: the accounts hold \<open>U\<close> dollars and \<open>A s\<close> units of asset \<open>s\<close>, neither
  overflows 64 bits, and user \<open>u\<close> has \<open>UM u\<close> dollars and \<open>AM s u\<close> units of \<open>s\<close> locked.
\<close>

definition funds_ok ::
  "RiskEngine \<Rightarrow> nat \<Rightarrow> (nat \<Rightarrow> nat) \<Rightarrow> (u64 \<Rightarrow> nat) \<Rightarrow> (nat \<Rightarrow> u64 \<Rightarrow> nat) \<Rightarrow> bool" where
  "funds_ok re U A UM AM \<longleftrightarrow>
     finite (dom (re_accounts re)) \<and> usd_supply re = U \<and> U < 2 ^ 64 \<and>
     (\<forall>s<NUM_SYMBOLS. asset_supply re s = A s \<and> A s < 2 ^ 64) \<and>
     (\<forall>u. usd_held re u = UM u) \<and> (\<forall>s<NUM_SYMBOLS. \<forall>u. asset_held re s u = AM s u)"

lemma funds_okD:
  assumes "funds_ok re U A UM AM"
  shows "finite (dom (re_accounts re))" "usd_supply re = U" "U < 2 ^ 64"
    "s < NUM_SYMBOLS \<Longrightarrow> asset_supply re s = A s" "s < NUM_SYMBOLS \<Longrightarrow> A s < 2 ^ 64"
    "usd_held re u = UM u" "s < NUM_SYMBOLS \<Longrightarrow> asset_held re s u = AM s u"
  using assms by (simp_all add: funds_ok_def)

lemma funds_ok_cong:
  assumes "funds_ok re U A UM AM" "\<And>u. UM' u = UM u" "\<And>s u. s < NUM_SYMBOLS \<Longrightarrow> AM' s u = AM s u"
  shows "funds_ok re U A UM' AM'"
  using assms by (simp add: funds_ok_def)

text \<open>Moving funds within one account.\<close>

lemma funds_ok_move:
  assumes F: "funds_ok re U A UM AM" and a: "re_accounts re u = Some a"
    and usd: "unat (ac_usd_available a') + unat (ac_usd_locked a') = unat (ac_usd_available a) + unat (ac_usd_locked a)"
    and assets: "\<And>s. unat (vfun (ac_asset_available a') s) + unat (vfun (ac_asset_locked a') s) =
        unat (vfun (ac_asset_available a) s) + unat (vfun (ac_asset_locked a) s)"
    and UM': "\<And>v. UM' v = (if v = u then unat (ac_usd_locked a') else UM v)"
    and AM': "\<And>s v. s < NUM_SYMBOLS \<Longrightarrow> AM' s v = (if v = u then unat (vfun (ac_asset_locked a') s) else AM s v)"
  shows "funds_ok (set_account re u a') U A UM' AM'"
proof -
  note D = funds_okD [OF F]
  have "usd_supply (set_account re u a') = U" "asset_supply (set_account re u a') s = asset_supply re s" for s
    using supply_set_account(1) [OF D(1) a, of a'] supply_set_account(2) [OF D(1) a, of a' s]
      usd assets [of s] D(2) balances_account(1,2) [OF a] balances_account(3,4) [OF a, of s]
    by simp_all
  moreover have "finite (dom (re_accounts (set_account re u a')))" using D(1) by simp
  ultimately show ?thesis using D UM' AM' by (simp add: funds_ok_def)
qed

lemma lock_funds_cases:
  assumes "lock_order_funds re order = (re', Inr ())" "get_order_type order \<noteq> Some Cancel"
  obtains (buy) a required where "re_accounts re (ord_user_id order) = Some a"
      "unat (ord_symbol_id order) < NUM_SYMBOLS" "ord_qty order \<noteq> 0"
      "ord_side order = Side_as Buy" "ord_price order \<noteq> 0" "checked_mul (ord_price order) (ord_qty order) = Some required"
      "required \<le> ac_usd_available a"
      "re' = set_account re (ord_user_id order)
         (a\<lparr>ac_usd_available := ac_usd_available a - required, ac_usd_locked := ac_usd_locked a + required\<rparr>)"
  | (sell) a where "re_accounts re (ord_user_id order) = Some a"
      "unat (ord_symbol_id order) < NUM_SYMBOLS" "ord_qty order \<noteq> 0"
      "ord_side order \<noteq> Side_as Buy"
      "ord_qty order \<le> vfun (ac_asset_available a) (unat (ord_symbol_id order))"
      "re' = set_account re (ord_user_id order)
         (a\<lparr>ac_asset_available := vupd (ac_asset_available a) (unat (ord_symbol_id order)) (\<lambda>v. v - ord_qty order),
            ac_asset_locked := vupd (ac_asset_locked a) (unat (ord_symbol_id order)) (\<lambda>v. v + ord_qty order)\<rparr>)"
proof -
  have "unwrap_or (get_order_type order) Limit \<noteq> Cancel"
    using assms(2) by (cases "get_order_type order") auto
  with assms(1) that show ?thesis
    by (auto simp: lock_order_funds_def Let_def not_less split: if_splits option.splits)
qed

lemma vfun_vupd_other [simp]: "s \<noteq> i \<Longrightarrow> vfun (vupd v i f) s = vfun v s"
  by simp

text \<open>The amount a limit or market order locks: dollars for a buy, units of the asset otherwise.\<close>

definition usd_need :: "Order \<Rightarrow> nat" where
  "usd_need order = (if ord_side order = Side_as Buy then unat (ord_price order) * unat (ord_qty order) else 0)"

definition asset_need :: "Order \<Rightarrow> nat" where
  "asset_need order = (if ord_side order = Side_as Buy then 0 else unat (ord_qty order))"

lemma lock_funds_ok:
  assumes F: "funds_ok re U A UM AM" and L: "lock_order_funds re order = (re', Inr ())"
    and t: "get_order_type order \<noteq> Some Cancel"
  defines "u \<equiv> ord_user_id order" and "s \<equiv> unat (ord_symbol_id order)"
  shows "funds_ok re' U A (UM(u := UM u + usd_need order)) (AM(s := (AM s)(u := AM s u + asset_need order)))"
    "s < NUM_SYMBOLS" "ord_qty order \<noteq> 0" "usd_need order < 2 ^ 64"
    "ord_side order = Side_as Buy \<Longrightarrow> ord_price order \<noteq> 0" "u \<in> dom (re_accounts re)"
proof -
  note D = funds_okD [OF F]
  have "funds_ok re' U A (UM(u := UM u + usd_need order)) (AM(s := (AM s)(u := AM s u + asset_need order))) \<and>
      s < NUM_SYMBOLS \<and> ord_qty order \<noteq> 0 \<and> usd_need order < 2 ^ 64 \<and>
      (ord_side order = Side_as Buy \<longrightarrow> ord_price order \<noteq> 0) \<and> u \<in> dom (re_accounts re)"
    using L t
  proof (cases rule: lock_funds_cases)
    case (buy a required)
    note b = balances_account [OF buy(1)]
    have r: "unat required = usd_need order" using checked_mul_Some [OF buy(6)] buy(4) by (simp add: usd_need_def)
    have bound: "unat (ac_usd_locked a) + unat required < 2 ^ 64"
      using supply_bound(1) [OF D(1), of "ord_user_id order"] D(2,3) b(1,2) buy(7)
      by (simp add: word_le_nat_alt)
    let ?a = "a\<lparr>ac_usd_available := ac_usd_available a - required, ac_usd_locked := ac_usd_locked a + required\<rparr>"
    have l: "unat (ac_usd_locked a + required) = unat (ac_usd_locked a) + unat required"
      using bound by (simp add: unat_add_small)
    have "funds_ok re' U A (UM(u := UM u + usd_need order)) (AM(s := (AM s)(u := AM s u + asset_need order)))"
      unfolding buy(8)
    proof (rule funds_ok_move [OF F buy(1)])
      show "(UM(u := UM u + usd_need order)) v = (if v = ord_user_id order then unat (ac_usd_locked ?a) else UM v)" for v
        using D(6) [of u] b(2) l r by (simp add: u_def)
      show "(AM(s := (AM s)(u := AM s u + asset_need order))) s' v =
          (if v = ord_user_id order then unat (vfun (ac_asset_locked ?a) s') else AM s' v)" if "s' < NUM_SYMBOLS" for s' v
        using D(7) [OF that, of u] b(4) [of s'] buy(4) by (simp add: u_def asset_need_def)
    qed (use buy(7) l in \<open>simp_all add: unat_sub word_le_nat_alt\<close>)
    moreover have "usd_need order < 2 ^ 64" using r unat_lt64 [of required] by simp
    ultimately show ?thesis using buy(1,2,3,5) by (simp add: u_def s_def domIff)
  next
    case (sell a)
    note b = balances_account [OF sell(1)]
    have bound: "unat (vfun (ac_asset_locked a) s) + unat (ord_qty order) < 2 ^ 64"
      using supply_bound(2) [OF D(1), of s "ord_user_id order"] D(4,5) [of s] b(3,4) [of s] sell(2,5)
      by (simp add: word_le_nat_alt s_def)
    let ?a = "a\<lparr>ac_asset_available := vupd (ac_asset_available a) s (\<lambda>v. v - ord_qty order),
            ac_asset_locked := vupd (ac_asset_locked a) s (\<lambda>v. v + ord_qty order)\<rparr>"
    have l: "unat (vfun (ac_asset_locked a) s + ord_qty order) = unat (vfun (ac_asset_locked a) s) + unat (ord_qty order)"
      using bound by (simp add: unat_add_small)
    have "funds_ok re' U A (UM(u := UM u + usd_need order)) (AM(s := (AM s)(u := AM s u + asset_need order)))"
      unfolding sell(6) s_def [symmetric]
    proof (rule funds_ok_move [OF F sell(1)])
      show "(UM(u := UM u + usd_need order)) v = (if v = ord_user_id order then unat (ac_usd_locked ?a) else UM v)" for v
        using D(6) [of u] b(2) sell(4) by (simp add: u_def usd_need_def)
      show "(AM(s := (AM s)(u := AM s u + asset_need order))) s' v =
          (if v = ord_user_id order then unat (vfun (ac_asset_locked ?a) s') else AM s' v)" if "s' < NUM_SYMBOLS" for s' v
        using D(7) [OF that, of u] b(4) [of s'] l sell(4) by (cases "s' = s") (simp_all add: u_def asset_need_def)
    qed (use sell(5) l in \<open>auto simp: unat_sub word_le_nat_alt s_def\<close>)
    then show ?thesis using sell(1,2,3,4) by (simp add: u_def s_def usd_need_def domIff)
  qed
  then show "funds_ok re' U A (UM(u := UM u + usd_need order)) (AM(s := (AM s)(u := AM s u + asset_need order)))"
    "s < NUM_SYMBOLS" "ord_qty order \<noteq> 0" "usd_need order < 2 ^ 64"
    "ord_side order = Side_as Buy \<Longrightarrow> ord_price order \<noteq> 0" "u \<in> dom (re_accounts re)"
    by blast+
qed

lemma unlock_buy_ok:
  assumes F: "funds_ok re U A UM AM" and s: "unat sy < NUM_SYMBOLS" and m: "unat p * unat q \<le> UM u"
  shows "funds_ok (unlock_order_funds re u sy Buy p q) U A (UM(u := UM u - unat p * unat q)) AM"
proof (cases "q = 0 \<or> re_accounts re u = None")
  case True
  moreover have "UM u = 0" if "re_accounts re u = None"
    using funds_okD(6) [OF F, of u] that by (simp add: usd_held_def)
  ultimately have "UM(u := UM u - unat p * unat q) = UM" using m by auto
  with True F s show ?thesis by (auto simp: unlock_order_funds_def Let_def with_account_None)
next
  case False
  then obtain a where a: "re_accounts re u = Some a" by auto
  note D = funds_okD [OF F] and b = balances_account [OF a]
  have h: "unat p * unat q \<le> unat (ac_usd_locked a)" using D(6) [of u] b(2) m by simp
  then have lt: "unat p * unat q < 2 ^ 64" using unat_lt64 [of "ac_usd_locked a"] by simp
  define w where "w = sat_mul p q"
  have w: "unat w = unat p * unat q" using lt by (simp add: w_def unat_sat_mul)
  have "unat (ac_usd_available a) + unat w < 2 ^ 64"
    using supply_bound(1) [OF D(1), of u] D(2,3) b(1,2) h w by simp
  then have av: "unat (ac_usd_available a + w) = unat (ac_usd_available a) + unat w" by (simp add: unat_add_small)
  let ?a = "a\<lparr>ac_usd_locked := sat_sub (ac_usd_locked a) w, ac_usd_available := ac_usd_available a + w\<rparr>"
  have r: "unlock_order_funds re u sy Buy p q = set_account re u ?a"
    using False s by (simp add: unlock_order_funds_def Let_def with_account_Some [OF a] w_def)
  show ?thesis
    unfolding r
  proof (rule funds_ok_move [OF F a])
    show "(UM(u := UM u - unat p * unat q)) v = (if v = u then unat (ac_usd_locked ?a) else UM v)" for v
      using D(6) [of u] b(2) w by (simp add: unat_sat_sub)
    show "AM s v = (if v = u then unat (vfun (ac_asset_locked ?a) s) else AM s v)" if "s < NUM_SYMBOLS" for s v
      using D(7) [OF that, of u] b(4) [of s] by simp
  qed (use av h w in \<open>simp_all add: unat_sat_sub\<close>)
qed

lemma unlock_sell_ok:
  assumes F: "funds_ok re U A UM AM" and s: "unat sy < NUM_SYMBOLS" and m: "unat q \<le> AM (unat sy) u"
  defines "s \<equiv> unat sy"
  shows "funds_ok (unlock_order_funds re u sy Sell p q) U A UM (AM(s := (AM s)(u := AM s u - unat q)))"
proof (cases "q = 0 \<or> re_accounts re u = None")
  case True
  moreover have "AM s u = 0" if "re_accounts re u = None"
    using funds_okD(7) [OF F s, of u] that by (simp add: asset_held_def s_def)
  ultimately have "(AM s)(u := AM s u - unat q) = AM s" using m by (auto simp: s_def)
  with True F s show ?thesis by (auto simp: unlock_order_funds_def Let_def with_account_None)
next
  case False
  then obtain a where a: "re_accounts re u = Some a" by auto
  note D = funds_okD [OF F] and b = balances_account [OF a]
  have s': "s < NUM_SYMBOLS" using s by (simp add: s_def)
  have h: "unat q \<le> unat (vfun (ac_asset_locked a) s)" using D(7) [OF s', of u] b(4) [of s] m by (simp add: s_def)
  have "unat (vfun (ac_asset_available a) s) + unat q < 2 ^ 64"
    using supply_bound(2) [OF D(1), of s u] D(4,5) [OF s'] b(3,4) [of s] h by simp
  then have av: "unat (vfun (ac_asset_available a) s + q) = unat (vfun (ac_asset_available a) s) + unat q"
    by (simp add: unat_add_small)
  let ?a = "a\<lparr>ac_asset_locked := vupd (ac_asset_locked a) s (\<lambda>v. sat_sub v q),
              ac_asset_available := vupd (ac_asset_available a) s (\<lambda>v. v + q)\<rparr>"
  have r: "unlock_order_funds re u sy Sell p q = set_account re u ?a"
    using False s by (simp add: unlock_order_funds_def Let_def with_account_Some [OF a] s_def)
  show ?thesis
    unfolding r
  proof (rule funds_ok_move [OF F a])
    show "UM v = (if v = u then unat (ac_usd_locked ?a) else UM v)" for v using D(6) [of u] b(2) by simp
    show "(AM(s := (AM s)(u := AM s u - unat q))) s' v = (if v = u then unat (vfun (ac_asset_locked ?a) s') else AM s' v)"
      if "s' < NUM_SYMBOLS" for s' v
      using D(7) [OF that, of u] b(4) [of s'] D(7) [OF s', of u] b(4) [of s]
      by (cases "s' = s") (simp_all add: unat_sat_sub)
  qed (use av h in \<open>auto simp: unat_sat_sub\<close>)
qed

section \<open>Settlement and deposits preserve the supply\<close>

lemma settle_trade_accounts:
  fixes re :: RiskEngine and trade :: Trade and tl :: u64
  defines "s \<equiv> unat (tr_symbol_id trade)" and "t \<equiv> tr_qty trade"
    and "lp \<equiv> (if tr_buyer_id trade = tr_maker_user_id trade then tr_price trade else tl)"
  assumes s: "s < NUM_SYMBOLS" and ne: "tr_buyer_id trade \<noteq> tr_seller_id trade"
    and b: "re_accounts re (tr_buyer_id trade) = Some b" and c: "re_accounts re (tr_seller_id trade) = Some c"
    and lp: "tr_price trade \<le> lp" "unat lp * unat t \<le> unat (ac_usd_locked b)"
    and bounds: "unat (ac_usd_available b) + unat (ac_usd_locked b) < 2 ^ 64"
      "unat (ac_usd_available c) + unat (ac_usd_locked b) < 2 ^ 64"
      "unat (vfun (ac_asset_available b) s) + unat (vfun (ac_asset_locked c) s) < 2 ^ 64"
    and t: "unat t \<le> unat (vfun (ac_asset_locked c) s)"
  shows "\<exists>b' c'. settle_trade re trade tl = set_account (set_account re (tr_buyer_id trade) b') (tr_seller_id trade) c' \<and>
     unat (ac_usd_available b') = unat (ac_usd_available b) + (unat lp * unat t - unat (tr_price trade) * unat t) \<and>
     unat (ac_usd_locked b') = unat (ac_usd_locked b) - unat lp * unat t \<and>
     (\<forall>i. unat (vfun (ac_asset_available b') i) = unat (vfun (ac_asset_available b) i) + (if i = s then unat t else 0)) \<and>
     ac_asset_locked b' = ac_asset_locked b \<and>
     unat (ac_usd_available c') = unat (ac_usd_available c) + unat (tr_price trade) * unat t \<and>
     ac_usd_locked c' = ac_usd_locked c \<and> ac_asset_available c' = ac_asset_available c \<and>
     (\<forall>i. unat (vfun (ac_asset_locked c') i) = unat (vfun (ac_asset_locked c) i) - (if i = s then unat t else 0))"
proof -
  let ?p = "tr_price trade"
  have pt: "unat ?p * unat t \<le> unat lp * unat t" using lp(1) by (simp add: word_le_nat_alt)
  have lt: "unat lp * unat t < 2 ^ 64" using lp(2) unat_lt64 [of "ac_usd_locked b"] by simp
  have cost: "unat (sat_mul ?p t) = unat ?p * unat t" using le_less_trans [OF pt lt] by (simp add: unat_sat_mul)
  have locked: "unat (sat_mul lp t) = unat lp * unat t" using lt by (simp add: unat_sat_mul)
  define b' where "b' = (let buyer = b\<lparr>ac_usd_locked := sat_sub (ac_usd_locked b) (sat_mul lp t)\<rparr>;
                  buyer = (if sat_mul lp t > sat_mul ?p t
                           then buyer\<lparr>ac_usd_available := ac_usd_available buyer + (sat_mul lp t - sat_mul ?p t)\<rparr>
                           else buyer)
              in buyer\<lparr>ac_asset_available := vupd (ac_asset_available buyer) s (\<lambda>v. v + t)\<rparr>)"
  define c' where "c' = c\<lparr>ac_asset_locked := vupd (ac_asset_locked c) s (\<lambda>v. sat_sub v t),
                     ac_usd_available := ac_usd_available c + sat_mul ?p t\<rparr>"
  have buyer: "settle_buyer re trade tl = set_account re (tr_buyer_id trade) b'"
    unfolding settle_buyer_def Let_def with_account_Some [OF b] b'_def s_def t_def lp_def by (rule refl)
  have "re_accounts (settle_buyer re trade tl) (tr_seller_id trade) = Some c"
    using c ne by (simp add: buyer)
  then have "settle_trade re trade tl = set_account (set_account re (tr_buyer_id trade) b') (tr_seller_id trade) c'"
    using s by (simp add: settle_trade_def settle_seller_def Let_def with_account_Some buyer c'_def s_def t_def)
  moreover have "unat (ac_usd_available b') = unat (ac_usd_available b) + (unat lp * unat t - unat ?p * unat t)"
  proof (cases "sat_mul lp t > sat_mul ?p t")
    case True
    then have d: "unat (sat_mul lp t - sat_mul ?p t) = unat lp * unat t - unat ?p * unat t"
      by (simp add: unat_sub word_le_nat_alt word_less_nat_alt cost locked)
    then have "unat (ac_usd_available b) + unat (sat_mul lp t - sat_mul ?p t) < 2 ^ 64"
      using bounds(1) lp(2) by simp
    with True d show ?thesis by (simp add: b'_def Let_def unat_add_small)
  next
    case False
    then have "\<not> unat ?p * unat t < unat lp * unat t" unfolding word_less_nat_alt cost locked .
    then have d: "unat lp * unat t - unat ?p * unat t = 0" by linarith
    show ?thesis unfolding d using False by (simp add: b'_def Let_def)
  qed
  moreover have "unat (ac_usd_locked b') = unat (ac_usd_locked b) - unat lp * unat t"
    by (simp add: b'_def Let_def unat_sat_sub locked)
  moreover have "unat (vfun (ac_asset_available b') i) = unat (vfun (ac_asset_available b) i) + (if i = s then unat t else 0)" for i
    using bounds(3) t by (simp add: b'_def Let_def unat_add_small)
  moreover have "ac_asset_locked b' = ac_asset_locked b" by (simp add: b'_def Let_def)
  moreover have "unat (ac_usd_available c') = unat (ac_usd_available c) + unat ?p * unat t"
    unfolding c'_def using le_less_trans [OF add_left_mono [OF le_trans [OF pt lp(2)]] bounds(2)]
    by (simp add: cost unat_add_small)
  moreover have "unat (vfun (ac_asset_locked c') i) = unat (vfun (ac_asset_locked c) i) - (if i = s then unat t else 0)" for i
    by (simp add: c'_def unat_sat_sub)
  moreover have "ac_usd_locked c' = ac_usd_locked c" "ac_asset_available c' = ac_asset_available c"
    by (simp_all add: c'_def)
  ultimately show ?thesis by blast
qed

lemma settle_trade_ok:
  fixes re :: RiskEngine and trade :: Trade and tl :: u64
  defines "s \<equiv> unat (tr_symbol_id trade)" and "t \<equiv> tr_qty trade"
    and "lp \<equiv> (if tr_buyer_id trade = tr_maker_user_id trade then tr_price trade else tl)"
    and "u \<equiv> tr_buyer_id trade" and "v \<equiv> tr_seller_id trade"
  assumes F: "funds_ok re U A UM AM" and s: "s < NUM_SYMBOLS" and ne: "u \<noteq> v"
    and lp: "tr_price trade \<le> lp" "lp \<noteq> 0" "unat lp * unat t \<le> UM u"
    and t: "t \<noteq> 0" "unat t \<le> AM s v"
  shows "funds_ok (settle_trade re trade tl) U A (UM(u := UM u - unat lp * unat t)) (AM(s := (AM s)(v := AM s v - unat t)))"
proof -
  note D = funds_okD [OF F]
  have pos: "0 < unat lp * unat t" "0 < unat t" using lp(2) t(1) by (simp_all add: unat_gt_0)
  have "usd_held re u \<noteq> 0" using D(6) [of u] lp(3) pos(1) by linarith
  then obtain b where b: "re_accounts re u = Some b" by (auto simp: usd_held_def split: option.splits)
  have "asset_held re s v \<noteq> 0" using D(7) [OF s, of v] t(2) pos(2) by linarith
  then obtain c where c: "re_accounts re v = Some c" by (auto simp: asset_held_def split: option.splits)
  note bb = balances_account [OF b] and bc = balances_account [OF c]
  note S = supply_bound [OF D(1)]
  have bounds: "unat (ac_usd_available b) + unat (ac_usd_locked b) < 2 ^ 64"
      "unat (ac_usd_available c) + unat (ac_usd_locked b) < 2 ^ 64"
      "unat (vfun (ac_asset_available b) s) + unat (vfun (ac_asset_locked c) s) < 2 ^ 64"
    using S(1) [of u] S(3) [OF ne] S(4) [OF ne, of s] D(2,3) D(4,5) [OF s] bb(1,2) bc(1,2) bb(3,4) [of s] bc(3,4) [of s]
    by linarith+
  have lock: "unat lp * unat t \<le> unat (ac_usd_locked b)" using D(6) [of u] bb(2) lp(3) by simp
  have held: "unat t \<le> unat (vfun (ac_asset_locked c) s)" using D(7) [OF s, of v] bc(4) [of s] t(2) by simp
  obtain b' c' where E: "settle_trade re trade tl = set_account (set_account re u b') v c'"
    and b': "unat (ac_usd_available b') = unat (ac_usd_available b) + (unat lp * unat t - unat (tr_price trade) * unat t)"
     "unat (ac_usd_locked b') = unat (ac_usd_locked b) - unat lp * unat t"
     "\<And>i. unat (vfun (ac_asset_available b') i) = unat (vfun (ac_asset_available b) i) + (if i = s then unat t else 0)"
     "ac_asset_locked b' = ac_asset_locked b"
    and c': "unat (ac_usd_available c') = unat (ac_usd_available c) + unat (tr_price trade) * unat t"
     "ac_usd_locked c' = ac_usd_locked c" "ac_asset_available c' = ac_asset_available c"
     "\<And>i. unat (vfun (ac_asset_locked c') i) = unat (vfun (ac_asset_locked c) i) - (if i = s then unat t else 0)"
    using settle_trade_accounts [of trade re b c tl] s ne b c lp(1) lock bounds held
    unfolding s_def t_def lp_def u_def v_def by blast
  have pt: "unat (tr_price trade) * unat t \<le> unat lp * unat t" using lp(1) by (simp add: word_le_nat_alt)
  let ?re1 = "set_account re u b'" and ?re2 = "set_account (set_account re u b') v c'"
  have fin1: "finite (dom (re_accounts ?re1))" and c1: "re_accounts ?re1 v = Some c"
    using D(1) c ne by simp_all
  note s1 = supply_set_account [OF D(1) b, of b'] and s2 = supply_set_account [OF fin1 c1, of c']
  have re1: "usd_free ?re1 v = usd_free re v" "usd_held ?re1 v = usd_held re v"
    and c'2: "unat (ac_usd_locked c') = unat (ac_usd_locked c)"
    using ne c'(2) by simp_all
  have h2: "usd_held ?re2 w = (if w = v then unat (ac_usd_locked c')
      else if w = u then unat (ac_usd_locked b') else usd_held re w)"
    "asset_held ?re2 i w = (if w = v then unat (vfun (ac_asset_locked c') i)
      else if w = u then unat (vfun (ac_asset_locked b') i) else asset_held re i w)" for i w
    unfolding balances_set_account by (rule refl)+
  have "usd_supply ?re2 = U"
    using s1(1) s2(1) b'(1,2) c'(1) c'2 bb(1,2) bc(1,2) pt lock D(2) unfolding re1 by linarith
  moreover have "asset_supply ?re2 i = asset_supply re i" for i
    using s1(2) [of i] s2(2) [of i] b'(3,4) c'(3,4) bb(3,4) [of i] bc(3,4) [of i] held ne by (cases "i = s") simp_all
  moreover have "usd_held ?re2 w = (UM(u := UM u - unat lp * unat t)) w" for w
    unfolding h2 using D(6) [of w] bb(2) bc(2) b'(2) c'(2) ne by (cases "w = v"; cases "w = u") simp_all
  moreover have "asset_held ?re2 i w = (AM(s := (AM s)(v := AM s v - unat t))) i w" if "i < NUM_SYMBOLS" for i w
    unfolding h2 using D(7) [OF that, of w] D(7) [OF s, of v] bb(4) [of i] bc(4) [of i] bc(4) [of s] b'(4) c'(4) [of i] ne
    by (cases "w = v"; cases "w = u"; cases "i = s") simp_all
  moreover have "finite (dom (re_accounts ?re2))" using D(1) by simp
  ultimately show ?thesis using D(3,4,5) by (simp add: E funds_ok_def)
qed

lemma deposit_ok:
  fixes sy :: u16
  defines "s \<equiv> unat sy"
  assumes F: "funds_ok re U A UM AM" and s: "s < NUM_SYMBOLS"
    and room: "U + unat usd < 2 ^ 64" "A s + unat q < 2 ^ 64"
  shows "funds_ok (deposit re u usd sy q) (U + unat usd) (A(s := A s + unat q)) UM AM"
proof -
  note D = funds_okD [OF F]
  define a where "a = (case re_accounts re u of Some a \<Rightarrow> a | None \<Rightarrow> Account_new u 0)"
  let ?r = "set_account re u a"
  have base: "funds_ok ?r U A UM AM \<and> re_accounts ?r u = Some a"
  proof (cases "re_accounts re u")
    case (Some x)
    then have "?r = re" by (simp add: a_def fun_upd_idem)
    with F Some show ?thesis by (simp add: a_def)
  next
    case None
    then have a: "a = Account_new u 0" by (simp add: a_def)
    have nd: "u \<notin> dom (re_accounts re)" using None by (simp add: domIff)
    have "(\<Sum>v\<in>dom (re_accounts re). usd_free ?r v + usd_held ?r v) = usd_supply re"
      "(\<Sum>v\<in>dom (re_accounts re). asset_free ?r i v + asset_held ?r i v) = asset_supply re i" for i
      unfolding usd_supply_def asset_supply_def using nd by (intro sum.cong; auto)+
    then have "usd_supply ?r = usd_supply re" "asset_supply ?r i = asset_supply re i" for i
      using D(1) nd unfolding usd_supply_def [of ?r] asset_supply_def [of ?r]
      by (simp_all add: a Account_new_def)
    moreover have "usd_held ?r v = usd_held re v" "asset_held ?r i v = asset_held re i v" for i v
      using None by (auto simp: a Account_new_def usd_held_def asset_held_def)
    ultimately show ?thesis using D by (simp add: funds_ok_def)
  qed
  then have B: "funds_ok ?r U A UM AM" and ra: "re_accounts ?r u = Some a" by simp_all
  note E = funds_okD [OF B] and b = balances_account [OF ra]
  let ?a = "a\<lparr>ac_usd_available := ac_usd_available a + usd,
              ac_asset_available := vupd (ac_asset_available a) s (\<lambda>v. v + q)\<rparr>"
  have dep: "deposit re u usd sy q = set_account ?r u ?a"
    using s by (simp add: deposit_def Let_def a_def s_def)
  have fits: "unat (ac_usd_available a) + unat usd < 2 ^ 64"
    "unat (vfun (ac_asset_available a) s) + unat q < 2 ^ 64"
    using supply_bound(1) [OF E(1), of u] supply_bound(2) [OF E(1), of s u] E(2) E(4) [OF s] room b(1,2) b(3,4) [of s]
    by linarith+
  have av: "unat (ac_usd_available a + usd) = unat (ac_usd_available a) + unat usd"
    "unat (vfun (ac_asset_available a) s + q) = unat (vfun (ac_asset_available a) s) + unat q"
    using fits by (simp_all add: unat_add_small)
  note S = supply_set_account [OF E(1) ra, of ?a]
  have "usd_supply (set_account ?r u ?a) = U + unat usd" using S(1) av(1) b(1,2) E(2) by simp
  moreover have "asset_supply (set_account ?r u ?a) i = (A(s := A s + unat q)) i" if "i < NUM_SYMBOLS" for i
    using S(2) [of i] av(2) b(3,4) [of i] E(4) [OF that] by (cases "i = s") simp_all
  moreover have "usd_held (set_account ?r u ?a) v = UM v" for v
    using E(6) [of v] b(2) by (cases "v = u") simp_all
  moreover have "asset_held (set_account ?r u ?a) i v = AM i v" if "i < NUM_SYMBOLS" for i v
    using E(7) [OF that, of v] b(4) [of i] by (cases "v = u") simp_all
  ultimately show ?thesis using E(1,5) room by (auto simp: dep funds_ok_def)
qed

lemma RiskEngine_new_ok: "funds_ok RiskEngine_new 0 (\<lambda>_. 0) (\<lambda>_. 0) (\<lambda>_ _. 0)"
  by (simp add: funds_ok_def RiskEngine_new_def usd_supply_def asset_supply_def usd_held_def asset_held_def)

end
