(* ===== verification/Risk_Props.thy ===== *)
theory Risk_Props
  imports Risk
begin

text \<open>
  Guarantees of the risk engine on its own: what it locks it can release without a trace, settlement
  neither creates nor destroys anything, and the refund of a market buy that was filled below its budget
  creates dollars.
\<close>

section \<open>Guarantees of the risk engine\<close>

lemma locked_no_overflow:
  assumes F: "funds_ok re U A UM AM" and a: "re_accounts re u = Some a"
  shows "r \<le> ac_usd_available a \<Longrightarrow> unat (ac_usd_locked a) + unat r < 2 ^ 64"
    and "s < NUM_SYMBOLS \<Longrightarrow> q \<le> vfun (ac_asset_available a) s \<Longrightarrow>
      unat (vfun (ac_asset_locked a) s) + unat q < 2 ^ 64"
proof -
  note D = funds_okD [OF F] and b = balances_account [OF a]
  show "r \<le> ac_usd_available a \<Longrightarrow> unat (ac_usd_locked a) + unat r < 2 ^ 64"
    using supply_bound(1) [OF D(1), of u] D(2,3) b(1,2) by (simp add: word_le_nat_alt)
  show "s < NUM_SYMBOLS \<Longrightarrow> q \<le> vfun (ac_asset_available a) s \<Longrightarrow>
      unat (vfun (ac_asset_locked a) s) + unat q < 2 ^ 64"
    using supply_bound(2) [OF D(1), of s u] D(4,5) [of s] b(3,4) [of s] by (simp add: word_le_nat_alt)
qed

lemma sat_sub_add: "unat a + unat b < 2 ^ 64 \<Longrightarrow> sat_sub (a + b) b = (a :: u64)"
  by (simp add: sat_sub_def word_le_nat_alt unat_add_small)

lemma vec_upd_undo:
  assumes "g (f (vfun v i)) = vfun v i"
  shows "vupd (vupd v i f) i g = v"
  using assms by (cases v) (simp add: vupd_def fun_upd_idem)

text \<open>C28. Reserving margin is undone exactly by releasing it: in accounts that are consistent (\<open>funds_ok\<close>: supplies
  below \<open>2^64\<close>), when the funds of an order with a valid side that is not a cancel could be locked, cancelling it with
  nothing executed gives back the very same accounts, to the last field. (With an invalid side byte the
  lock is a sale's and the release a purchase's.)\<close>

theorem lock_release_restores:
  assumes "funds_ok re U A UM AM" and "lock_order_funds re order = (re', Inr ())"
    and "get_order_type order \<noteq> Some Cancel" and "get_side order \<noteq> None"
  shows "unlock_cancelled_order_margin re' order (ord_qty order) = re"
  using assms(2,3)
proof (cases rule: lock_funds_cases)
  case (buy a required)
  have m: "sat_mul (ord_price order) (ord_qty order) = required"
    using buy(6) by (auto simp: checked_mul_def sat_mul_def split: if_splits)
  have "sat_sub (ac_usd_locked a + required) required = ac_usd_locked a"
    using locked_no_overflow(1) [OF assms(1) buy(1,7)] by (rule sat_sub_add)
  moreover have "unwrap_or (get_side order) Buy = Buy"
    using buy(4) by (simp add: get_side_def Side_try_from_def)
  ultimately show ?thesis
    using buy(1-3) m by (simp add: buy(8) unlock_cancelled_order_margin_def unlock_order_funds_def Let_def
        with_account_def fun_upd_idem)
next
  case (sell a)
  let ?s = "unat (ord_symbol_id order)"
  have "unwrap_or (get_side order) Buy = Sell"
    using sell(4) assms(4) by (auto simp: get_side_def Side_try_from_def split: if_splits)
  moreover have "sat_sub (vfun (ac_asset_locked a) ?s + ord_qty order) (ord_qty order) = vfun (ac_asset_locked a) ?s"
    using locked_no_overflow(2) [OF assms(1) sell(1,2,5)] by (rule sat_sub_add)
  then have "vupd (vupd (ac_asset_locked a) ?s (\<lambda>v. v + ord_qty order)) ?s (\<lambda>v. sat_sub v (ord_qty order)) = ac_asset_locked a"
    by (rule vec_upd_undo)
  moreover have "vupd (vupd (ac_asset_available a) ?s (\<lambda>v. v - ord_qty order)) ?s (\<lambda>v. v + ord_qty order) = ac_asset_available a"
    by (rule vec_upd_undo) simp
  ultimately show ?thesis
    using sell(1-3) by (simp add: sell(6) unlock_cancelled_order_margin_def unlock_order_funds_def Let_def
        with_account_def fun_upd_idem)
qed

text \<open>Two users with funds, for the witnesses.\<close>

definition demo_risk :: RiskEngine where
  "demo_risk = deposit (deposit RiskEngine_new 1 0 (Symbol_as Btc) 10) 2 1000 (Symbol_as Btc) 0"

lemma demo_risk_ok: "funds_ok demo_risk 1000 ((\<lambda>_. 0)(0 := 10)) (\<lambda>_. 0) (\<lambda>_ _. 0)"
proof -
  have "funds_ok (deposit RiskEngine_new 1 0 (Symbol_as Btc) 10) 0 ((\<lambda>_. 0)(0 := 10)) (\<lambda>_. 0) (\<lambda>_ _. 0)"
    using deposit_ok [OF RiskEngine_new_ok, of "Symbol_as Btc" 0 10 1] by (simp add: NUM_SYMBOLS_def)
  from deposit_ok [OF this, of "Symbol_as Btc" 1000 0 2] show ?thesis
    by (simp add: NUM_SYMBOLS_def demo_risk_def)
qed

lemma demo_locks:
  "\<exists>re. lock_order_funds demo_risk (new_limit 1 1 Btc Sell 60 3) = (re, Inr ())"
  "\<exists>re. lock_order_funds demo_risk (new_limit 2 2 Btc Buy 100 3) = (re, Inr ())"
  by (simp_all add: lock_order_funds_def demo_risk_def deposit_def RiskEngine_new_def Account_new_def Let_def
      NUM_SYMBOLS_def checked_mul_def ob_simps)

theorem lock_release_restores_witness:
  "\<exists>re. lock_order_funds demo_risk (new_limit 2 2 Btc Buy 100 3) = (re, Inr ()) \<and>
     unlock_cancelled_order_margin re (new_limit 2 2 Btc Buy 100 3) 3 = demo_risk"
proof -
  obtain re where re: "lock_order_funds demo_risk (new_limit 2 2 Btc Buy 100 3) = (re, Inr ())"
    using demo_locks(2) by blast
  have "get_order_type (new_limit 2 2 Btc Buy 100 3) \<noteq> Some Cancel" "get_side (new_limit 2 2 Btc Buy 100 3) \<noteq> None"
    "ord_qty (new_limit 2 2 Btc Buy 100 3) = 3"
    by (simp_all add: ob_simps)
  with lock_release_restores [OF demo_risk_ok re] re show ?thesis by simp
qed

text \<open>C38. A market buy filled below its budget creates dollars: its funds are locked at the budget price, the
  settlement already gives back what the better price saved, and the refund of the market order's remainder
  gives the same amount back a second time. With the buyer's margin otherwise empty, the total supply grows
  by exactly the price improvement.\<close>

theorem market_refund_creates_usd:
  fixes order :: Order and trade :: Trade
  defines "u \<equiv> ord_user_id order" and "p \<equiv> ord_price order" and "q \<equiv> ord_qty order"
    and "s \<equiv> unat (ord_symbol_id order)"
  assumes F: "funds_ok re U A UM AM" and L: "lock_order_funds re order = (re1, Inr ())"
    and M: "get_order_type order = Some Market" "ord_side order = Side_as Buy" "UM u = 0"
    and T: "tr_buyer_id trade = u" "tr_seller_id trade \<noteq> u" "tr_maker_user_id trade \<noteq> u"
      "tr_symbol_id trade = ord_symbol_id order" "tr_qty trade = q" "tr_price trade < p"
      "unat q \<le> AM s (tr_seller_id trade)"
    and room: "U + unat p * unat q < 2 ^ 64"
  shows "usd_supply (refund_market_order_remainder (settle_trade re1 trade p) u (ord_symbol_id order) Buy p q q
      (sat_mul (tr_price trade) q)) = U + (unat p - unat (tr_price trade)) * unat q"
proof -
  let ?v = "tr_seller_id trade" and ?p' = "tr_price trade"
  have nc: "get_order_type order \<noteq> Some Cancel" using M(1) by simp
  note lk = lock_funds_ok [OF F L nc]
  have need: "usd_need order = unat p * unat q" "asset_need order = 0"
    using M(2) by (simp_all add: usd_need_def asset_need_def p_def q_def)
  have s: "s < NUM_SYMBOLS" using lk(2) by (simp add: s_def)
  have pq: "p \<noteq> 0" "q \<noteq> 0" using lk(3,5) M(2) by (simp_all add: p_def q_def)
  have F1: "funds_ok re1 U A (UM(u := unat p * unat q)) AM"
    by (rule funds_ok_cong [OF lk(1)]) (auto simp: need M(3) [unfolded u_def] u_def)
  let ?re2 = "settle_trade re1 trade p"
  have F2: "funds_ok ?re2 U A ((UM(u := unat p * unat q))(u := 0))
      (AM(s := (AM s)(?v := AM s ?v - unat q)))"
    using settle_trade_ok [OF F1, of trade p] T s pq by (simp add: s_def less_imp_le)
  note D = funds_okD [OF F2]
  have cost: "unat ?p' * unat q < unat p * unat q"
    using T(6) pq(2) by (simp add: word_less_nat_alt unat_gt_0)
  have lim: "unat p * unat q < 2 ^ 64" using room by simp
  then have "unat ?p' * unat q < 2 ^ 64" using cost by (rule less_trans [rotated])
  with lim have budget: "unat (sat_mul p q) = unat p * unat q" "unat (sat_mul ?p' q) = unat ?p' * unat q"
    by (simp_all add: unat_sat_mul)
  let ?surplus = "sat_mul p q - sat_mul ?p' q"
  have sur: "unat ?surplus = (unat p - unat ?p') * unat q"
    using cost by (simp add: unat_sub word_le_nat_alt budget diff_mult_distrib)
  have "u \<in> dom (re_accounts ?re2)"
  proof -
    have "u \<in> dom (re_accounts re1)"
      using L M lk(6) by (auto simp: lock_order_funds_def u_def Let_def split: if_splits option.splits)
    then show ?thesis
      by (auto simp: settle_trade_def settle_buyer_def settle_seller_def with_account_def Let_def split: option.splits)
  qed
  then obtain b where b: "re_accounts ?re2 u = Some b" by blast
  note bb = balances_account [OF b]
  have l0: "unat (ac_usd_locked b) = 0" using D(6) [of u] bb(2) by simp
  let ?b = "b\<lparr>ac_usd_locked := sat_sub (ac_usd_locked b) ?surplus, ac_usd_available := ac_usd_available b + ?surplus\<rparr>"
  have refund: "refund_market_order_remainder ?re2 u (ord_symbol_id order) Buy p q q (sat_mul ?p' q) = set_account ?re2 u ?b"
    using s cost b by (simp add: refund_market_order_remainder_def with_account_def s_def Let_def word_less_nat_alt budget)
  have "unat (ac_usd_available b) + unat ?surplus < 2 ^ 64"
    using supply_bound(1) [OF D(1), of u] D(2) bb(1) room sur cost by (simp add: diff_mult_distrib)
  then have "unat (ac_usd_available b + ?surplus) = unat (ac_usd_available b) + unat ?surplus"
    by (simp add: unat_add_small)
  then show ?thesis
    using supply_set_account(1) [OF D(1) b, of ?b] D(2) bb(1,2) l0 sur by (simp add: refund unat_sat_sub)
qed

theorem market_refund_creates_usd_witness:
  "\<exists>re re1 trade. lock_order_funds re (new_market 2 2 Btc Buy 3 100) = (re1, Inr ()) \<and> usd_supply re = 1000 \<and>
     usd_supply (refund_market_order_remainder (settle_trade re1 trade 100) 2 (Symbol_as Btc) Buy 100 3 3 180) = 1120"
proof -
  let ?sell = "new_limit 1 1 Btc Sell 60 3" and ?buy = "new_market 2 2 Btc Buy 3 100"
  obtain re where re: "lock_order_funds demo_risk ?sell = (re, Inr ())" using demo_locks(1) by blast
  have F: "funds_ok re 1000 ((\<lambda>_. 0)(0 := 10)) (\<lambda>_. 0) ((\<lambda>_ _. 0)(0 := (\<lambda>_. 0)(1 := 3)))"
    by (rule funds_ok_cong [OF lock_funds_ok(1) [OF demo_risk_ok re]])
      (simp_all add: usd_need_def asset_need_def ob_simps)
  obtain re1 where re1: "lock_order_funds re ?buy = (re1, Inr ())"
    using re by (auto simp: lock_order_funds_def demo_risk_def deposit_def RiskEngine_new_def Account_new_def Let_def
      NUM_SYMBOLS_def checked_mul_def ob_simps)
  define trade :: Trade where
    "trade = \<lparr>tr_match_id = 1, tr_maker_order_id = 1, tr_taker_order_id = 2, tr_maker_client_order_id = 1,
       tr_taker_client_order_id = 2, tr_maker_user_id = 1, tr_taker_user_id = 2, tr_maker_client_id = 0,
       tr_taker_client_id = 0, tr_buyer_id = 2, tr_seller_id = 1, tr_maker_side = Side_as Sell,
       tr_symbol_id = Symbol_as Btc, tr_price = 60, tr_qty = 3\<rparr>"
  have c: "sat_mul 60 3 = (180 :: u64)" by (simp add: sat_mul_def)
  have o: "ord_user_id ?buy = 2" "ord_price ?buy = 100" "ord_qty ?buy = 3" "ord_symbol_id ?buy = Symbol_as Btc"
    "get_order_type ?buy = Some Market" "ord_side ?buy = Side_as Buy"
    by (simp_all add: ob_simps)
  have "usd_supply (refund_market_order_remainder (settle_trade re1 trade 100) 2 (Symbol_as Btc) Buy 100 3 3 180) = 1120"
    using market_refund_creates_usd [OF F re1, of trade, unfolded o] by (simp add: trade_def c)
  moreover have "usd_supply re = 1000" by (rule funds_okD(2) [OF F])
  ultimately show ?thesis using re1 by blast
qed

end
