(* ===== verification/Engine.thy ===== *)
theory Engine
  imports Book_Props Risk
begin

text \<open>
  The multi-asset engine of \<open>src/book.rs\<close>: one order book per symbol, the global order id counter,
  and the replay of logged orders, which drives an engine and a risk engine together. The lemmas
  lift the refinement of one book to the engine: an engine represents a family of abstract books,
  every order id that rests anywhere is below the counter, and so the ids it assigns are fresh.
\<close>

section \<open>The engine\<close>

record MultiAssetEngine =
  me_books :: "OrderBook vec"
  me_global_order_id_counter :: u64

definition MultiAssetEngine_new :: MultiAssetEngine where
  "MultiAssetEngine_new =
     \<lparr>me_books = Vec NUM_SYMBOLS (\<lambda>i. [OrderBook_new Btc, OrderBook_new Eth, OrderBook_new Sol] ! i),
      me_global_order_id_counter = 1\<rparr>"

definition me_next_order_id :: "MultiAssetEngine \<Rightarrow> MultiAssetEngine \<times> u64" where
  "me_next_order_id e =
     (e\<lparr>me_global_order_id_counter := me_global_order_id_counter e + 1\<rparr>, me_global_order_id_counter e)"

text \<open>The id stamp of \<open>MultiAssetEngine::process\<close>.\<close>

definition me_stamp :: "MultiAssetEngine \<Rightarrow> Order \<Rightarrow> MultiAssetEngine \<times> Order" where
  "me_stamp e order =
     (if ord_id order = 0
      then (e\<lparr>me_global_order_id_counter := me_global_order_id_counter e + 1\<rparr>,
            order\<lparr>ord_id := me_global_order_id_counter e\<rparr>)
      else (e\<lparr>me_global_order_id_counter := max (me_global_order_id_counter e) (ord_id order + 1)\<rparr>, order))"

definition me_process ::
  "MultiAssetEngine \<Rightarrow> Order \<Rightarrow> u64 \<Rightarrow> Trade list \<Rightarrow>
     (MultiAssetEngine \<times> Trade list \<times> (RejectReason + ExecutionReport)) option" where
  "me_process e order client_id trades =
     (let sym_idx = unat (ord_symbol_id order) in
      if sym_idx \<ge> NUM_SYMBOLS then Some (e, trades, Inl InvalidOrder)
      else do {
        let (e, order) = me_stamp e order;
        b \<leftarrow> vget (me_books e) sym_idx;
        (b, trades, r) \<leftarrow> ob_process b order client_id trades;
        books \<leftarrow> vset (me_books e) sym_idx b;
        Some (e\<lparr>me_books := books\<rparr>, trades, r)
      })"

definition me_cancel_order ::
  "MultiAssetEngine \<Rightarrow> u16 \<Rightarrow> u64 \<Rightarrow> u64 \<Rightarrow> (MultiAssetEngine \<times> (RejectReason + Order)) option" where
  "me_cancel_order e symbol_id user_id order_id =
     (let sym_idx = unat symbol_id in
      if sym_idx \<ge> NUM_SYMBOLS then Some (e, Inl InvalidOrder)
      else do {
        b \<leftarrow> vget (me_books e) sym_idx;
        (b, r) \<leftarrow> cancel_order b user_id order_id;
        books \<leftarrow> vset (me_books e) sym_idx b;
        Some (e\<lparr>me_books := books\<rparr>, r)
      })"

definition me_get_book :: "MultiAssetEngine \<Rightarrow> u16 \<Rightarrow> OrderBook option" where
  "me_get_book e symbol_id =
     (let sym_idx = unat symbol_id in
      if sym_idx < NUM_SYMBOLS then vget (me_books e) sym_idx else None)"

text \<open>A mutable reference is the book with the write-back of a new value.\<close>

definition me_get_book_mut ::
  "MultiAssetEngine \<Rightarrow> u16 \<Rightarrow> (OrderBook \<times> (OrderBook \<Rightarrow> MultiAssetEngine)) option" where
  "me_get_book_mut e symbol_id =
     (let sym_idx = unat symbol_id in
      if sym_idx < NUM_SYMBOLS
      then map_option (\<lambda>b. (b, \<lambda>b'. e\<lparr>me_books := vupd (me_books e) sym_idx (\<lambda>_. b')\<rparr>))
             (vget (me_books e) sym_idx)
      else None)"

section \<open>Replay\<close>

text \<open>The settlement loop over the trades of one order, with the executed quantity and its cost.\<close>

definition settle_all ::
  "RiskEngine \<Rightarrow> u64 \<Rightarrow> Trade list \<Rightarrow> RiskEngine \<times> u64 \<times> u64" where
  "settle_all risk taker_limit_price trades =
     fold (\<lambda>trade (risk, total_executed_qty, total_executed_cost).
             (settle_trade risk trade taker_limit_price,
              total_executed_qty + tr_qty trade,
              total_executed_cost + sat_mul (tr_price trade) (tr_qty trade)))
       trades (risk, 0, 0)"

text \<open>What follows the settlement: the release after self-trade prevention and the market refund.\<close>

definition release_after ::
  "RiskEngine \<Rightarrow> Order \<Rightarrow> ExecutionReport \<Rightarrow> u64 \<Rightarrow> u64 \<Rightarrow> RiskEngine" where
  "release_after risk order report total_executed_qty total_executed_cost =
     (let risk = (if er_stp_triggered report \<and> er_remaining_qty report > 0
                  then unlock_cancelled_order_margin risk order (er_remaining_qty report) else risk)
      in if order_type_of order = Market \<and> \<not> er_stp_triggered report
         then refund_market_order_remainder risk (ord_user_id order) (ord_symbol_id order)
                (unwrap_or (get_side order) Buy) (ord_price order) (ord_qty order)
                total_executed_qty total_executed_cost
         else risk)"

definition me_replay_order ::
  "MultiAssetEngine \<Rightarrow> Order \<Rightarrow> Trade list \<Rightarrow> RiskEngine \<Rightarrow>
     (MultiAssetEngine \<times> Trade list \<times> RiskEngine \<times> (RejectReason + unit)) option" where
  "me_replay_order e order trades risk =
     (let order_type = order_type_of order in
      if order_type = Deposit then
        Some (e, trades, deposit risk (ord_user_id order) (ord_price order) (ord_symbol_id order) (ord_qty order),
              Inr ())
      else if unat (ord_symbol_id order) \<ge> NUM_SYMBOLS then Some (e, trades, risk, Inl InvalidOrder)
      else if order_type = Cancel then
        do {
          (e, r) \<leftarrow> me_cancel_order e (ord_symbol_id order) (ord_user_id order) (ord_id order);
          Some (e, trades,
            (case r of
               Inl _ \<Rightarrow> risk
             | Inr cancelled \<Rightarrow> unlock_cancelled_order_margin risk cancelled (ord_qty cancelled)),
            Inr ())
        }
      else
        (case lock_order_funds risk order of
           (risk, Inl _) \<Rightarrow> Some (e, trades, risk, Inr ())
         | (risk, Inr _) \<Rightarrow> do {
             (e, trades, r) \<leftarrow> me_process e order 0 [];
             (case r of
                Inl _ \<Rightarrow> Some (e, trades, risk, Inr ())
              | Inr report \<Rightarrow>
                  (let (risk, qty, cost) = settle_all risk (ord_price order) trades
                   in Some (e, trades, release_after risk order report qty cost, Inr ())))
           }))"


section \<open>The engine represents abstract books\<close>

definition ids_below :: "u64 \<Rightarrow> abook \<Rightarrow> bool" where
  "ids_below n B \<longleftrightarrow> (\<forall>x\<in>set (resting_orders B). resting_id x < n)"

definition engine_rel :: "bool \<Rightarrow> MultiAssetEngine \<Rightarrow> (nat \<Rightarrow> abook) \<Rightarrow> bool" where
  "engine_rel tq e Bs \<longleftrightarrow>
     vlen (me_books e) = NUM_SYMBOLS \<and>
     (\<forall>s<NUM_SYMBOLS. book_rel tq (vfun (me_books e) s) (Bs s) \<and>
        ids_below (me_global_order_id_counter e) (Bs s))"

lemma engine_relD:
  assumes "engine_rel tq e Bs" "s < NUM_SYMBOLS"
  shows "book_rel tq (vfun (me_books e) s) (Bs s)" "ids_below (me_global_order_id_counter e) (Bs s)"
    "abook_ok (Bs s)" "s < vlen (me_books e)"
  using assms by (auto simp: engine_rel_def book_rel_def)

lemma engine_new_rel: "engine_rel tq MultiAssetEngine_new (\<lambda>_. abook_new)"
proof -
  have "book_rel tq ([OrderBook_new Btc, OrderBook_new Eth, OrderBook_new Sol] ! s) abook_new"
    if "s < NUM_SYMBOLS" for s
    using that book_new_rel by (auto simp: NUM_SYMBOLS_def less_Suc_eq numeral_3_eq_3)
  then show ?thesis
    by (simp add: engine_rel_def MultiAssetEngine_new_def ids_below_def abook_new_def resting_orders_def)
qed

lemma ids_below_mono: "ids_below n B \<Longrightarrow> n \<le> m \<Longrightarrow> ids_below m B"
  by (auto simp: ids_below_def)

lemma aprocess_ids:
  assumes B: "abook_ok B" and nc: "order_type_of order \<noteq> Cancel" and A: "aprocess B order cid = (B', ts, r)"
  shows "resting_id ` set (resting_orders B') \<subseteq> insert (ord_id (stamped B order)) (resting_id ` set (resting_orders B))"
proof (rule aprocess_exec [OF B nc A])
  fix i rm
  let ?s = "ord_side order = Side_as Sell"
  assume f: "fills cid (ab_trade_ctr B) (stamped B order) (flat (aside (\<not> ?s) B)) i (flat (aside (\<not> ?s) B')) ts rm"
    and own: "mset (flat (aside ?s B')) = mset (flat (aside ?s B)) + (if rests order r then {#(i, cid)#} else {#})"
  obtain z where "i = (stamped B order)\<lparr>ord_qty := z\<rparr>" using fills_incoming [OF f] by blast
  then have i: "ord_id i = ord_id (stamped B order)" by simp
  have "set_mset (mset (flat (aside ?s B'))) \<subseteq> insert (i, cid) (set (flat (aside ?s B)))"
    unfolding own by (cases "rests order r") auto
  moreover have "resting_id ` set (flat (aside (\<not> ?s) B')) \<subseteq> resting_id ` set (flat (aside (\<not> ?s) B))"
    using fills_removed(1) [OF f] by (metis Un_upper2 list.set_map set_append)
  ultimately show ?thesis
    unfolding set_resting [of B' ?s] set_resting [of B ?s] by (auto simp: resting_id_def i)
qed

lemma word_less_add_one: "n \<noteq> - 1 \<Longrightarrow> n < n + (1 :: u64)"
proof -
  assume "n \<noteq> - 1"
  then have "unat n \<noteq> 2 ^ 64 - 1"
    unfolding word_unat_eq_iff unat_minus_one by simp
  then have "unat n + unat (1 :: u64) < 2 ^ 64" using unat_lt64 [of n] by simp
  then show ?thesis by (simp add: word_less_nat_alt unat_add_small)
qed

lemma engine_rel_upd:
  assumes E: "engine_rel tq e Bs" and s: "s < NUM_SYMBOLS"
    and b: "book_rel tq b B'" "ids_below n B'" and n: "me_global_order_id_counter e \<le> n"
  shows "engine_rel tq (e\<lparr>me_global_order_id_counter := n, me_books := vupd (me_books e) s (\<lambda>_. b)\<rparr>) (Bs(s := B'))"
  using assms by (auto simp: engine_rel_def intro: ids_below_mono)

lemma ids_below_fresh: "ids_below n B \<Longrightarrow> n \<le> ord_id order \<Longrightarrow> ord_id order \<noteq> 0 \<Longrightarrow> admissible B order"
  by (auto simp: admissible_def fresh_def stamped_def ids_below_def)

lemma me_process_rel:
  assumes E: "engine_rel tq e Bs" and s: "s < NUM_SYMBOLS" "s = unat (ord_symbol_id order)"
    and oid: "ord_id order \<noteq> 0" "ord_id order \<noteq> - 1" and ad: "admissible (Bs s) order"
    and room: "tq \<longrightarrow> level_room (Bs s) order" and nc: "order_type_of order \<noteq> Cancel"
    and A: "aprocess (Bs s) order cid = (B', ts, r)"
  shows "\<exists>e'. me_process e order cid tr = Some (e', tr @ ts, r) \<and> engine_rel tq e' (Bs(s := B')) \<and>
    me_global_order_id_counter e' = max (me_global_order_id_counter e) (ord_id order + 1)"
proof -
  note D = engine_relD [OF E s(1)]
  let ?n = "max (me_global_order_id_counter e) (ord_id order + 1)"
  obtain b' where b': "ob_process (vfun (me_books e) s) order cid tr = Some (b', tr @ ts, r)" "book_rel tq b' B'"
    using ob_process_sim [OF D(1) _ _ A, of tr] ad room by (auto simp: admissible_def level_room_def)
  have "resting_id x < ?n" if "x \<in> set (resting_orders B')" for x
  proof -
    have "ord_id order < ord_id order + 1" using oid(2) by (rule word_less_add_one)
    moreover have "resting_id x = ord_id order \<or> resting_id x \<in> resting_id ` set (resting_orders (Bs s))"
      using aprocess_ids [OF D(3) nc A] that oid(1) by (auto simp: stamped_def)
    ultimately show ?thesis using D(2) by (auto simp: ids_below_def less_max_iff_disj)
  qed
  then have "ids_below ?n B'" by (simp add: ids_below_def)
  from engine_rel_upd [OF E s(1) b'(2) this] b'(1) D(4) s oid(1) show ?thesis
    by (auto simp: me_process_def me_stamp_def Let_def)
qed

lemma me_cancel_rel:
  assumes E: "engine_rel tq e Bs" and s: "s < NUM_SYMBOLS" "s = unat sy"
    and A: "acancel (Bs s) uid oid = (B', c)"
  shows "\<exists>e'. me_cancel_order e sy uid oid = Some (e', c) \<and> engine_rel tq e' (Bs(s := B')) \<and>
    me_global_order_id_counter e' = me_global_order_id_counter e"
proof -
  note D = engine_relD [OF E s(1)]
  obtain b' where b': "cancel_order (vfun (me_books e) s) uid oid = Some (b', c)" "book_rel tq b' B'"
    using cancel_order_rel [OF D(1) A] by blast
  have "set (resting_orders B') \<subseteq> set (resting_orders (Bs s))"
    using A by (auto simp: acancel_def aremove_flat [OF D(3) cancel_target_Some] set_resting [of _ True]
        split: option.splits if_splits)
  with D(2) have "ids_below (me_global_order_id_counter e) B'" by (auto simp: ids_below_def)
  from engine_rel_upd [OF E s(1) b'(2) this] b'(1) D(4) s show ?thesis
    by (auto simp: me_cancel_order_def Let_def)
qed


end
