(* ===== verification/Wal.thy ===== *)
theory Wal
  imports Gateway
begin

text \<open>
  The write-ahead log of \<open>src/wal.rs\<close>: the table-driven CRC-32, the file and record headers, the writer
  with its buffer, and the reader that recovers the records. A file is a list of bytes and the casts
  of \<open>bytemuck\<close> are parameters, with the contract \<open>pod_codec\<close>. Write errors of the disk are not
  modelled: writes succeed, and a crash leaves a prefix of what was written.
\<close>

section \<open>Checksum\<close>

definition CRC32_TABLE :: "u32 list" where
  "CRC32_TABLE =
    [
     0x00000000, 0x77073096, 0xEE0E612C, 0x990951BA, 0x076DC419, 0x706AF48F, 0xE963A535, 0x9E6495A3,
     0x0EDB8832, 0x79DCB8A4, 0xE0D5E91E, 0x97D2D988, 0x09B64C2B, 0x7EB17CBD, 0xE7B82D07, 0x90BF1D91,
     0x1DB71064, 0x6AB020F2, 0xF3B97148, 0x84BE41DE, 0x1ADAD47D, 0x6DDDE4EB, 0xF4D4B551, 0x83D385C7,
     0x136C9856, 0x646BA8C0, 0xFD62F97A, 0x8A65C9EC, 0x14015C4F, 0x63066CD9, 0xFA0F3D63, 0x8D080DF5,
     0x3B6E20C8, 0x4C69105E, 0xD56041E4, 0xA2677172, 0x3C03E4D1, 0x4B04D447, 0xD20D85FD, 0xA50AB56B,
     0x35B5A8FA, 0x42B2986C, 0xDBBBC9D6, 0xACBCF940, 0x32D86CE3, 0x45DF5C75, 0xDCD60DCF, 0xABD13D59,
     0x26D930AC, 0x51DE003A, 0xC8D75180, 0xBFD06116, 0x21B4F4B5, 0x56B3C423, 0xCFBA9599, 0xB8BDA50F,
     0x2802B89E, 0x5F058808, 0xC60CD9B2, 0xB10BE924, 0x2F6F7C87, 0x58684C11, 0xC1611DAB, 0xB6662D3D,
     0x76DC4190, 0x01DB7106, 0x98D220BC, 0xEFD5102A, 0x71B18589, 0x06B6B51F, 0x9FBFE4A5, 0xE8B8D433,
     0x7807C9A2, 0x0F00F934, 0x9609A88E, 0xE10E9818, 0x7F6A0DBB, 0x086D3D2D, 0x91646C97, 0xE6635C01,
     0x6B6B51F4, 0x1C6C6162, 0x856530D8, 0xF262004E, 0x6C0695ED, 0x1B01A57B, 0x8208F4C1, 0xF50FC457,
     0x65B0D9C6, 0x12B7E950, 0x8BBEB8EA, 0xFCB9887C, 0x62DD1DDF, 0x15DA2D49, 0x8CD37CF3, 0xFBD44C65,
     0x4DB26158, 0x3AB551CE, 0xA3BC0074, 0xD4BB30E2, 0x4ADFA541, 0x3DD895D7, 0xA4D1C46D, 0xD3D6F4FB,
     0x4369E96A, 0x346ED9FC, 0xAD678846, 0xDA60B8D0, 0x44042D73, 0x33031DE5, 0xAA0A4C5F, 0xDD0D7CC9,
     0x5005713C, 0x270241AA, 0xBE0B1010, 0xC90C2086, 0x5768B525, 0x206F85B3, 0xB966D409, 0xCE61E49F,
     0x5EDEF90E, 0x29D9C998, 0xB0D09822, 0xC7D7A8B4, 0x59B33D17, 0x2EB40D81, 0xB7BD5C3B, 0xC0BA6CAD,
     0xEDB88320, 0x9ABFB3B6, 0x03B6E20C, 0x74B1D29A, 0xEAD54739, 0x9DD277AF, 0x04DB2615, 0x73DC1683,
     0xE3630B12, 0x94643B84, 0x0D6D6A3E, 0x7A6A5AA8, 0xE40ECF0B, 0x9309FF9D, 0x0A00AE27, 0x7D079EB1,
     0xF00F9344, 0x8708A3D2, 0x1E01F268, 0x6906C2FE, 0xF762575D, 0x806567CB, 0x196C3671, 0x6E6B06E7,
     0xFED41B76, 0x89D32BE0, 0x10DA7A5A, 0x67DD4ACC, 0xF9B9DF6F, 0x8EBEEFF9, 0x17B7BE43, 0x60B08ED5,
     0xD6D6A3E8, 0xA1D1937E, 0x38D8C2C4, 0x4FDFF252, 0xD1BB67F1, 0xA6BC5767, 0x3FB506DD, 0x48B2364B,
     0xD80D2BDA, 0xAF0A1B4C, 0x36034AF6, 0x41047A60, 0xDF60EFC3, 0xA867DF55, 0x316E8EEF, 0x4669BE79,
     0xCB61B38C, 0xBC66831A, 0x256FD2A0, 0x5268E236, 0xCC0C7795, 0xBB0B4703, 0x220216B9, 0x5505262F,
     0xC5BA3BBE, 0xB2BD0B28, 0x2BB45A92, 0x5CB36A04, 0xC2D7FFA7, 0xB5D0CF31, 0x2CD99E8B, 0x5BDEAE1D,
     0x9B64C2B0, 0xEC63F226, 0x756AA39C, 0x026D930A, 0x9C0906A9, 0xEB0E363F, 0x72076785, 0x05005713,
     0x95BF4A82, 0xE2B87A14, 0x7BB12BAE, 0x0CB61B38, 0x92D28E9B, 0xE5D5BE0D, 0x7CDCEFB7, 0x0BDBDF21,
     0x86D3D2D4, 0xF1D4E242, 0x68DDB3F8, 0x1FDA836E, 0x81BE16CD, 0xF6B9265B, 0x6FB077E1, 0x18B74777,
     0x88085AE6, 0xFF0F6A70, 0x66063BCA, 0x11010B5C, 0x8F659EFF, 0xF862AE69, 0x616BFFD3, 0x166CCF45,
     0xA00AE278, 0xD70DD2EE, 0x4E048354, 0x3903B3C2, 0xA7672661, 0xD06016F7, 0x4969474D, 0x3E6E77DB,
     0xAED16A4A, 0xD9D65ADC, 0x40DF0B66, 0x37D83BF0, 0xA9BCAE53, 0xDEBB9EC5, 0x47B2CF7F, 0x30B5FFE9,
     0xBDBDF21C, 0xCABAC28A, 0x53B39330, 0x24B4A3A6, 0xBAD03605, 0xCDD70693, 0x54DE5729, 0x23D967BF,
     0xB3667A2E, 0xC4614AB8, 0x5D681B02, 0x2A6F2B94, 0xB40BBE37, 0xC30C8EA1, 0x5A05DF1B, 0x2D02EF8D]"

definition crc32_step :: "u32 \<Rightarrow> u8 \<Rightarrow> u32" where
  "crc32_step crc b =
     (let idx = unat ((crc XOR ucast b) AND 0xFF)
      in drop_bit 8 crc XOR CRC32_TABLE ! idx)"

definition crc32 :: "u8 list \<Rightarrow> u32" where
  "crc32 data = NOT (foldl crc32_step 0xFFFFFFFF data)"

text \<open>The reference: division by the reflected polynomial, bit by bit.\<close>

definition crc_bit :: "u32 \<Rightarrow> u32" where
  "crc_bit c = (if bit c 0 then drop_bit 1 c XOR 0xEDB88320 else drop_bit 1 c)"

definition crc_byte :: "u32 \<Rightarrow> u8 \<Rightarrow> u32" where
  "crc_byte crc b = (crc_bit ^^ 8) (crc XOR ucast b)"

lemma crc_bit_xor: "crc_bit (x XOR y) = crc_bit x XOR crc_bit y"
  by (rule bit_word_eqI) (auto simp: crc_bit_def bit_simps)

lemma crc_bits_xor: "(crc_bit ^^ n) (x XOR y) = (crc_bit ^^ n) x XOR (crc_bit ^^ n) y"
  by (induction n arbitrary: x y) (simp_all add: crc_bit_xor funpow_swap1)

lemma crc_bits_high: "(\<And>k. k < n \<Longrightarrow> \<not> bit x k) \<Longrightarrow> (crc_bit ^^ n) x = drop_bit n x"
proof (induction n arbitrary: x)
  case (Suc n)
  have "crc_bit x = drop_bit 1 x" using Suc.prems [of 0] by (simp add: crc_bit_def)
  moreover have "(crc_bit ^^ n) (drop_bit 1 x) = drop_bit n (drop_bit 1 x)"
    by (rule Suc.IH) (use Suc.prems in \<open>simp add: bit_simps\<close>)
  ultimately show ?case by (simp add: funpow_swap1 drop_bit_drop_bit add.commute)
qed simp

lemma of_nat_high_bit:
  assumes "n < 2 ^ i" "i < 32"
  shows "(of_nat (2 ^ i + n) :: u32) = of_nat n XOR 2 ^ i"
proof -
  have "\<not> bit n i" using assms(1) by (simp add: bit_iff_odd)
  then have "\<not> bit (of_nat n :: u32) i" by (simp only: bit_of_nat_iff simp_thms)
  then have "(of_nat n :: u32) AND 2 ^ i = 0"
    by (intro bit_word_eqI) (auto simp: bit_simps)
  then have "(of_nat n :: u32) + 2 ^ i = of_nat n XOR 2 ^ i" by (rule disjunctive_add_eq_xor)
  then show ?thesis by (simp add: add.commute)
qed

text \<open>The table doubles: its upper half is its lower half, shifted by the entry of the new bit.\<close>

lemma table_double:
  assumes "map (\<lambda>n. (crc_bit ^^ k) (of_nat n)) [0..<2 ^ i] = xs" "i < 32"
  shows "map (\<lambda>n. (crc_bit ^^ k) (of_nat n)) [0..<2 ^ Suc i] = xs @ map (\<lambda>x. x XOR (crc_bit ^^ k) (2 ^ i)) xs"
proof -
  have "[0..<2 ^ Suc i] = [0..<2 ^ i] @ map (\<lambda>n. 2 ^ i + n) [0..<2 ^ i]"
    by (rule nth_equalityI) (auto simp: nth_append)
  moreover have "(crc_bit ^^ k) (of_nat (2 ^ i + n)) = (crc_bit ^^ k) (of_nat n) XOR (crc_bit ^^ k) (2 ^ i)"
    if "n \<in> set [0..<2 ^ i]" for n
    using that assms(2) of_nat_high_bit [of n i] by (simp only: crc_bits_xor set_upt atLeastLessThan_iff)
  ultimately show ?thesis
    unfolding assms(1) [symmetric] by (simp add: comp_def del: of_nat_add upt_Suc)
qed

lemma crc_bits_8: "(crc_bit ^^ 8) x = crc_bit (crc_bit (crc_bit (crc_bit (crc_bit (crc_bit (crc_bit (crc_bit x)))))))"
  by (simp add: eval_nat_numeral)

lemma crc_bits_power:
  "(crc_bit ^^ 8) 0 = 0"
  "(crc_bit ^^ 8) 1 = 0x77073096" "(crc_bit ^^ 8) 2 = 0xEE0E612C" "(crc_bit ^^ 8) 4 = 0x076DC419"
  "(crc_bit ^^ 8) 8 = 0x0EDB8832" "(crc_bit ^^ 8) 0x10 = 0x1DB71064" "(crc_bit ^^ 8) 0x20 = 0x3B6E20C8"
  "(crc_bit ^^ 8) 0x40 = 0x76DC4190" "(crc_bit ^^ 8) 0x80 = 0xEDB88320"
  unfolding crc_bits_8 by (simp_all add: crc_bit_def)

lemma crc_table: "map (\<lambda>n. (crc_bit ^^ 8) (of_nat n)) [0..<256] = CRC32_TABLE"
proof -
  let ?f = "\<lambda>n. (crc_bit ^^ 8) (of_nat n)"
  have "map ?f [0..<2 ^ 0] = take 1 CRC32_TABLE" by (simp add: crc_bits_power CRC32_TABLE_def)
  from table_double [OF this] have "map ?f [0..<2 ^ Suc 0] = take 2 CRC32_TABLE"
    by (simp add: crc_bits_power CRC32_TABLE_def del: upt_Suc)
  from table_double [OF this] have "map ?f [0..<2 ^ 2] = take 4 CRC32_TABLE"
    by (simp add: crc_bits_power CRC32_TABLE_def numeral_2_eq_2 del: upt_Suc)
  from table_double [OF this] have "map ?f [0..<2 ^ 3] = take 8 CRC32_TABLE"
    by (simp add: crc_bits_power CRC32_TABLE_def del: upt_Suc)
  from table_double [OF this] have "map ?f [0..<2 ^ 4] = take 16 CRC32_TABLE"
    by (simp add: crc_bits_power CRC32_TABLE_def del: upt_Suc)
  from table_double [OF this] have "map ?f [0..<2 ^ 5] = take 32 CRC32_TABLE"
    by (simp add: crc_bits_power CRC32_TABLE_def del: upt_Suc)
  from table_double [OF this] have "map ?f [0..<2 ^ 6] = take 64 CRC32_TABLE"
    by (simp add: crc_bits_power CRC32_TABLE_def del: upt_Suc)
  from table_double [OF this] have "map ?f [0..<2 ^ 7] = take 128 CRC32_TABLE"
    by (simp add: crc_bits_power CRC32_TABLE_def del: upt_Suc)
  from table_double [OF this] have "map ?f [0..<2 ^ 8] = CRC32_TABLE"
    by (simp add: crc_bits_power CRC32_TABLE_def del: upt_Suc)
  then show ?thesis by simp
qed

lemma xor_cancel: "a XOR c = b XOR c \<Longrightarrow> a = (b :: u32)"
proof -
  assume "a XOR c = b XOR c"
  then have "(a XOR c) XOR c = (b XOR c) XOR c" by (rule arg_cong)
  then show ?thesis by (simp only: xor.assoc xor_self_eq xor.right_neutral)
qed

lemma crc32_step_eq: "crc32_step crc b = crc_byte crc b"
proof -
  let ?x = "crc XOR ucast b :: u32" and ?m = "0xFF :: u32"
  have m: "bit ?m k \<longleftrightarrow> k < 8" for k
  proof -
    have "?m = mask 8" by (simp add: mask_eq_exp_minus_1)
    moreover have "bit (mask 8 :: u32) k \<longleftrightarrow> k < 8" by (auto simp only: bit_mask_iff possible_bit_word len_num1 len_bit0)
    ultimately show ?thesis by (simp only:)
  qed
  have split: "x = (x AND c) XOR (x AND NOT c)" for x c :: u32
    by (rule bit_word_eqI) (auto simp: bit_and_iff bit_xor_iff bit_not_iff)
  have "(crc_bit ^^ 8) (?x AND NOT ?m) = drop_bit 8 (?x AND NOT ?m)"
    by (rule crc_bits_high) (simp only: bit_and_iff bit_not_iff m, simp)
  also have "\<dots> = drop_bit 8 crc"
  proof (rule bit_word_eqI)
    fix k
    have "bit (ucast b :: u32) (8 + k) = False" by (auto simp: bit_simps dest: bit_imp_le_length)
    then show "bit (drop_bit 8 (?x AND NOT ?m)) k = bit (drop_bit 8 crc) k"
      by (auto simp only: bit_drop_bit_eq comp_def bit_and_iff bit_xor_iff bit_not_iff m intro: bit_imp_possible_bit)
  qed
  finally have hi: "(crc_bit ^^ 8) (?x AND NOT ?m) = drop_bit 8 crc" .
  have "?x AND ?m < 256" using word_and_le1 [of ?x ?m] by (rule le_less_trans) simp
  then have lt: "unat (?x AND ?m) < 256" by (simp add: word_less_nat_alt)
  have lo: "CRC32_TABLE ! unat (?x AND ?m) = (crc_bit ^^ 8) (?x AND ?m)"
    using lt by (simp add: crc_table [symmetric] del: upt_Suc)
  have "(crc_bit ^^ 8) ?x = (crc_bit ^^ 8) ((?x AND ?m) XOR (?x AND NOT ?m))"
    using split [of ?x ?m] by (rule arg_cong)
  also have "\<dots> = (crc_bit ^^ 8) (?x AND ?m) XOR drop_bit 8 crc"
    by (simp only: crc_bits_xor hi)
  finally show ?thesis
    unfolding crc32_step_def Let_def crc_byte_def lo by (simp only: xor.commute)
qed

lemma crc32_eq: "crc32 data = NOT (foldl crc_byte 0xFFFFFFFF data)"
proof -
  have "crc32_step = crc_byte" by (intro ext) (rule crc32_step_eq)
  then show ?thesis by (simp add: crc32_def)
qed

lemma crc_bit_inj: "inj crc_bit"
proof (rule injI)
  fix x y assume e: "crc_bit x = crc_bit y"
  have top: "bit (crc_bit z) 31 = bit z 0" for z
  proof -
    have "bit (0xEDB88320 :: u32) 31" by simp
    then show ?thesis by (auto simp: crc_bit_def bit_simps dest: bit_imp_le_length)
  qed
  from e top have b0: "bit x 0 = bit y 0" by metis
  with e have d: "drop_bit 1 x = drop_bit 1 y"
    by (cases "bit x 0") (auto simp: crc_bit_def dest: xor_cancel)
  show "x = y"
  proof (rule bit_word_eqI)
    fix k assume "k < LENGTH(32)"
    show "bit x k = bit y k"
    proof (cases k)
      case 0
      then show ?thesis using b0 by simp
    next
      case (Suc j)
      from d have "bit (drop_bit 1 x) j = bit (drop_bit 1 y) j" by simp
      then show ?thesis by (simp add: Suc bit_drop_bit_eq)
    qed
  qed
qed

text \<open>Up to four bytes enter the register like one word; after them the register remembers.\<close>

lemma crc_word:
  "length bs \<le> 4 \<Longrightarrow> foldl crc_byte c bs = (crc_bit ^^ (8 * length bs)) (c XOR le_word bs)"
proof (induction bs arbitrary: c)
  case (Cons b bs)
  let ?w = "le_word bs :: u32"
  have small: "k < 24" if "bit ?w k" for k
    using that Cons.prems less_mult_imp_div_less [of k 3 8] by (auto simp: bit_le_word div_less_iff_less_mult)
  have "(crc_bit ^^ 8) (push_bit 8 ?w) = drop_bit 8 (push_bit 8 ?w)"
    by (rule crc_bits_high) (simp add: bit_simps)
  also have "\<dots> = ?w"
    by (rule bit_word_eqI) (use small in \<open>auto simp: bit_simps intro: ccontr\<close>)
  finally have w: "(crc_bit ^^ 8) (push_bit 8 ?w) = ?w" .
  have "c XOR le_word (b # bs) = (c XOR ucast b) XOR push_bit 8 ?w"
    by (rule bit_word_eqI) (auto simp: bit_simps dest: bit_imp_le_length)
  then have e: "(crc_bit ^^ 8) (c XOR le_word (b # bs)) = crc_byte c b XOR ?w"
    by (simp add: crc_bits_xor w crc_byte_def)
  have "(crc_bit ^^ (8 * length (b # bs))) (c XOR le_word (b # bs)) =
      (crc_bit ^^ (8 * length bs)) ((crc_bit ^^ 8) (c XOR le_word (b # bs)))"
    by (simp add: add.commute [of 8] funpow_add del: le_word.simps)
  with Cons e show ?case by simp
qed simp

lemma le_word_inj:
  assumes "length bs = length cs" "length bs \<le> 4" "(le_word bs :: u32) = le_word cs"
  shows "bs = cs"
proof (rule nth_equalityI [OF assms(1)])
  fix j assume j: "j < length bs"
  show "bs ! j = cs ! j"
  proof (rule bit_word_eqI)
    fix k assume k: "k < LENGTH(8)"
    from assms(3) have "bit (le_word bs :: u32) (8 * j + k) = bit (le_word cs :: u32) (8 * j + k)" by simp
    then show "bit (bs ! j) k = bit (cs ! j) k"
      using j k assms(1,2) by (auto simp: bit_le_word)
  qed
qed

lemma crc_foldl_inj: "foldl crc_byte c ys = foldl crc_byte d ys \<Longrightarrow> c = d"
proof (induction ys arbitrary: c d)
  case (Cons y ys)
  have "inj (crc_bit ^^ 8)" by (rule inj_fn [OF crc_bit_inj])
  with Cons have "c XOR ucast y = d XOR ucast y" by (auto simp: crc_byte_def dest: injD)
  then show ?case by (rule xor_cancel)
qed simp

text \<open>Two messages that differ in a burst of at most four bytes have different checksums.\<close>

lemma crc_burst:
  assumes "bs \<noteq> cs" "length bs = length cs" "length bs \<le> 4"
  shows "crc32 (xs @ bs @ ys) \<noteq> crc32 (xs @ cs @ ys)"
proof
  let ?r = "foldl crc_byte 0xFFFFFFFF xs"
  assume "crc32 (xs @ bs @ ys) = crc32 (xs @ cs @ ys)"
  then have "NOT (NOT (foldl crc_byte (foldl crc_byte ?r bs) ys)) = NOT (NOT (foldl crc_byte (foldl crc_byte ?r cs) ys))"
    by (simp only: crc32_eq foldl_append)
  then have "foldl crc_byte (foldl crc_byte ?r bs) ys = foldl crc_byte (foldl crc_byte ?r cs) ys"
    by (simp only: bit.double_compl)
  then have "foldl crc_byte ?r bs = foldl crc_byte ?r cs" by (rule crc_foldl_inj)
  then have "(crc_bit ^^ (8 * length bs)) (?r XOR le_word bs) = (crc_bit ^^ (8 * length bs)) (?r XOR le_word cs)"
    using crc_word [of bs ?r] crc_word [of cs ?r] assms(2,3) by (simp only:)
  then have "?r XOR le_word bs = ?r XOR le_word cs"
    by (rule injD [OF inj_fn [OF crc_bit_inj]])
  then have "le_word bs XOR ?r = le_word cs XOR ?r" by (simp only: xor.commute)
  then have "(le_word bs :: u32) = le_word cs" by (rule xor_cancel)
  with le_word_inj assms(2,3) have "bs = cs" by blast
  with assms(1) show False by contradiction
qed

section \<open>File format\<close>

definition WAL_MAGIC :: u32 where "WAL_MAGIC = 0x57414C31"

definition WAL_VERSION :: u32 where "WAL_VERSION = 1"

record WalFileHeader =
  fh_magic :: u32
  fh_version :: u32

record WalRecordHeader =
  rh_seq_id :: u64
  rh_timestamp_ns :: u64
  rh_payload_len :: u32
  rh_crc32 :: u32

definition header_size :: nat where "header_size = 8"

definition rec_header_size :: nat where "rec_header_size = 24"

text \<open>The byte casts of the three plain types of a log file, and their laws.\<close>

record wal_casts =
  fh_bytes :: "WalFileHeader \<Rightarrow> u8 list"
  fh_from :: "u8 list \<Rightarrow> WalFileHeader"
  rh_bytes :: "WalRecordHeader \<Rightarrow> u8 list"
  rh_from :: "u8 list \<Rightarrow> WalRecordHeader"
  od_bytes :: "Order \<Rightarrow> u8 list"
  od_from :: "u8 list \<Rightarrow> Order"

definition repr_c :: "endian \<Rightarrow> wal_casts" where
  "repr_c h =
     \<lparr>fh_bytes = \<lambda>x. mem_bytes h (fh_magic x) @ mem_bytes h (fh_version x),
      fh_from = \<lambda>bs. \<lparr>fh_magic = mem_word h (take 4 bs), fh_version = mem_word h (drop 4 bs)\<rparr>,
      rh_bytes = \<lambda>x. mem_bytes h (rh_seq_id x) @ mem_bytes h (rh_timestamp_ns x) @
                    mem_bytes h (rh_payload_len x) @ mem_bytes h (rh_crc32 x),
      rh_from = \<lambda>bs. \<lparr>rh_seq_id = mem_word h (take 8 bs), rh_timestamp_ns = mem_word h (take 8 (drop 8 bs)),
                     rh_payload_len = mem_word h (take 4 (drop 16 bs)), rh_crc32 = mem_word h (drop 20 bs)\<rparr>,
      od_bytes = order_bytes h, od_from = order_of_bytes h\<rparr>"

section \<open>Writer\<close>

text \<open>
  \<open>ww_file\<close> is the content of the file, \<open>ww_synced\<close> the length of its part that \<open>sync_data\<close> has made
  durable, \<open>ww_buffer\<close> the buffer of the \<open>BufWriter\<close>. \<open>buf_write\<close> is its \<open>write_all\<close>: data that does
  not fit is preceded by a flush, data of the size of the buffer bypasses it.
\<close>

record WalWriter =
  ww_file :: "u8 list"
  ww_synced :: nat
  ww_buffer :: "u8 list"
  ww_seq_counter :: u64

definition BUF_CAPACITY :: nat where "BUF_CAPACITY = 64 * 1024"

definition wal_flush :: "WalWriter \<Rightarrow> WalWriter" where
  "wal_flush w = w\<lparr>ww_file := ww_file w @ ww_buffer w, ww_buffer := []\<rparr>"

definition buf_write :: "WalWriter \<Rightarrow> u8 list \<Rightarrow> WalWriter" where
  "buf_write w data =
     (let spare = BUF_CAPACITY - length (ww_buffer w) in
      if length data < spare then w\<lparr>ww_buffer := ww_buffer w @ data\<rparr>
      else
        (let w = (if length data > spare then wal_flush w else w) in
         if length data \<ge> BUF_CAPACITY then w\<lparr>ww_file := ww_file w @ data\<rparr>
         else w\<lparr>ww_buffer := ww_buffer w @ data\<rparr>))"

definition write_order :: "wal_casts \<Rightarrow> WalWriter \<Rightarrow> Order \<Rightarrow> u64 \<Rightarrow> WalWriter \<times> u64" where
  "write_order C w order timestamp_ns =
     (let seq_id = ww_seq_counter w;
          w = w\<lparr>ww_seq_counter := ww_seq_counter w + 1\<rparr>;
          payload = od_bytes C order;
          rec_header = \<lparr>rh_seq_id = seq_id, rh_timestamp_ns = timestamp_ns,
                        rh_payload_len = of_nat (length payload), rh_crc32 = crc32 payload\<rparr>;
          w = buf_write w (rh_bytes C rec_header);
          w = buf_write w payload
      in (w, seq_id))"

definition wal_sync :: "WalWriter \<Rightarrow> WalWriter" where
  "wal_sync w =
     (let w = wal_flush w in w\<lparr>ww_synced := length (ww_file w)\<rparr>)"

definition wal_sequence :: "WalWriter \<Rightarrow> u64" where
  "wal_sequence w = ww_seq_counter w"

section \<open>Reader\<close>

datatype wal_error = Too_Small | Corrupt u32 u32

function read_records :: "wal_casts \<Rightarrow> u8 list \<Rightarrow> (WalRecordHeader \<times> Order) list" where
  "read_records C bytes =
     (if length bytes < rec_header_size then []
      else
        (let rec_header = rh_from C (take rec_header_size bytes);
             bytes = drop rec_header_size bytes
         in if unat (rh_payload_len rec_header) \<noteq> order_size then []
            else if length bytes < order_size then []
            else
              (let order_buf = take order_size bytes in
               if crc32 order_buf \<noteq> rh_crc32 rec_header then []
               else (rec_header, od_from C order_buf) # read_records C (drop order_size bytes))))"
  by pat_completeness auto
termination
  by (relation "measure (\<lambda>(_, bytes). length bytes)") (auto simp: order_size_def)

declare read_records.simps [simp del]

definition read_all :: "wal_casts \<Rightarrow> u8 list \<Rightarrow> wal_error + (WalRecordHeader \<times> Order) list" where
  "read_all C file =
     (if length file < header_size then Inl Too_Small
      else
        (let file_header = fh_from C (take header_size file) in
         if fh_magic file_header \<noteq> WAL_MAGIC \<or> fh_version file_header \<noteq> WAL_VERSION
         then Inl (Corrupt (fh_magic file_header) (fh_version file_header))
         else Inr (read_records C (drop header_size file))))"

text \<open>Opening a log: \<open>None\<close> is a path without a file. The scan for the last sequence number ignores
  a file that cannot be read.\<close>

definition WalWriter_new :: "wal_casts \<Rightarrow> u8 list option \<Rightarrow> WalWriter" where
  "WalWriter_new C path =
     (let file = unwrap_or path [] in
      if length file > 0 then
        (let next_seq =
           (case read_all C file of
              Inr records \<Rightarrow> (if records = [] then 1 else rh_seq_id (fst (last records)) + 1)
            | Inl _ \<Rightarrow> 1)
         in \<lparr>ww_file = file, ww_synced = 0, ww_buffer = [], ww_seq_counter = next_seq\<rparr>)
      else
        (let file = file @ fh_bytes C \<lparr>fh_magic = WAL_MAGIC, fh_version = WAL_VERSION\<rparr>
         in \<lparr>ww_file = file, ww_synced = length file, ww_buffer = [], ww_seq_counter = 1\<rparr>))"

section \<open>The logger thread\<close>

text \<open>
  One turn per entry taken from the queue; \<open>empty\<close> is what \<open>wal_rx.is_empty()\<close> answers after it.
\<close>

definition wal_turn :: "wal_casts \<Rightarrow> WalWriter \<times> u64 \<Rightarrow> (Order \<times> u64) \<times> bool \<Rightarrow> WalWriter \<times> u64" where
  "wal_turn C s msg =
     (let (wal, count) = s;
          ((order, timestamp_ns), empty) = msg;
          wal = fst (write_order C wal order timestamp_ns);
          count = count + 1
      in if count mod 1000 = 0 \<or> empty then (wal_sync wal, count) else (wal, count))"

definition wal_thread :: "wal_casts \<Rightarrow> WalWriter \<Rightarrow> ((Order \<times> u64) \<times> bool) list \<Rightarrow> WalWriter \<times> u64" where
  "wal_thread C wal msgs = foldl (wal_turn C) (wal, 0) msgs"

definition wal_close :: "WalWriter \<times> u64 \<Rightarrow> WalWriter" where
  "wal_close s = wal_sync (fst s)"
text \<open>A run of the process, from opening the log to the end of its queue: the file it leaves.\<close>

definition wal_session :: "wal_casts \<Rightarrow> u8 list option \<Rightarrow> ((Order \<times> u64) \<times> bool) list \<Rightarrow> u8 list option" where
  "wal_session C path msgs = Some (ww_file (wal_close (wal_thread C (WalWriter_new C path) msgs)))"

section \<open>The log as a sequence of frames\<close>

definition entry_header :: "wal_casts \<Rightarrow> u64 \<Rightarrow> Order \<times> u64 \<Rightarrow> WalRecordHeader" where
  "entry_header C seq entry =
     \<lparr>rh_seq_id = seq, rh_timestamp_ns = snd entry, rh_payload_len = of_nat order_size,
      rh_crc32 = crc32 (od_bytes C (fst entry))\<rparr>"

definition frame :: "wal_casts \<Rightarrow> u64 \<Rightarrow> Order \<times> u64 \<Rightarrow> u8 list" where
  "frame C seq entry = rh_bytes C (entry_header C seq entry) @ od_bytes C (fst entry)"

primrec log_bytes :: "wal_casts \<Rightarrow> u64 \<Rightarrow> (Order \<times> u64) list \<Rightarrow> u8 list" where
  "log_bytes C seq [] = []"
| "log_bytes C seq (e # es) = frame C seq e @ log_bytes C (seq + 1) es"

primrec log_records :: "wal_casts \<Rightarrow> u64 \<Rightarrow> (Order \<times> u64) list \<Rightarrow> (WalRecordHeader \<times> Order) list" where
  "log_records C seq [] = []"
| "log_records C seq (e # es) = (entry_header C seq e, fst e) # log_records C (seq + 1) es"

definition preamble :: "wal_casts \<Rightarrow> u8 list" where
  "preamble C = fh_bytes C \<lparr>fh_magic = WAL_MAGIC, fh_version = WAL_VERSION\<rparr>"

lemma length_log_records [simp]: "length (log_records C seq es) = length es"
  by (induction es arbitrary: seq) simp_all

lemma log_records_append:
  "log_records C seq (es @ fs) = log_records C seq es @ log_records C (seq + of_nat (length es)) fs"
  by (induction es arbitrary: seq) (simp_all add: add.assoc)

lemma log_bytes_append:
  "log_bytes C seq (es @ fs) = log_bytes C seq es @ log_bytes C (seq + of_nat (length es)) fs"
  by (induction es arbitrary: seq) (simp_all add: add.assoc)

lemma log_records_Nil [simp]: "log_records C seq es = [] \<longleftrightarrow> es = []"
  by (cases es) simp_all

lemma last_log_records:
  "es \<noteq> [] \<Longrightarrow> rh_seq_id (fst (last (log_records C seq es))) + 1 = seq + of_nat (length es)"
proof (induction es arbitrary: seq)
  case (Cons e es)
  show ?case
  proof (cases "es = []")
    case True
    then show ?thesis by (simp add: entry_header_def)
  next
    case False
    then show ?thesis using Cons.IH [of "seq + 1"] by (simp add: add.assoc)
  qed
qed simp

lemma take_log_records: "take k (log_records C seq es) = log_records C seq (take k es)"
  by (induction es arbitrary: seq k) (simp_all add: take_Cons split: nat.split)

lemma snd_log_records: "map snd (log_records C seq es) = map fst es"
  by (induction es arbitrary: seq) simp_all

text \<open>The interface of the log to the casts it relies on.\<close>

locale wal_format =
  fixes C :: wal_casts
  assumes file_header: "pod_codec (fh_bytes C) (fh_from C) header_size"
    and rec_header: "pod_codec (rh_bytes C) (rh_from C) rec_header_size"
    and order: "pod_codec (od_bytes C) (od_from C) order_size"
begin

lemmas file_header_simps = pod_codec.length_bytes [OF file_header] pod_codec.from_bytes_of [OF file_header]
lemmas rec_header_simps = pod_codec.length_bytes [OF rec_header] pod_codec.from_bytes_of [OF rec_header]
lemmas order_simps = pod_codec.length_bytes [OF order] pod_codec.from_bytes_of [OF order]

lemma length_frame: "length (frame C seq e) = 72"
  by (simp add: frame_def rec_header_simps order_simps rec_header_size_def order_size_def)

lemma length_log_bytes: "length (log_bytes C seq es) = 72 * length es"
  by (induction es arbitrary: seq) (simp_all add: length_frame)

lemma length_preamble: "length (preamble C) = 8"
  by (simp add: preamble_def file_header_simps header_size_def)

text \<open>A record header followed by \<open>body\<close>: what the reader does with any bytes in the payload's place.\<close>

lemma read_record:
  "read_records C (rh_bytes C (entry_header C seq e) @ body) =
     (if length body < order_size \<or> crc32 (take order_size body) \<noteq> crc32 (od_bytes C (fst e)) then []
      else (entry_header C seq e, od_from C (take order_size body)) # read_records C (drop order_size body))"
  unfolding read_records.simps [of C "rh_bytes C (entry_header C seq e) @ body"]
    pod_codec.take_bytes [OF rec_header] pod_codec.from_bytes_of [OF rec_header]
  by (simp add: rec_header_simps entry_header_def order_size_def Let_def)

lemma read_frame:
  "read_records C (frame C seq e @ rest) = (entry_header C seq e, fst e) # read_records C rest"
  unfolding frame_def append_assoc read_record pod_codec.take_bytes [OF order] order_simps
  by (simp add: order_simps)

lemma read_short: "length bytes < rec_header_size \<Longrightarrow> read_records C bytes = []"
  by (subst read_records.simps) simp

text \<open>An incomplete frame is read as the end of the log.\<close>

lemma read_torn:
  assumes "n < 72"
  shows "read_records C (take n (frame C seq e)) = []"
proof (cases "n < rec_header_size")
  case True
  then show ?thesis by (intro read_short) simp
next
  case False
  then have "take n (frame C seq e) = rh_bytes C (entry_header C seq e) @ take (n - rec_header_size) (od_bytes C (fst e))"
    by (simp add: frame_def rec_header_simps)
  then show ?thesis
    using assms False by (simp add: read_record order_simps order_size_def rec_header_size_def less_diff_conv2)
qed

lemma read_prefix:
  "read_records C (take n (log_bytes C seq es)) = take (n div 72) (log_records C seq es)"
proof (induction es arbitrary: n seq)
  case Nil
  then show ?case by (simp add: read_short rec_header_size_def)
next
  case (Cons e es)
  show ?case
  proof (cases "n < 72")
    case True
    then show ?thesis by (simp add: length_frame read_torn)
  next
    case False
    then have n: "n div 72 = Suc ((n - 72) div 72)" by (simp add: le_div_geq)
    have "read_records C (take n (log_bytes C seq (e # es))) =
        (entry_header C seq e, fst e) # read_records C (take (n - 72) (log_bytes C (seq + 1) es))"
      using False by (simp add: length_frame read_frame)
    then show ?thesis by (simp add: Cons.IH n)
  qed
qed

lemma read_log: "read_records C (log_bytes C seq es @ rest) = log_records C seq es @ read_records C rest"
  by (induction es arbitrary: seq) (simp_all add: read_frame)

lemma read_all_preamble: "read_all C (preamble C @ body) = Inr (read_records C body)"
  unfolding read_all_def preamble_def pod_codec.take_bytes [OF file_header] file_header_simps
  by (simp add: file_header_simps Let_def)

lemma read_all_prefix:
  "read_all C (take n (preamble C @ log_bytes C seq es)) =
     (if n < 8 then Inl Too_Small else Inr (take ((n - 8) div 72) (log_records C seq es)))"
proof (cases "n < 8")
  case True
  then have "length (take n (preamble C @ log_bytes C seq es)) < header_size" by (simp add: header_size_def)
  with True show ?thesis by (simp only: read_all_def if_True)
next
  case False
  then show ?thesis by (simp add: length_preamble read_all_preamble read_prefix)
qed

lemma read_all_log: "read_all C (preamble C @ log_bytes C seq es) = Inr (log_records C seq es)"
  using read_log [of seq es "[]"] by (simp add: read_all_preamble read_short rec_header_size_def)

text \<open>A payload damaged in a burst of at most four bytes ends the log, whatever follows.\<close>

lemma read_damaged:
  assumes "od_bytes C (fst e) = xs @ bs @ ys" "bs \<noteq> bs'" "length bs = length bs'" "length bs \<le> 4"
  shows "read_records C (rh_bytes C (entry_header C seq e) @ (xs @ bs' @ ys) @ rest) = []"
proof -
  have l: "length (xs @ bs' @ ys) = order_size"
    using assms(3) order_simps(1) [of "fst e"] by (simp add: assms(1))
  have "crc32 (xs @ bs' @ ys) \<noteq> crc32 (od_bytes C (fst e))"
    using crc_burst [OF assms(2-4)] by (metis assms(1))
  moreover have "take order_size ((xs @ bs' @ ys) @ rest) = xs @ bs' @ ys"
    unfolding l [symmetric] by simp
  ultimately show ?thesis by (simp add: read_record)
qed

end

interpretation wal_layout: wal_format "repr_c h"
proof (rule wal_format.intro)
  show "pod_codec (fh_bytes (repr_c h)) (fh_from (repr_c h)) header_size"
    by (rule pod_codec.intro) (simp_all add: repr_c_def header_size_def)
  show "pod_codec (rh_bytes (repr_c h)) (rh_from (repr_c h)) rec_header_size"
    by (rule pod_codec.intro) (simp_all add: repr_c_def rec_header_size_def)
  show "pod_codec (od_bytes (repr_c h)) (od_from (repr_c h)) order_size"
    using order_codec.pod_codec_axioms by (simp add: repr_c_def)
qed
section \<open>The writer appends frames\<close>

definition stream :: "WalWriter \<Rightarrow> u8 list" where
  "stream w = ww_file w @ ww_buffer w"

definition buffered :: "WalWriter \<Rightarrow> bool" where
  "buffered w \<longleftrightarrow> length (ww_buffer w) \<le> BUF_CAPACITY \<and> ww_synced w \<le> length (ww_file w)"

lemma buf_write_ok:
  assumes "buffered w"
  shows "stream (buf_write w data) = stream w @ data" and "buffered (buf_write w data)"
    and "ww_seq_counter (buf_write w data) = ww_seq_counter w" and "ww_synced (buf_write w data) = ww_synced w"
  using assms
  by (cases "ww_buffer w"; auto simp: stream_def buffered_def buf_write_def wal_flush_def Let_def BUF_CAPACITY_def)+

lemma wal_sync_ok:
  "stream (wal_sync w) = stream w" "buffered (wal_sync w)" "ww_file (wal_sync w) = stream w"
  "ww_seq_counter (wal_sync w) = ww_seq_counter w" "ww_synced (wal_sync w) = length (stream w)"
  by (simp_all add: stream_def buffered_def wal_sync_def wal_flush_def Let_def)

text \<open>A writer on a file that holds \<open>base\<close>, after the entries \<open>es\<close> of this run, the first numbered \<open>seq\<close>.\<close>

definition wal_at :: "wal_casts \<Rightarrow> u8 list \<Rightarrow> u64 \<Rightarrow> (Order \<times> u64) list \<Rightarrow> WalWriter \<Rightarrow> bool" where
  "wal_at C base seq es w \<longleftrightarrow>
     buffered w \<and> stream w = base @ log_bytes C seq es \<and> ww_seq_counter w = seq + of_nat (length es)"

lemma wal_at_sync [intro]: "wal_at C base seq es w \<Longrightarrow> wal_at C base seq es (wal_sync w)"
  by (simp add: wal_at_def wal_sync_ok)

text \<open>What the file holds, and a crash leaves of it, is a prefix of the log.\<close>

lemma wal_at_file:
  assumes "wal_at C base seq es w"
  shows "take n (ww_file w) = take (min n (length (ww_file w))) (base @ log_bytes C seq es)"
  using assms unfolding wal_at_def stream_def by (metis append_eq_conv_conj take_take)

context wal_format
begin

lemma write_order_at:
  assumes "wal_at C base seq es w"
  shows "wal_at C base seq (es @ [(order, t)]) (fst (write_order C w order t))"
    and "ww_synced (fst (write_order C w order t)) = ww_synced w"
proof -
  let ?w = "w\<lparr>ww_seq_counter := ww_seq_counter w + 1\<rparr>"
  have b: "buffered ?w" and s: "stream ?w = stream w"
    using assms by (simp_all add: wal_at_def buffered_def stream_def)
  have h: "\<lparr>rh_seq_id = ww_seq_counter w, rh_timestamp_ns = t, rh_payload_len = of_nat (length (od_bytes C order)),
      rh_crc32 = crc32 (od_bytes C order)\<rparr> = entry_header C (ww_seq_counter w) (order, t)"
    by (simp add: entry_header_def order_simps)
  let ?v = "buf_write ?w (rh_bytes C (entry_header C (ww_seq_counter w) (order, t)))"
  have e: "fst (write_order C w order t) = buf_write ?v (od_bytes C order)"
    by (simp add: write_order_def Let_def h)
  note v = buf_write_ok [OF b, of "rh_bytes C (entry_header C (ww_seq_counter w) (order, t))"]
  note u = buf_write_ok [OF v(2), of "od_bytes C order"]
  have "stream (fst (write_order C w order t)) = stream w @ frame C (ww_seq_counter w) (order, t)"
    by (simp add: e u v s frame_def)
  moreover have "buffered (fst (write_order C w order t))" unfolding e by (rule u)
  moreover have "ww_seq_counter (fst (write_order C w order t)) = ww_seq_counter w + 1"
    by (simp add: e u v)
  ultimately show "wal_at C base seq (es @ [(order, t)]) (fst (write_order C w order t))"
    using assms by (simp add: wal_at_def log_bytes_append add.commute)
  show "ww_synced (fst (write_order C w order t)) = ww_synced w"
    by (simp add: e u v)
qed

lemma new_at: "wal_at C (preamble C) 1 [] (WalWriter_new C None)"
  by (simp add: wal_at_def WalWriter_new_def stream_def buffered_def preamble_def Let_def)

lemma reopen_at:
  assumes "read_records C rest = []"
  shows "wal_at C (preamble C @ log_bytes C 1 es @ rest) (1 + of_nat (length es)) []
     (WalWriter_new C (Some (preamble C @ log_bytes C 1 es @ rest)))"
proof -
  have "ww_seq_counter (WalWriter_new C (Some (preamble C @ log_bytes C 1 es @ rest))) = 1 + of_nat (length es)"
    using assms length_preamble last_log_records [of es C 1]
    by (auto simp: WalWriter_new_def read_all_preamble read_log Let_def)
  then show ?thesis
    using length_preamble by (auto simp: wal_at_def WalWriter_new_def stream_def buffered_def Let_def)
qed

lemma turn_at:
  assumes "wal_at C base seq es (fst s)"
  shows "wal_at C base seq (es @ [fst m]) (fst (wal_turn C s m))"
  using write_order_at [OF assms, of "fst (fst m)" "snd (fst m)"]
  by (cases s; cases m) (auto simp: wal_turn_def Let_def split: prod.split)

lemma turn_empty:
  assumes "snd m"
  shows "ww_synced (fst (wal_turn C s m)) = length (stream (fst (wal_turn C s m)))"
    and "ww_file (fst (wal_turn C s m)) = stream (fst (wal_turn C s m))"
  using assms by (cases s; cases m; auto simp: wal_turn_def Let_def wal_sync_ok split: prod.split)+

lemma thread_at:
  assumes "wal_at C base seq [] w"
  shows "wal_at C base seq (map fst msgs) (fst (wal_thread C w msgs))"
proof (induction msgs rule: rev_induct)
  case Nil
  with assms show ?case by (simp add: wal_thread_def)
next
  case (snoc m msgs)
  then show ?case using turn_at [OF snoc] by (simp add: wal_thread_def)
qed

lemma thread_synced:
  "8 \<le> ww_synced (fst (wal_thread C (WalWriter_new C None) msgs))"
proof (induction msgs rule: rev_induct)
  case Nil
  show ?case using length_preamble by (simp add: wal_thread_def WalWriter_new_def preamble_def Let_def)
next
  case (snoc m msgs)
  let ?s = "wal_thread C (WalWriter_new C None) msgs"
  note at = thread_at [OF new_at, of msgs]
  obtain w c where s: "?s = (w, c)" by (cases ?s)
  have "8 \<le> length (stream w)" using at length_preamble by (simp add: s wal_at_def)
  moreover have "ww_synced (fst (write_order C w (fst (fst m)) (snd (fst m)))) = ww_synced w"
    using write_order_at(2) at by (simp add: s)
  moreover have "wal_at C (preamble C) 1 (map fst msgs @ [fst m]) (fst (write_order C w (fst (fst m)) (snd (fst m))))"
    using write_order_at(1) [of "preamble C" 1 "map fst msgs" w "fst (fst m)" "snd (fst m)"] at by (simp add: s)
  ultimately show ?case
    using snoc length_preamble
    by (cases m; cases "fst m")
      (simp add: wal_thread_def wal_turn_def s [unfolded wal_thread_def] wal_sync_ok wal_at_def Let_def)
qed

lemma close_file:
  assumes "wal_at C base seq [] w"
  shows "ww_file (wal_close (wal_thread C w msgs)) = base @ log_bytes C seq (map fst msgs)"
  using thread_at [OF assms, of msgs] by (simp add: wal_close_def wal_sync_ok wal_at_def)

text \<open>A run on a file the reader understands up to \<open>rest\<close> keeps the file and appends to it.\<close>

lemma session_file:
  assumes "read_records C rest = []"
  shows "wal_session C (Some (preamble C @ log_bytes C 1 es @ rest)) msgs =
    Some (preamble C @ log_bytes C 1 es @ rest @ log_bytes C (1 + of_nat (length es)) (map fst msgs))"
  using close_file [OF reopen_at [OF assms], of es msgs] by (simp add: wal_session_def)

lemma sessions_file:
  "foldl (wal_session C) None (msgs # sessions) =
     Some (preamble C @ log_bytes C 1 (map fst (concat (msgs # sessions))))"
proof (induction sessions rule: rev_induct)
  case Nil
  show ?case using close_file [OF new_at, of msgs] by (simp add: wal_session_def)
next
  case (snoc s sessions)
  have "read_records C [] = []" by (rule read_short) (simp add: rec_header_size_def)
  from session_file [OF this, of "map fst (concat (msgs # sessions))" s] snoc
  show ?case by (simp add: log_bytes_append add.assoc)
qed

text \<open>What a crash leaves, when at least the synced part of the file survives.\<close>

lemma crash_prefix:
  assumes "w = fst (wal_thread C (WalWriter_new C None) msgs)" and "ww_synced w \<le> n"
  shows "read_all C (take n (ww_file w)) =
    Inr (take ((min n (length (ww_file w)) - 8) div 72) (log_records C 1 (map fst msgs)))"
proof -
  note at = thread_at [OF new_at, of msgs, folded assms(1)]
  have n: "8 \<le> n" "8 \<le> ww_synced w" "ww_synced w \<le> length (ww_file w)"
    using thread_synced [of msgs] assms at by (simp_all add: wal_at_def buffered_def)
  show ?thesis unfolding wal_at_file [OF at] read_all_prefix using n by simp
qed

lemma crash_nothing_lost:
  assumes "w = fst (wal_thread C (WalWriter_new C None) msgs)" and "ww_synced w \<le> n"
    and "msgs \<noteq> []" "snd (last msgs)"
  shows "read_all C (take n (ww_file w)) = Inr (log_records C 1 (map fst msgs))"
proof -
  note at = thread_at [OF new_at, of msgs, folded assms(1)]
  from assms(3) obtain ms m where m: "msgs = ms @ [m]" by (cases msgs rule: rev_cases) auto
  then have "ww_file w = stream w" "ww_synced w = length (stream w)"
    using assms(4) turn_empty [of m] by (simp_all add: assms(1) wal_thread_def)
  then have "take n (ww_file w) = preamble C @ log_bytes C 1 (map fst msgs)"
    using at assms(2) by (simp add: wal_at_def)
  then show ?thesis by (simp only: read_all_log)
qed

end
text \<open>Behind one stray byte, a frame is read as a header with an impossible payload length.\<close>

lemma unat_48: "unat (w :: u32) = 48 \<Longrightarrow> w = 48"
proof -
  assume "unat w = 48"
  then have "unat w = unat (48 :: u32)" by simp
  then show ?thesis by (simp only: word_unat_eq_iff)
qed

lemma shifted_length:
  assumes "length a = 8" "length b = 8"
  shows "rh_payload_len (rh_from (repr_c Little) (take 24 (x # a @ b @ le_bytes (48 :: u32) @ c))) \<noteq> 48"
proof -
  have l: "le_bytes (48 :: u32) = [48, 0, 0, 0]" by (simp add: le_bytes_def upt_rec)
  have "take 4 (drop 16 (take 24 (x # a @ b @ le_bytes (48 :: u32) @ c))) = [last b, 48, 0, 0]"
    using assms by (cases b rule: rev_cases) (simp_all add: l take_Cons' drop_Cons')
  moreover have "bit (le_word [last b, 48, 0, 0] :: u32) 12"
    unfolding bit_le_word by simp
  moreover have "\<not> bit (48 :: u32) 12" by simp
  ultimately show ?thesis by (auto simp: repr_c_def)
qed

lemma torn_byte: "read_records (repr_c Little) (x # log_bytes (repr_c Little) seq es) = []"
proof (cases es)
  case Nil
  then show ?thesis by (simp add: wal_layout.read_short rec_header_size_def)
next
  case (Cons e es')
  let ?h = "entry_header (repr_c Little) seq e"
  have f: "x # log_bytes (repr_c Little) seq es =
      x # mem_bytes Little (rh_seq_id ?h) @ mem_bytes Little (rh_timestamp_ns ?h) @
        le_bytes (48 :: u32) @ mem_bytes Little (rh_crc32 ?h) @ od_bytes (repr_c Little) (fst e) @
        log_bytes (repr_c Little) (seq + 1) es'"
    by (simp add: Cons frame_def repr_c_def entry_header_def order_size_def)
  have "rh_payload_len (rh_from (repr_c Little) (take 24 (x # log_bytes (repr_c Little) seq es))) \<noteq> 48"
    unfolding f by (rule shifted_length) simp_all
  then have "unat (rh_payload_len (rh_from (repr_c Little) (take rec_header_size (x # log_bytes (repr_c Little) seq es)))) \<noteq> order_size"
    by (auto simp: rec_header_size_def order_size_def dest: unat_48)
  then show ?thesis
    by (subst read_records.simps) (simp add: Let_def)
qed

section \<open>Guarantees of the log\<close>

text \<open>C20. Checksum equivalence: the table-driven \<open>crc32\<close> is the CRC-32 of IEEE 802.3, the bit-by-bit division
  by the reflected polynomial 0xEDB88320; in particular all 256 entries of the table are right.\<close>

theorem crc32_reference: "crc32 data = NOT (foldl crc_byte 0xFFFFFFFF data)"
  by (rule crc32_eq)

text \<open>C19. A damaged record ends the log: when up to four adjacent bytes of a record's payload have changed, the
  checksum exposes it, and the reader returns exactly the records before it, whatever follows.\<close>

theorem wal_detects_damage:
  assumes "wal_format C" and "od_bytes C order = xs @ bs @ ys" and "bs \<noteq> bs'" and "length bs = length bs'"
    and "length bs \<le> 4"
  shows "read_all C (preamble C @ log_bytes C 1 es @
            rh_bytes C (entry_header C seq (order, t)) @ (xs @ bs' @ ys) @ rest) = Inr (log_records C 1 es)"
  using wal_format.read_damaged [OF assms(1), of "(order, t)" xs bs ys bs' seq rest] assms(2-)
  by (simp add: wal_format.read_all_preamble [OF assms(1)] wal_format.read_log [OF assms(1)])

theorem wal_detects_damage_witness:
  "read_all (repr_c Little) (preamble (repr_c Little) @ log_bytes (repr_c Little) 1 [(new_cancel 9 1 Btc, 5)] @
      rh_bytes (repr_c Little) (entry_header (repr_c Little) 2 (Order_default, 6)) @
      ([] @ [1, 2] @ drop 2 (order_bytes Little Order_default)) @ [7]) =
   Inr (log_records (repr_c Little) 1 [(new_cancel 9 1 Btc, 5)])"
proof (rule wal_detects_damage [OF wal_layout.wal_format_axioms])
  show "od_bytes (repr_c Little) Order_default = [] @ [0, 0] @ drop 2 (order_bytes Little Order_default)"
    by (simp add: repr_c_def order_bytes_def Order_default_def le_bytes_def upt_rec)
qed simp_all

text \<open>C9. Crash safety: wherever a crash cuts the file after what was synced, recovery reads whole records only:
  those of a prefix of what was logged, numbered 1, 2, and so on. Once the logger has found its queue empty,
  nothing that was handed to it can be lost.\<close>

theorem wal_crash_safe:
  assumes "wal_format C" and "w = fst (wal_thread C (WalWriter_new C None) msgs)" and "ww_synced w \<le> n"
  shows "read_all C (take n (ww_file w)) =
      Inr (take ((min n (length (ww_file w)) - 8) div 72) (log_records C 1 (map fst msgs))) \<and>
    (msgs \<noteq> [] \<and> snd (last msgs) \<longrightarrow>
      read_all C (take n (ww_file w)) = Inr (log_records C 1 (map fst msgs)))"
  using wal_format.crash_prefix [OF assms] by (rule conjI) (rule impI, rule wal_format.crash_nothing_lost [OF assms], auto)

theorem wal_crash_safe_witness:
  "let w = fst (wal_thread (repr_c Big) (WalWriter_new (repr_c Big) None) [((Order_default, 4), False), ((Order_default, 5), True)])
   in read_all (repr_c Big) (take (ww_synced w) (ww_file w)) =
        Inr (log_records (repr_c Big) 1 [(Order_default, 4), (Order_default, 5)])"
  using wal_crash_safe [OF wal_layout.wal_format_axioms refl order.refl, THEN conjunct2, THEN mp,
      of "[((Order_default, 4), False), ((Order_default, 5), True)]" Big]
  unfolding Let_def by (simp del: log_records.simps)

text \<open>C18. Sessions: over any number of clean runs of the logger on one file, recovery returns every order ever
  logged, in order, with its timestamp, and the sequence numbers run on from run to run without a gap or a
  repetition.\<close>

theorem wal_sessions_recovered:
  assumes "wal_format C"
  shows "map_option (read_all C) (foldl (wal_session C) None (msgs # sessions)) =
    Some (Inr (log_records C 1 (map fst (concat (msgs # sessions)))))"
  by (simp only: wal_format.sessions_file [OF assms] wal_format.read_all_log [OF assms] option.map)

theorem wal_sessions_recovered_witness:
  "map_option (read_all (repr_c Little))
     (foldl (wal_session (repr_c Little)) None [[((Order_default, 4), False)], [], [((Order_default, 5), True)]]) =
   Some (Inr [(entry_header (repr_c Little) 1 (Order_default, 4), Order_default),
              (entry_header (repr_c Little) 2 (Order_default, 5), Order_default)])"
  unfolding wal_sessions_recovered [OF wal_layout.wal_format_axioms] by simp
text \<open>C37. A torn tail is never repaired: when a crash has left one byte of an unfinished record (any byte, on a
  little-endian host), the next run of the logger appends behind it, and recovery then returns only the
  records before the crash. Every order of the later run is lost, however often it was synced.\<close>

theorem wal_torn_tail_hides:
  "map_option (read_all (repr_c Little))
     (wal_session (repr_c Little)
        (Some (preamble (repr_c Little) @ log_bytes (repr_c Little) 1 es @ [x])) msgs) =
   Some (Inr (log_records (repr_c Little) 1 es))"
proof -
  let ?C = "repr_c Little"
  let ?s = "1 + of_nat (length es) :: u64"
  have "read_records ?C [x] = []" by (rule wal_layout.read_short) (simp add: rec_header_size_def)
  note wal_layout.session_file [OF this, of es msgs]
  moreover have "read_records ?C (x # log_bytes ?C ?s (map fst msgs)) = []"
    by (rule torn_byte)
  ultimately show ?thesis
    by (simp add: wal_layout.read_all_preamble wal_layout.read_log)
qed

end
