(* ===== verification/Exchange.thy ===== *)
theory Exchange
  imports Engine Wal
begin

text \<open>
  The exchange process of \<open>src/bin/exchange.rs\<close>: the start (funding of the test accounts, recovery from
  the log), one turn of the engine thread per inbound message with its writes to the log and its
  events, and the egress dispatcher. A turn is a function of the state, the message and the clock; the
  two queues it sends to are lists it appends to.
\<close>

section \<open>State\<close>

record exchange =
  ex_engine :: MultiAssetEngine
  ex_risk :: RiskEngine
  ex_wal :: "(Order \<times> u64) list"
  ex_out :: "OutboundEvent list"

definition wal_send :: "exchange \<Rightarrow> Order \<Rightarrow> u64 \<Rightarrow> exchange" where
  "wal_send ex order now_ns = ex\<lparr>ex_wal := ex_wal ex @ [(order, now_ns)]\<rparr>"

definition out_send :: "exchange \<Rightarrow> OutboundEvent \<Rightarrow> exchange" where
  "out_send ex event = ex\<lparr>ex_out := ex_out ex @ [event]\<rparr>"

section \<open>Start\<close>

definition prefunded :: RiskEngine where
  "prefunded =
     (let risk = RiskEngine_new;
          risk = deposit risk 1 10000000000 (Symbol_as Btc) 1000;
          risk = deposit risk 1 0 (Symbol_as Eth) 10000;
          risk = deposit risk 1 0 (Symbol_as Sol) 100000;
          risk = deposit risk 2 10000000000 (Symbol_as Btc) 1000;
          risk = deposit risk 2 0 (Symbol_as Eth) 10000
      in deposit risk 2 0 (Symbol_as Sol) 100000)"

primrec replay_all ::
  "Order list \<Rightarrow> MultiAssetEngine \<Rightarrow> Trade list \<Rightarrow> RiskEngine \<Rightarrow> (MultiAssetEngine \<times> RiskEngine) option" where
  "replay_all [] e trades risk = Some (e, risk)"
| "replay_all (order # orders) e trades risk =
     do {
       (e, trades, risk, _) \<leftarrow> me_replay_order e order trades risk;
       replay_all orders e trades risk
     }"

text \<open>
  \<open>wal\<close> is what \<open>WalReader::read_all\<close> answers, \<open>None\<close> when there is no log. After a replay the start-up
  message takes an order id.
\<close>

definition exchange_start :: "(wal_error + (WalRecordHeader \<times> Order) list) option \<Rightarrow> exchange option" where
  "exchange_start wal =
     (let engine = MultiAssetEngine_new; risk = prefunded in
      case wal of
        Some (Inr records) \<Rightarrow>
          if records = [] then Some \<lparr>ex_engine = engine, ex_risk = risk, ex_wal = [], ex_out = []\<rparr>
          else
            do {
              (engine, risk) \<leftarrow> replay_all (map snd records) engine [] risk;
              let (engine, _) = me_next_order_id engine;
              Some \<lparr>ex_engine = engine, ex_risk = risk, ex_wal = [], ex_out = []\<rparr>
            }
      | _ \<Rightarrow> Some \<lparr>ex_engine = engine, ex_risk = risk, ex_wal = [], ex_out = []\<rparr>)"

section \<open>One inbound message\<close>

text \<open>Authenticated cancellation.\<close>

definition reject_event :: "u64 \<Rightarrow> Order \<Rightarrow> RejectReason \<Rightarrow> OutboundEvent" where
  "reject_event client_id order reason =
     ClientReject client_id
       (sm_reject (ord_id order) (ord_client_order_id order) (ord_user_id order)
          (ucast (ord_symbol_id order)) reason)"

definition handle_cancel :: "exchange \<Rightarrow> Order \<Rightarrow> u64 \<Rightarrow> u64 \<Rightarrow> exchange option" where
  "handle_cancel ex order client_id now_ns =
     do {
       (e, r) \<leftarrow> me_cancel_order (ex_engine ex) (ord_symbol_id order) (ord_user_id order) (ord_id order);
       let ex = ex\<lparr>ex_engine := e\<rparr>;
       (case r of
          Inr cancelled \<Rightarrow>
            (let ex = ex\<lparr>ex_risk := unlock_cancelled_order_margin (ex_risk ex) cancelled (ord_qty cancelled)\<rparr>;
                 ex = wal_send ex order now_ns
             in Some (out_send ex (ClientCancelOk client_id
                  (sm_cancel_ok (ord_id cancelled) (ord_client_order_id cancelled) (ord_user_id order)
                     (ucast (ord_symbol_id order)) (ord_qty cancelled)))))
        | Inl reason \<Rightarrow> Some (out_send ex (reject_event client_id order reason)))
     }"

text \<open>The two execution reports of a trade.\<close>

definition fill_event :: "Trade \<Rightarrow> OutboundEvent" where
  "fill_event trade =
     TradeFill (tr_taker_client_id trade) (tr_maker_client_id trade)
       (sm_fill (tr_taker_order_id trade) (tr_taker_client_order_id trade) (tr_taker_user_id trade)
          (ucast (tr_symbol_id trade)) (tr_match_id trade) (tr_price trade) (tr_qty trade) False)
       (sm_fill (tr_maker_order_id trade) (tr_maker_client_order_id trade) (tr_maker_user_id trade)
          (ucast (tr_symbol_id trade)) (tr_match_id trade) (tr_price trade) (tr_qty trade) True)"

text \<open>Settling all matched trades, each with its event.\<close>

definition settle_and_report ::
  "exchange \<Rightarrow> Order \<Rightarrow> Trade list \<Rightarrow> exchange \<times> u64 \<times> u64" where
  "settle_and_report ex order trades =
     fold (\<lambda>trade (ex, total_executed_qty, total_executed_cost).
             (out_send (ex\<lparr>ex_risk := settle_trade (ex_risk ex) trade (ord_price order)\<rparr>) (fill_event trade),
              total_executed_qty + tr_qty trade,
              total_executed_cost + sat_mul (tr_price trade) (tr_qty trade)))
       trades (ex, 0, 0)"

definition bbo_event :: "Order \<Rightarrow> (u64 \<times> u64) option \<times> (u64 \<times> u64) option \<Rightarrow> OutboundEvent" where
  "bbo_event order bbo =
     (let (bid_p, bid_q) = unwrap_or (fst bbo) (0, 0);
          (ask_p, ask_q) = unwrap_or (snd bbo) (0, 0)
      in BboBroadcast (sm_bbo (ucast (ord_symbol_id order)) bid_p bid_q ask_p ask_q))"

text \<open>What follows a successful match.\<close>

definition handle_report ::
  "exchange \<Rightarrow> Order \<Rightarrow> u64 \<Rightarrow> ExecutionReport \<Rightarrow> Trade list \<Rightarrow> exchange option" where
  "handle_report ex order client_id report trades =
     do {
       let order_type = order_type_of order;
       let (ex, total_executed_qty, total_executed_cost) = settle_and_report ex order trades;
       let ex = (if er_stp_triggered report \<and> er_remaining_qty report > 0
                 then out_send
                        (ex\<lparr>ex_risk := unlock_cancelled_order_margin (ex_risk ex) order (er_remaining_qty report)\<rparr>)
                        (reject_event client_id order SelfTradePrevented)
                 else ex);
       let ex = (if order_type = Market \<and> \<not> er_stp_triggered report
                 then ex\<lparr>ex_risk := refund_market_order_remainder (ex_risk ex) (ord_user_id order)
                           (ord_symbol_id order) (unwrap_or (get_side order) Buy) (ord_price order)
                           (ord_qty order) total_executed_qty total_executed_cost\<rparr>
                 else ex);
       (case me_get_book (ex_engine ex) (ord_symbol_id order) of
          Some book \<Rightarrow> do {
            bbo \<leftarrow> get_bbo book;
            Some (out_send ex (bbo_event order bbo))
          }
        | None \<Rightarrow> Some ex)
     }"

text \<open>An order that is not a cancel: margin, id, log, acknowledgement, matching.\<close>

definition ack_event :: "u64 \<Rightarrow> Order \<Rightarrow> OutboundEvent" where
  "ack_event client_id order =
     ClientAck client_id
       (sm_ack (ord_id order) (ord_client_order_id order) (ord_user_id order) (ucast (ord_symbol_id order)))"

definition assign_id :: "exchange \<Rightarrow> Order \<Rightarrow> exchange \<times> Order" where
  "assign_id ex order =
     (if ord_id order = 0 then
        (let (e, oid) = me_next_order_id (ex_engine ex)
         in (ex\<lparr>ex_engine := e\<rparr>, order\<lparr>ord_id := oid\<rparr>))
      else (ex, order))"

definition handle_order :: "exchange \<Rightarrow> Order \<Rightarrow> u64 \<Rightarrow> u64 \<Rightarrow> exchange option" where
  "handle_order ex order client_id now_ns =
     (case lock_order_funds (ex_risk ex) order of
        (risk, Inl reason) \<Rightarrow>
          Some (out_send (ex\<lparr>ex_risk := risk\<rparr>) (reject_event client_id order reason))
      | (risk, Inr _) \<Rightarrow> do {
          let (ex, order) = assign_id (ex\<lparr>ex_risk := risk\<rparr>) order;
          let ex = wal_send ex order now_ns;
          let ex = out_send ex (ack_event client_id order);
          (e, trades, match_res) \<leftarrow> me_process (ex_engine ex) order client_id [];
          let ex = ex\<lparr>ex_engine := e\<rparr>;
          (case match_res of
             Inr report \<Rightarrow> handle_report ex order client_id report trades
           | Inl reason \<Rightarrow>
               Some (out_send
                 (ex\<lparr>ex_risk := unlock_cancelled_order_margin (ex_risk ex) order (ord_qty order)\<rparr>)
                 (reject_event client_id order reason)))
        })"

definition handle_inbound :: "exchange \<Rightarrow> InboundMessage \<Rightarrow> u64 \<Rightarrow> exchange option" where
  "handle_inbound ex inbound now_ns =
     (let order = im_order inbound in
      if order_type_of order = Cancel then handle_cancel ex order (im_client_id inbound) now_ns
      else handle_order ex order (im_client_id inbound) now_ns)"

primrec exchange_run :: "exchange \<Rightarrow> (InboundMessage \<times> u64) list \<Rightarrow> exchange option" where
  "exchange_run ex [] = Some ex"
| "exchange_run ex (m # ms) =
     do {
       ex \<leftarrow> handle_inbound ex (fst m) (snd m);
       exchange_run ex ms
     }"

section \<open>Egress\<close>

text \<open>
  The dispatcher keeps a channel per connected client. \<open>try_send\<close> of a channel is a parameter: it takes
  the message, or fails when the buffer is full or the receiver is gone, and then the client is
  dropped.
\<close>

type_synonym 'sender senders = "u64 \<rightharpoonup> 'sender"

definition deliver ::
  "('sender \<Rightarrow> ServerMessage \<Rightarrow> 'sender option) \<Rightarrow> u64 \<Rightarrow> ServerMessage \<Rightarrow> 'sender senders \<Rightarrow> 'sender senders" where
  "deliver try_send client_id msg client_senders =
     (case client_senders client_id of
        None \<Rightarrow> client_senders
      | Some tx \<Rightarrow> client_senders(client_id := try_send tx msg))"

definition on_connection :: "'sender ConnectionEvent \<Rightarrow> 'sender senders \<Rightarrow> 'sender senders" where
  "on_connection event client_senders =
     (case event of
        Connected client_id sender \<Rightarrow> client_senders(client_id \<mapsto> sender)
      | Disconnected client_id \<Rightarrow> client_senders(client_id := None))"

definition broadcast ::
  "('sender \<Rightarrow> ServerMessage \<Rightarrow> 'sender option) \<Rightarrow> ServerMessage \<Rightarrow> 'sender senders \<Rightarrow> 'sender senders" where
  "broadcast try_send msg client_senders =
     (\<lambda>client_id. Option.bind (client_senders client_id) (\<lambda>tx. try_send tx msg))"

definition on_outbound ::
  "('sender \<Rightarrow> ServerMessage \<Rightarrow> 'sender option) \<Rightarrow> OutboundEvent \<Rightarrow> 'sender senders \<Rightarrow> 'sender senders" where
  "on_outbound try_send event client_senders =
     (case event of
        ClientAck client_id msg \<Rightarrow> deliver try_send client_id msg client_senders
      | ClientReject client_id msg \<Rightarrow> deliver try_send client_id msg client_senders
      | ClientCancelOk client_id msg \<Rightarrow> deliver try_send client_id msg client_senders
      | TradeFill taker_client_id maker_client_id taker_msg maker_msg \<Rightarrow>
          deliver try_send maker_client_id maker_msg
            (deliver try_send taker_client_id taker_msg client_senders)
      | BboBroadcast msg \<Rightarrow> broadcast try_send msg client_senders)"

end
