(* ===== verification/Solvency.thy ===== *)
theory Solvency
  imports Exchange
begin

text \<open>
  Solvency of the exchange: the margin that the accounts have locked is, to the unit, what the resting
  orders of the books need, and the total of every currency never changes. The invariant spans the
  three books, the risk engine and the id counter; it is shown to hold in every state that the exchange
  reaches through the messages described by \<open>well_formed\<close>, and with it that no turn of the engine
  thread panics or diverges, and that no level total of a book can overflow. Theory \<open>Quotes\<close> draws the last
  conclusion; theory \<open>Service\<close> shows that turns end for the other messages too.
\<close>

section \<open>The margin of resting orders\<close>

definition bid_margin :: "resting list \<Rightarrow> u64 \<Rightarrow> nat" where
  "bid_margin q u =
     sum_list (map (\<lambda>x. if ord_user_id (fst x) = u then unat (ord_price (fst x)) * unat (ord_qty (fst x)) else 0) q)"

definition ask_margin :: "resting list \<Rightarrow> u64 \<Rightarrow> nat" where
  "ask_margin q u = sum_list (map (\<lambda>x. if ord_user_id (fst x) = u then unat (ord_qty (fst x)) else 0) q)"

definition usd_margin :: "(nat \<Rightarrow> abook) \<Rightarrow> u64 \<Rightarrow> nat" where
  "usd_margin Bs u = (\<Sum>s<NUM_SYMBOLS. bid_margin (flat (ab_bids (Bs s))) u)"

definition asset_margin :: "(nat \<Rightarrow> abook) \<Rightarrow> nat \<Rightarrow> u64 \<Rightarrow> nat" where
  "asset_margin Bs s u = ask_margin (flat (ab_asks (Bs s))) u"

lemma margin_simps [simp]:
  "bid_margin [] u = 0" "ask_margin [] u = 0"
  "bid_margin (x # q) u = (if ord_user_id (fst x) = u then unat (ord_price (fst x)) * unat (ord_qty (fst x)) else 0) + bid_margin q u"
  "ask_margin (x # q) u = (if ord_user_id (fst x) = u then unat (ord_qty (fst x)) else 0) + ask_margin q u"
  by (simp_all add: bid_margin_def ask_margin_def)

lemma margin_mset:
  "mset q = mset q' \<Longrightarrow> bid_margin q u = bid_margin q' u"
  "mset q = mset q' \<Longrightarrow> ask_margin q u = ask_margin q' u"
  unfolding bid_margin_def ask_margin_def by (simp_all flip: sum_mset_sum_list)

section \<open>Settling an execution\<close>

abbreviation settle :: "u64 \<Rightarrow> Trade list \<Rightarrow> RiskEngine \<Rightarrow> RiskEngine" where
  "settle lp ts re \<equiv> fold (\<lambda>t re. settle_trade re t lp) ts re"

text \<open>A buy: the taker's dollars and the makers' assets leave the locked funds as the quantities do.\<close>

lemma settle_one_buy:
  assumes F: "funds_ok re U A (\<lambda>w. M w + (if w = u then unat lp * (n + unat t) else 0))
      (\<lambda>k v. N k v + (if k = s \<and> v = ord_user_id r then unat t else 0))"
    and inc: "ord_side inc = Side_as Buy" "ord_user_id inc = u" "unat (ord_symbol_id inc) = s" "s < NUM_SYMBOLS"
    and ne: "ord_user_id r \<noteq> u" and lp: "ord_price r \<le> lp" "lp \<noteq> 0" and t: "t \<noteq> 0"
  shows "funds_ok (settle_trade re (mk_trade inc cid r rc ctr t) lp) U A
      (\<lambda>w. M w + (if w = u then unat lp * n else 0)) N"
proof -
  let ?t = "mk_trade inc cid r rc ctr t"
  have t': "tr_buyer_id ?t = u" "tr_seller_id ?t = ord_user_id r" "tr_maker_user_id ?t = ord_user_id r"
    "tr_symbol_id ?t = ord_symbol_id inc" "tr_price ?t = ord_price r" "tr_qty ?t = t"
    using inc(1,2) by (simp_all add: mk_trade_def)
  have m: "unat lp * (n + unat t) = unat lp * n + unat lp * unat t" by (simp add: distrib_left)
  from settle_trade_ok [OF F, of ?t lp] show ?thesis
    unfolding t' inc(3)
    by (rule funds_ok_cong) (use inc(4) ne lp t m in auto)
qed

lemma settle_fills_buy:
  assumes "fills cid ctr inc q i q' ts rm"
    and "funds_ok re U A (\<lambda>w. M w + (if w = u then unat lp * unat (ord_qty inc) else 0))
      (\<lambda>k v. N k v + (if k = s then ask_margin q v else 0))"
    and "ord_side inc = Side_as Buy" "ord_user_id inc = u" "unat (ord_symbol_id inc) = s" "s < NUM_SYMBOLS"
    and "\<forall>t\<in>set ts. tr_price t \<le> lp" "lp \<noteq> 0" "\<forall>x\<in>set q. ord_qty (fst x) \<noteq> 0"
  shows "funds_ok (settle lp ts re) U A (\<lambda>w. M w + (if w = u then unat lp * unat (ord_qty i) else 0))
      (\<lambda>k v. N k v + (if k = s then ask_margin q' v else 0))"
  using assms
proof (induction arbitrary: re rule: fills.induct)
  case (fills_stop ctr inc q)
  then show ?case by simp
next
  case (fills_full inc r ctr q i q' ts rm rc)
  let ?inc = "inc\<lparr>ord_qty := ord_qty inc - ord_qty r\<rparr>" and ?t = "mk_trade inc cid r rc ctr (ord_qty r)"
  have q: "unat (ord_qty inc) = unat (ord_qty ?inc) + unat (ord_qty r)"
    using fills_full.hyps(3) by (simp add: unat_sub word_le_nat_alt)
  have "funds_ok (settle_trade re ?t lp) U A
      (\<lambda>w. M w + (if w = u then unat lp * unat (ord_qty ?inc) else 0))
      (\<lambda>k v. N k v + (if k = s then ask_margin q v else 0))"
    by (rule settle_one_buy, rule funds_ok_cong [OF fills_full.prems(1)])
      (use fills_full q in auto)
  from fills_full.IH [OF this] fills_full.prems show ?case by simp
next
  case (fills_part inc r ctr rc q)
  let ?t = "mk_trade inc cid r rc ctr (ord_qty inc)"
  have q: "unat (ord_qty r) = unat (ord_qty r - ord_qty inc) + unat (ord_qty inc)"
    using fills_part.hyps(3) by (simp add: unat_sub word_le_nat_alt word_less_nat_alt)
  have "funds_ok (settle_trade re ?t lp) U A (\<lambda>w. M w + (if w = u then unat lp * 0 else 0))
      (\<lambda>k v. N k v + (if k = s then ask_margin ((r\<lparr>ord_qty := ord_qty r - ord_qty inc\<rparr>, rc) # q) v else 0))"
    by (rule settle_one_buy, rule funds_ok_cong [OF fills_part.prems(1)])
      (use fills_part q in auto)
  then show ?case by (simp cong: if_cong)
qed

text \<open>A sale: the makers' dollars and the taker's assets.\<close>

lemma settle_one_sell:
  assumes F: "funds_ok re U A (\<lambda>w. M w + (if w = ord_user_id r then unat (ord_price r) * unat t else 0))
      (\<lambda>k v. N k v + (if k = s \<and> v = u then n + unat t else 0))"
    and inc: "ord_side inc \<noteq> Side_as Buy" "ord_user_id inc = u" "unat (ord_symbol_id inc) = s" "s < NUM_SYMBOLS"
    and ne: "ord_user_id r \<noteq> u" and p: "ord_price r \<noteq> 0" and t: "t \<noteq> 0"
  shows "funds_ok (settle_trade re (mk_trade inc cid r rc ctr t) lp) U A M
      (\<lambda>k v. N k v + (if k = s \<and> v = u then n else 0))"
proof -
  let ?t = "mk_trade inc cid r rc ctr t"
  have t': "tr_buyer_id ?t = ord_user_id r" "tr_seller_id ?t = u" "tr_maker_user_id ?t = ord_user_id r"
    "tr_symbol_id ?t = ord_symbol_id inc" "tr_price ?t = ord_price r" "tr_qty ?t = t"
    using inc(1,2) by (simp_all add: mk_trade_def)
  from settle_trade_ok [OF F, of ?t lp] show ?thesis
    unfolding t' inc(3)
    by (rule funds_ok_cong) (use inc(4) ne p t in auto)
qed

lemma settle_fills_sell:
  assumes "fills cid ctr inc q i q' ts rm"
    and "funds_ok re U A (\<lambda>w. M w + bid_margin q w)
      (\<lambda>k v. N k v + (if k = s \<and> v = u then unat (ord_qty inc) else 0))"
    and "ord_side inc \<noteq> Side_as Buy" "ord_user_id inc = u" "unat (ord_symbol_id inc) = s" "s < NUM_SYMBOLS"
    and "\<forall>x\<in>set q. ord_qty (fst x) \<noteq> 0 \<and> ord_price (fst x) \<noteq> 0"
  shows "funds_ok (settle lp ts re) U A (\<lambda>w. M w + bid_margin q' w)
      (\<lambda>k v. N k v + (if k = s \<and> v = u then unat (ord_qty i) else 0))"
  using assms
proof (induction arbitrary: re rule: fills.induct)
  case (fills_stop ctr inc q)
  then show ?case by simp
next
  case (fills_full inc r ctr q i q' ts rm rc)
  let ?inc = "inc\<lparr>ord_qty := ord_qty inc - ord_qty r\<rparr>" and ?t = "mk_trade inc cid r rc ctr (ord_qty r)"
  have q: "unat (ord_qty inc) = unat (ord_qty ?inc) + unat (ord_qty r)"
    using fills_full.hyps(3) by (simp add: unat_sub word_le_nat_alt)
  have "funds_ok (settle_trade re ?t lp) U A (\<lambda>w. M w + bid_margin q w)
      (\<lambda>k v. N k v + (if k = s \<and> v = u then unat (ord_qty ?inc) else 0))"
    by (rule settle_one_sell, rule funds_ok_cong [OF fills_full.prems(1)])
      (use fills_full q in auto)
  from fills_full.IH [OF this] fills_full.prems show ?case by simp
next
  case (fills_part inc r ctr rc q)
  let ?t = "mk_trade inc cid r rc ctr (ord_qty inc)"
  have q: "unat (ord_qty r) = unat (ord_qty r - ord_qty inc) + unat (ord_qty inc)"
    using fills_part.hyps(3) by (simp add: unat_sub word_le_nat_alt word_less_nat_alt)
  have "unat (ord_price r) * unat (ord_qty r) =
      unat (ord_price r) * unat (ord_qty r - ord_qty inc) + unat (ord_price r) * unat (ord_qty inc)"
    unfolding q by (simp add: distrib_left)
  then have "funds_ok (settle_trade re ?t lp) U A
      (\<lambda>w. M w + bid_margin ((r\<lparr>ord_qty := ord_qty r - ord_qty inc\<rparr>, rc) # q) w)
      (\<lambda>k v. N k v + (if k = s \<and> v = u then 0 else 0))"
    by - (rule settle_one_sell, rule funds_ok_cong [OF fills_part.prems(1)],
        use fills_part in auto)
  then show ?case by (simp cong: if_cong)
qed


section \<open>The invariant of the exchange\<close>

text \<open>Resting orders have a valid side, their book's symbol, and a price if they are bids.\<close>

definition resting_wf :: "nat \<Rightarrow> resting \<Rightarrow> bool" where
  "resting_wf s x \<longleftrightarrow> get_side (fst x) \<noteq> None \<and> unat (ord_symbol_id (fst x)) = s \<and>
     (ord_side (fst x) = Side_as Buy \<longrightarrow> ord_price (fst x) \<noteq> 0)"

definition book_wf :: "nat \<Rightarrow> abook \<Rightarrow> bool" where
  "book_wf s B \<longleftrightarrow> (\<forall>x\<in>set (resting_orders B). resting_wf s x)"

definition solvent :: "exchange \<Rightarrow> (nat \<Rightarrow> abook) \<Rightarrow> nat \<Rightarrow> (nat \<Rightarrow> nat) \<Rightarrow> bool" where
  "solvent ex Bs U A \<longleftrightarrow>
     engine_rel True (ex_engine ex) Bs \<and> me_global_order_id_counter (ex_engine ex) \<noteq> 0 \<and>
     (\<forall>s<NUM_SYMBOLS. book_wf s (Bs s)) \<and>
     funds_ok (ex_risk ex) U A (usd_margin Bs) (asset_margin Bs)"

lemma margin_upd:
  assumes "s < NUM_SYMBOLS"
  shows "usd_margin (Bs(s := B')) u + bid_margin (flat (ab_bids (Bs s))) u =
      usd_margin Bs u + bid_margin (flat (ab_bids B')) u"
    "asset_margin (Bs(s := B')) k u = (if k = s then ask_margin (flat (ab_asks B')) u else asset_margin Bs k u)"
proof -
  show "usd_margin (Bs(s := B')) u + bid_margin (flat (ab_bids (Bs s))) u =
      usd_margin Bs u + bid_margin (flat (ab_bids B')) u"
    using assms sum_upd [of "{..<NUM_SYMBOLS}" s "\<lambda>k. bid_margin (flat (ab_bids ((Bs(s := B')) k))) u"
        "\<lambda>k. bid_margin (flat (ab_bids (Bs k))) u"]
    unfolding usd_margin_def by simp
  show "asset_margin (Bs(s := B')) k u = (if k = s then ask_margin (flat (ab_asks B')) u else asset_margin Bs k u)"
    by (simp add: asset_margin_def)
qed

lemma margin_same_bids:
  "s < NUM_SYMBOLS \<Longrightarrow> mset (flat (ab_bids B')) = mset (flat (ab_bids (Bs s))) \<Longrightarrow> usd_margin (Bs(s := B')) u = usd_margin Bs u"
  using margin_upd(1) [of s Bs B' u] margin_mset(1) [of "flat (ab_bids B')" "flat (ab_bids (Bs s))" u] by simp

lemma wf_prices:
  assumes "abook_ok B" "book_wf s B" "x \<in> set (flat (ab_bids B))"
  shows "ord_side (fst x) = Side_as Buy" "ord_price (fst x) \<noteq> 0"
proof -
  have "x \<in> set (resting_orders B)" using assms(3) by (simp add: resting_orders_def)
  then have w: "resting_wf s x" using assms(2) by (simp add: book_wf_def)
  have "ord_side (fst x) \<noteq> Side_as Sell"
    using assms(1,3) by (auto simp: abook_ok_side [of B False] ladder_ok_def level_ok_def set_flat sides)
  with w show "ord_side (fst x) = Side_as Buy"
    by (auto simp: resting_wf_def get_side_def Side_try_from_def split: if_splits)
  with w show "ord_price (fst x) \<noteq> 0" by (simp add: resting_wf_def)
qed

section \<open>The totals of one order's settlement\<close>

lemma settle_all_eq:
  "settle_all re lp ts =
     (settle lp ts re, sum_list (map tr_qty ts), sum_list (map (\<lambda>t. sat_mul (tr_price t) (tr_qty t)) ts))"
proof -
  have "fold (\<lambda>t (re, q, c). (settle_trade re t lp, q + tr_qty t, c + sat_mul (tr_price t) (tr_qty t))) ts (re, q, c) =
      (settle lp ts re, q + sum_list (map tr_qty ts), c + sum_list (map (\<lambda>t. sat_mul (tr_price t) (tr_qty t)) ts))"
    for q c by (induction ts arbitrary: re q c) (simp_all add: add.assoc)
  from this [of 0 0] show ?thesis by (simp add: settle_all_def)
qed

lemma unat_trade_sum:
  "trade_sum ts < 2 ^ 64 \<Longrightarrow> unat (sum_list (map tr_qty ts)) = trade_sum ts"
  by (induction ts) (simp_all add: unat_add_small)

section \<open>Margin after an order\<close>

lemma unlock_margin_side:
  "ord_side o' = Side_as d \<Longrightarrow> unlock_cancelled_order_margin re o' n =
     unlock_order_funds re (ord_user_id o') (ord_symbol_id o') d (ord_price o') n"
  by (simp add: unlock_cancelled_order_margin_def get_side_def)

lemma unlock_nothing [simp]: "unlock_order_funds re u sy d p 0 = re"
  by (simp add: unlock_order_funds_def)

lemma set_account_same: "re_accounts re u = Some a \<Longrightarrow> set_account re u a = re"
  by (simp add: fun_upd_idem)

lemma refund_sell:
  "refund_market_order_remainder re u sy Sell bp q n c = unlock_order_funds re u sy Sell p (sat_sub q n)"
  by (auto simp: refund_market_order_remainder_def unlock_order_funds_def Let_def with_account_def word_gt_0
      set_account_same split: option.splits)

text \<open>
  The risk engine's end of a turn, whatever the result: the trades are settled, and unless the rest of the
  order rests in the book, its margin is released.
\<close>

definition settled :: "RiskEngine \<Rightarrow> Order \<Rightarrow> Trade list \<Rightarrow> RejectReason + ExecutionReport \<Rightarrow> RiskEngine" where
  "settled re order ts r =
     (case r of
        Inl e \<Rightarrow> unlock_cancelled_order_margin re order (ord_qty order)
      | Inr rep \<Rightarrow> (case settle_all re (ord_price order) ts of (re, n, c) \<Rightarrow> release_after re order rep n c))"

lemma settled_eq:
  assumes f: "fills cid ctr order q i q' ts rm" and side: "ord_side order = Side_as d"
    and t: "order_type_of order = Limit \<or> order_type_of order = Market \<and> d = Sell"
    and nl: "isl r \<longrightarrow> ts = []" and rep: "\<And>rep. r = Inr rep \<Longrightarrow> er_remaining_qty rep = ord_qty i"
  shows "settled re order ts r =
    (if rests order r then settle (ord_price order) ts re
     else unlock_order_funds (settle (ord_price order) ts re) (ord_user_id order) (ord_symbol_id order) d
       (ord_price order) (ord_qty i))"
proof (cases r)
  case (Inl e)
  with nl f have "i = order" "ts = []" using fills_no_trades by auto
  with Inl show ?thesis by (simp add: settled_def rests_def unlock_margin_side [OF side])
next
  case (Inr rep')
  have "unat (ord_qty order) = unat (ord_qty i) + trade_sum ts" using fills_taker_qty [OF f] by simp
  then have "unat (sat_sub (ord_qty order) (sum_list (map tr_qty ts))) = unat (ord_qty i)"
    using unat_lt64 [of "ord_qty order"] by (simp add: unat_sat_sub unat_trade_sum)
  then have "sat_sub (ord_qty order) (sum_list (map tr_qty ts)) = ord_qty i" by simp
  moreover have "get_side order = Some d" using side by (simp add: get_side_Some_iff)
  ultimately show ?thesis
    using Inr rep [OF Inr] t
      refund_sell [of _ "ord_user_id order" "ord_symbol_id order" "ord_price order" "ord_qty order" "sum_list (map tr_qty ts)" _ "ord_price order"]
    by (auto simp: settled_def rests_def settle_all_eq release_after_def unlock_margin_side [OF side] word_gt_0
        Let_def)
qed

text \<open>
  A buy: after the settlement the taker has locked what is left of the order, and that either rests,
  or is released, or is nothing.
\<close>

lemma after_buy:
  fixes Bs :: "nat \<Rightarrow> abook" and order :: Order
  defines "s \<equiv> unat (ord_symbol_id order)" and "u \<equiv> ord_user_id order" and "lp \<equiv> ord_price order"
  assumes B: "abook_ok (Bs s)" and s: "s < NUM_SYMBOLS" and oid: "ord_id order \<noteq> 0"
    and t: "order_type_of order = Limit" and side: "ord_side order = Side_as Buy" and p: "lp \<noteq> 0"
    and A: "aprocess (Bs s) order cid = (B', ts, r)" and nl: "isl r \<longrightarrow> ts = []"
    and F: "funds_ok re U A (\<lambda>w. usd_margin Bs w + (if w = u then unat lp * unat (ord_qty order) else 0)) (asset_margin Bs)"
  shows "funds_ok (settled re order ts r) U A (usd_margin (Bs(s := B'))) (asset_margin (Bs(s := B')))"
proof -
  have nc: "order_type_of order \<noteq> Cancel" and ns: "(ord_side order = Side_as Sell) = False"
    using t side by simp_all
  have st: "stamped (Bs s) order = order" using oid by (simp add: stamped_def)
  obtain i rm where f: "fills cid (ab_trade_ctr (Bs s)) order (flat (ab_asks (Bs s))) i (flat (ab_asks B')) ts rm"
    and lim: "\<And>t. t \<in> set ts \<Longrightarrow> \<not> beyond_limit False Limit order (tr_price t)"
    and own: "mset (flat (ab_bids B')) = mset (flat (ab_bids (Bs s))) + (if rests order r then {#(i, cid)#} else {#})"
    and rep: "\<And>rep. r = Inr rep \<Longrightarrow> er_executed_qty rep = ord_qty order - ord_qty i \<and> er_remaining_qty rep = ord_qty i"
    using aprocess_exec [OF B nc A] unfolding ns st t not_False_eq_True sides [symmetric] by metis
  obtain z where "i = order\<lparr>ord_qty := z\<rparr>" using fills_incoming [OF f] by blast
  then have i: "ord_user_id i = u" "ord_price i = lp" by (simp_all add: u_def lp_def)
  let ?UM = "\<lambda>w. usd_margin Bs w + (if w = u then unat lp * unat (ord_qty i) else 0)"
  have settled: "funds_ok (settle lp ts re) U A ?UM (asset_margin (Bs(s := B')))"
  proof (rule funds_ok_cong [OF settle_fills_buy [OF f, of re U A "usd_margin Bs" u lp
          "\<lambda>k v. if k = s then 0 else asset_margin Bs k v" s]])
    show "funds_ok re U A (\<lambda>w. usd_margin Bs w + (if w = u then unat lp * unat (ord_qty order) else 0))
        (\<lambda>k v. (if k = s then 0 else asset_margin Bs k v) + (if k = s then ask_margin (flat (ab_asks (Bs s))) v else 0))"
      by (rule funds_ok_cong [OF F]) (simp_all add: asset_margin_def)
    show "\<forall>t\<in>set ts. tr_price t \<le> lp" using lim by (auto simp: beyond_limit_def lp_def not_less)
    show "\<forall>x\<in>set (flat (ab_asks (Bs s))). ord_qty (fst x) \<noteq> 0"
      using opposite_positive [OF B] by (metis sides(2))
  qed (use s p side in \<open>simp_all add: u_def s_def margin_upd(2)\<close>)
  have eq: "settled re order ts r = (if rests order r then settle lp ts re
      else unlock_order_funds (settle lp ts re) u (ord_symbol_id order) Buy lp (ord_qty i))"
    unfolding u_def lp_def using rep by (intro settled_eq [OF f side disjI1 [OF t] nl]) simp
  show ?thesis
  proof (cases "rests order r")
    case True
    then have "usd_margin (Bs(s := B')) w = ?UM w" for w
      using margin_upd(1) [OF s, of Bs B' w] own i margin_mset(1) [of "flat (ab_bids B')" "(i, cid) # flat (ab_bids (Bs s))" w]
      by simp
    with True show ?thesis unfolding eq by (simp add: funds_ok_cong [OF settled])
  next
    case False
    with own have "usd_margin (Bs(s := B')) w = usd_margin Bs w" for w
      using margin_same_bids [OF s, of B' Bs w] by simp
    moreover have "funds_ok (settled re order ts r) U A
        (?UM(u := ?UM u - unat lp * unat (ord_qty i))) (asset_margin (Bs(s := B')))"
      unfolding eq if_not_P [OF False] by (rule unlock_buy_ok) (use settled s in \<open>simp_all add: s_def\<close>)
    ultimately show ?thesis by (elim funds_ok_cong) simp_all
  qed
qed

text \<open>A sale, limit or market: the same for the taker's assets.\<close>

lemma after_sell:
  fixes Bs :: "nat \<Rightarrow> abook" and order :: Order
  defines "s \<equiv> unat (ord_symbol_id order)" and "u \<equiv> ord_user_id order" and "lp \<equiv> ord_price order"
  assumes B: "abook_ok (Bs s)" "book_wf s (Bs s)" and s: "s < NUM_SYMBOLS" and oid: "ord_id order \<noteq> 0"
    and t: "order_type_of order = Limit \<or> order_type_of order = Market" and side: "ord_side order = Side_as Sell"
    and A: "aprocess (Bs s) order cid = (B', ts, r)" and nl: "isl r \<longrightarrow> ts = []"
    and F: "funds_ok re U A (usd_margin Bs) (\<lambda>k v. asset_margin Bs k v + (if k = s \<and> v = u then unat (ord_qty order) else 0))"
  shows "funds_ok (settled re order ts r) U A (usd_margin (Bs(s := B'))) (asset_margin (Bs(s := B')))"
proof -
  have nc: "order_type_of order \<noteq> Cancel" and ns: "(ord_side order = Side_as Sell) = True"
    using t side by auto
  have st: "stamped (Bs s) order = order" using oid by (simp add: stamped_def)
  obtain i rm where f: "fills cid (ab_trade_ctr (Bs s)) order (flat (ab_bids (Bs s))) i (flat (ab_bids B')) ts rm"
    and own: "mset (flat (ab_asks B')) = mset (flat (ab_asks (Bs s))) + (if rests order r then {#(i, cid)#} else {#})"
    and rep: "\<And>rep. r = Inr rep \<Longrightarrow> er_executed_qty rep = ord_qty order - ord_qty i \<and> er_remaining_qty rep = ord_qty i"
    using aprocess_exec [OF B(1) nc A] unfolding ns st not_True_eq_False sides [symmetric] by metis
  obtain z where "i = order\<lparr>ord_qty := z\<rparr>" using fills_incoming [OF f] by blast
  then have i: "ord_user_id i = u" by (simp add: u_def)
  let ?AM = "\<lambda>k v. asset_margin Bs k v + (if k = s \<and> v = u then unat (ord_qty i) else 0)"
  have M: "usd_margin Bs w + bid_margin (flat (ab_bids B')) w =
      usd_margin (Bs(s := B')) w + bid_margin (flat (ab_bids (Bs s))) w" for w
    using margin_upd(1) [OF s, of Bs B' w] by simp
  have le: "bid_margin (flat (ab_bids (Bs s))) w \<le> usd_margin Bs w" for w
    unfolding usd_margin_def using s
    by (intro member_le_sum [of s "{..<NUM_SYMBOLS}" "\<lambda>k. bid_margin (flat (ab_bids (Bs k))) w"]) simp_all
  have settled: "funds_ok (settle lp ts re) U A (usd_margin (Bs(s := B'))) ?AM"
  proof (rule funds_ok_cong [OF settle_fills_sell [OF f, of re U A
          "\<lambda>w. usd_margin Bs w - bid_margin (flat (ab_bids (Bs s))) w" "asset_margin Bs" s u lp]])
    show "funds_ok re U A (\<lambda>w. usd_margin Bs w - bid_margin (flat (ab_bids (Bs s))) w + bid_margin (flat (ab_bids (Bs s))) w)
        (\<lambda>k v. asset_margin Bs k v + (if k = s \<and> v = u then unat (ord_qty order) else 0))"
      by (rule funds_ok_cong [OF F]) (use le in simp_all)
    show "\<forall>x\<in>set (flat (ab_bids (Bs s))). ord_qty (fst x) \<noteq> 0 \<and> ord_price (fst x) \<noteq> 0"
      using opposite_positive [OF B(1)] wf_prices(2) [OF B] by (metis sides(1))
    show "usd_margin (Bs(s := B')) w =
        usd_margin Bs w - bid_margin (flat (ab_bids (Bs s))) w + bid_margin (flat (ab_bids B')) w" for w
      using M [of w] le [of w] by simp
  qed (use s side in \<open>simp_all add: u_def s_def\<close>)
  have eq: "settled re order ts r = (if rests order r then settle lp ts re
      else unlock_order_funds (settle lp ts re) u (ord_symbol_id order) Sell lp (ord_qty i))"
    unfolding u_def lp_def using rep t by (intro settled_eq [OF f side _ nl]) auto
  show ?thesis
  proof (cases "rests order r")
    case True
    then have "asset_margin (Bs(s := B')) k v = ?AM k v" for k v
      using own i margin_mset(2) [of "flat (ab_asks B')" "(i, cid) # flat (ab_asks (Bs s))" v]
      by (auto simp: asset_margin_def)
    with True show ?thesis unfolding eq by (simp add: funds_ok_cong [OF settled])
  next
    case False
    then have "asset_margin (Bs(s := B')) k v = asset_margin Bs k v" for k v
      using own margin_mset(2) [of "flat (ab_asks B')" "flat (ab_asks (Bs s))" v] by (auto simp: asset_margin_def)
    moreover have "funds_ok (settled re order ts r) U A (usd_margin (Bs(s := B')))
        (?AM(s := (?AM s)(u := ?AM s u - unat (ord_qty i))))"
      using unlock_sell_ok [OF settled, of "ord_symbol_id order" "ord_qty i" u lp] s
      unfolding eq if_not_P [OF False] by (simp add: s_def)
    ultimately show ?thesis by (elim funds_ok_cong) simp_all
  qed
qed

section \<open>Level totals cannot overflow\<close>

text \<open>What rests is locked, what is locked is part of the supply, and the supply is below \<open>2^64\<close>.\<close>

lemma sum_by_user:
  fixes f :: "resting \<Rightarrow> nat"
  assumes "finite D" "\<forall>x\<in>set q. ord_user_id (fst x) \<in> D"
  shows "(\<Sum>u\<in>D. sum_list (map (\<lambda>x. if ord_user_id (fst x) = u then f x else 0) q)) = sum_list (map f q)"
  using assms(2) by (induction q) (simp_all add: sum.distrib sum.delta' assms(1))

lemma margin_user:
  "x \<in> set q \<Longrightarrow> unat (ord_price (fst x)) * unat (ord_qty (fst x)) \<le> bid_margin q (ord_user_id (fst x))"
  "x \<in> set q \<Longrightarrow> unat (ord_qty (fst x)) \<le> ask_margin q (ord_user_id (fst x))"
  by (induction q) auto

lemma bids_total:
  assumes F: "funds_ok re U A UM AM" and m: "\<And>v. bid_margin q v + (if v = u then n else 0) \<le> UM v"
    and q: "\<forall>x\<in>set q. ord_qty (fst x) \<noteq> 0 \<and> ord_price (fst x) \<noteq> 0"
  shows "qty_sum (map fst q) + n \<le> U"
proof -
  let ?D = "dom (re_accounts re)" and ?f = "\<lambda>x::resting. unat (ord_price (fst x)) * unat (ord_qty (fst x))"
  note D = funds_okD [OF F]
  have out: "UM v = 0" if "v \<notin> ?D" for v
    using D(6) [of v] that by (auto simp: usd_held_def split: option.splits)
  have users: "ord_user_id (fst x) \<in> ?D" if "x \<in> set q" for x
  proof (rule ccontr)
    assume "\<not> ?thesis"
    with out m [of "ord_user_id (fst x)"] have "bid_margin q (ord_user_id (fst x)) = 0" by simp
    with margin_user(1) [OF that] q that show False by (simp add: unat_eq_zero)
  qed
  have "qty_sum (map fst q) = sum_list (map (\<lambda>x. unat (ord_qty (fst x))) q)" by (simp add: comp_def)
  also have "\<dots> \<le> sum_list (map ?f q)"
    by (rule sum_list_mono) (use q in \<open>simp add: unat_gt_0 Suc_le_eq\<close>)
  also have "\<dots> = (\<Sum>v\<in>?D. bid_margin q v)"
    unfolding bid_margin_def using D(1) users by (simp add: sum_by_user)
  finally have "qty_sum (map fst q) + n \<le> (\<Sum>v\<in>?D. bid_margin q v) + n" by simp
  also have "\<dots> \<le> (\<Sum>v\<in>?D. bid_margin q v) + (\<Sum>v\<in>?D. if v = u then n else 0)"
    using out [of u] m [of u] D(1) by (cases "u \<in> ?D") simp_all
  also have "\<dots> = (\<Sum>v\<in>?D. bid_margin q v + (if v = u then n else 0))" by (simp add: sum.distrib)
  also have "\<dots> \<le> (\<Sum>v\<in>?D. usd_free re v + usd_held re v)"
    by (rule sum_mono) (metis D(6) m trans_le_add2)
  also have "\<dots> = U" using D(2) by (simp add: usd_supply_def)
  finally show ?thesis .
qed

lemma asks_total:
  assumes F: "funds_ok re U A UM AM" and s: "s < NUM_SYMBOLS"
    and m: "\<And>v. ask_margin q v + (if v = u then n else 0) \<le> AM s v"
    and q: "\<forall>x\<in>set q. ord_qty (fst x) \<noteq> 0"
  shows "qty_sum (map fst q) + n \<le> A s"
proof -
  let ?D = "dom (re_accounts re)"
  note D = funds_okD [OF F]
  have out: "AM s v = 0" if "v \<notin> ?D" for v
    using D(7) [OF s, of v] that by (auto simp: asset_held_def split: option.splits)
  have users: "ord_user_id (fst x) \<in> ?D" if "x \<in> set q" for x
  proof (rule ccontr)
    assume "\<not> ?thesis"
    with out m [of "ord_user_id (fst x)"] have "ask_margin q (ord_user_id (fst x)) = 0" by simp
    with margin_user(2) [OF that] q that show False by (simp add: unat_eq_zero)
  qed
  have "qty_sum (map fst q) = (\<Sum>v\<in>?D. ask_margin q v)"
    unfolding ask_margin_def using D(1) users by (simp add: sum_by_user comp_def)
  then have "qty_sum (map fst q) + n = (\<Sum>v\<in>?D. ask_margin q v) + n" by simp
  also have "\<dots> \<le> (\<Sum>v\<in>?D. ask_margin q v) + (\<Sum>v\<in>?D. if v = u then n else 0)"
    using out [of u] m [of u] D(1) by (cases "u \<in> ?D") simp_all
  also have "\<dots> = (\<Sum>v\<in>?D. ask_margin q v + (if v = u then n else 0))" by (simp add: sum.distrib)
  also have "\<dots> \<le> (\<Sum>v\<in>?D. asset_free re s v + asset_held re s v)"
    by (rule sum_mono) (metis D(7) [OF s] m trans_le_add2)
  also have "\<dots> = A s" using D(4) [OF s] by (simp add: asset_supply_def)
  finally show ?thesis .
qed

lemma level_qty_le: "level_qty ls p \<le> qty_sum (map fst (flat ls))"
  by (induction ls) (auto simp: level_qty_def)

lemma bid_margin_le: "s < NUM_SYMBOLS \<Longrightarrow> bid_margin (flat (ab_bids (Bs s))) v \<le> usd_margin Bs v"
  unfolding usd_margin_def by (rule member_le_sum [of s "{..<NUM_SYMBOLS}"]) simp_all

lemma locked_room:
  assumes F: "funds_ok re U A (\<lambda>w. usd_margin Bs w + (if w = ord_user_id order then usd_need order else 0))
      (\<lambda>k v. asset_margin Bs k v + (if k = s \<and> v = ord_user_id order then asset_need order else 0))"
    and s: "s < NUM_SYMBOLS" and B: "abook_ok (Bs s)" "book_wf s (Bs s)" and side: "get_side order \<noteq> None"
    and p: "ord_side order = Side_as Buy \<Longrightarrow> ord_price order \<noteq> 0"
  shows "level_room (Bs s) order"
proof (cases "ord_side order = Side_as Sell")
  case True
  have "qty_sum (map fst (flat (ab_asks (Bs s)))) + unat (ord_qty order) \<le> A s"
    by (rule asks_total [OF F s, where u = "ord_user_id order"])
      (use True opposite_positive [OF B(1), of _ True] in \<open>simp_all add: asset_need_def asset_margin_def sides\<close>)
  with level_qty_le [of "ab_asks (Bs s)" "ord_price order"] funds_okD(5) [OF F s] True show ?thesis
    by (simp add: level_room_def aside_def)
next
  case False
  then have b: "ord_side order = Side_as Buy"
    using side by (auto simp: get_side_def Side_try_from_def split: if_splits)
  have "qty_sum (map fst (flat (ab_bids (Bs s)))) + unat (ord_price order) * unat (ord_qty order) \<le> U"
    by (rule bids_total [OF F, where u = "ord_user_id order"])
      (use b s bid_margin_le wf_prices(2) [OF B] opposite_positive [OF B(1), of _ False]
        in \<open>auto simp: usd_need_def sides\<close>)
  moreover have "unat (ord_qty order) \<le> unat (ord_price order) * unat (ord_qty order)"
    using p [OF b] by (simp add: unat_gt_0 Suc_le_eq)
  ultimately have "level_qty (ab_bids (Bs s)) (ord_price order) + unat (ord_qty order) < 2 ^ 64"
    using level_qty_le [of "ab_bids (Bs s)" "ord_price order"] funds_okD(3) [OF F] by linarith
  with False show ?thesis by (simp add: level_room_def aside_def)
qed

section \<open>One turn keeps the exchange solvent\<close>

lemma aprocess_wf:
  assumes B: "abook_ok B" "book_wf s B" and nc: "order_type_of order \<noteq> Cancel"
    and A: "aprocess B order cid = (B', ts, r)"
    and o': "get_side order \<noteq> None" "unat (ord_symbol_id order) = s" "ord_side order = Side_as Buy \<Longrightarrow> ord_price order \<noteq> 0"
  shows "book_wf s B'"
proof (rule aprocess_exec [OF B(1) nc A])
  fix i rm
  let ?s = "ord_side order = Side_as Sell"
  assume f: "fills cid (ab_trade_ctr B) (stamped B order) (flat (aside (\<not> ?s) B)) i (flat (aside (\<not> ?s) B')) ts rm"
    and own: "mset (flat (aside ?s B')) = mset (flat (aside ?s B)) + (if rests order r then {#(i, cid)#} else {#})"
  obtain z where "i = (stamped B order)\<lparr>ord_qty := z\<rparr>" using fills_incoming [OF f] by blast
  then have i: "resting_wf s (i, cid)" using o' by (simp add: resting_wf_def get_side_def)
  have old: "resting_wf s x" if "x \<in> set (flat (aside s' B))" for x s'
    using that B(2) by (auto simp: book_wf_def set_resting [of B s'])
  have "set_mset (mset (flat (aside ?s B'))) \<subseteq> insert (i, cid) (set (flat (aside ?s B)))"
    unfolding own by (cases "rests order r") auto
  then have "resting_wf s x" if "x \<in> set (flat (aside ?s B'))" for x
    using that i old [of x ?s] by auto
  moreover have "resting_wf s y" if "y \<in> set (flat (aside (\<not> ?s) B'))" for y
    using fills_rest [OF f that] old [of _ "\<not> ?s"] by (auto simp: same_but_qty_def resting_wf_def get_side_def)
  ultimately show ?thesis by (auto simp: book_wf_def set_resting [of B' ?s])
qed

lemma lock_error: "lock_order_funds re order = (re', Inl e) \<Longrightarrow> re' = re"
  by (auto simp: lock_order_funds_def Let_def split: if_splits option.splits)

lemma settle_and_report_eq:
  "settle_and_report ex order ts =
     (case settle_all (ex_risk ex) (ord_price order) ts of (re, n, c) \<Rightarrow>
        (ex\<lparr>ex_risk := re, ex_out := ex_out ex @ map fill_event ts\<rparr>, n, c))"
proof -
  have "fold (\<lambda>t (ex, q, c). (out_send (ex\<lparr>ex_risk := settle_trade (ex_risk ex) t lp\<rparr>) (fill_event t),
          q + tr_qty t, c + sat_mul (tr_price t) (tr_qty t))) ts (ex, q, c) =
      (ex\<lparr>ex_risk := settle lp ts (ex_risk ex), ex_out := ex_out ex @ map fill_event ts\<rparr>,
       q + sum_list (map tr_qty ts), c + sum_list (map (\<lambda>t. sat_mul (tr_price t) (tr_qty t)) ts))" for q c lp
    by (induction ts arbitrary: ex q c) (simp_all add: add.assoc out_send_def)
  from this [of "ord_price order" 0 0] show ?thesis by (simp add: settle_and_report_def settle_all_eq)
qed

text \<open>
  The events of an accepted order: the acknowledgement, two execution reports per trade, the rejection of
  what self-trade prevention cancelled, and the new quotes; or the rejection by a full book.
\<close>

definition order_events ::
  "u64 \<Rightarrow> Order \<Rightarrow> abook \<Rightarrow> Trade list \<Rightarrow> RejectReason + ExecutionReport \<Rightarrow> OutboundEvent list" where
  "order_events cid order B ts r =
     ack_event cid order #
       (case r of
          Inl e \<Rightarrow> [reject_event cid order e]
        | Inr rep \<Rightarrow> map fill_event ts @
            (if er_stp_triggered rep \<and> er_remaining_qty rep > 0 then [reject_event cid order SelfTradePrevented] else []) @
            [bbo_event order (aquote (ab_bids B), aquote (ab_asks B))])"

lemma handle_report_ok:
  assumes E: "engine_rel True (ex_engine ex) Bs" and s: "unat (ord_symbol_id order) < NUM_SYMBOLS"
  shows "handle_report ex order cid rep ts =
    Some (ex\<lparr>ex_risk := (case settle_all (ex_risk ex) (ord_price order) ts of (re, n, c) \<Rightarrow> release_after re order rep n c),
             ex_out := ex_out ex @ tl (order_events cid order (Bs (unat (ord_symbol_id order))) ts (Inr rep))\<rparr>)"
proof -
  let ?s = "unat (ord_symbol_id order)"
  have "get_bbo (vfun (me_books (ex_engine ex)) ?s) = Some (aquote (ab_bids (Bs ?s)), aquote (ab_asks (Bs ?s)))"
    by (rule get_bbo_sim [OF engine_relD(1) [OF E s]])
  then show ?thesis
    using s engine_relD(4) [OF E s]
    by (auto simp: handle_report_def settle_and_report_eq me_get_book_def release_after_def out_send_def Let_def
        order_events_def split: prod.splits)
qed

text \<open>
  The messages the theorem is about: an order with a valid side that is a limit order or a market
  sale, without an exchange id (the gateway's quarantine sees to that), or any cancel; and the ids do
  not run out. Market buys, orders of type \<open>Deposit\<close> and invalid sides are left out: they break the invariant.
\<close>

definition well_formed :: "Order \<Rightarrow> bool" where
  "well_formed order \<longleftrightarrow>
     order_type_of order = Cancel \<or>
     get_side order \<noteq> None \<and> ord_id order = 0 \<and>
       (order_type_of order = Limit \<or> order_type_of order = Market \<and> ord_side order = Side_as Sell)"

definition refused :: "exchange \<Rightarrow> Order \<Rightarrow> u64 \<Rightarrow> bool" where
  "refused ex order cid \<longleftrightarrow>
     (case me_process (ex_engine (fst (assign_id ex order))) (snd (assign_id ex order)) cid [] of
        Some (_, _, Inl _) \<Rightarrow> True
      | _ \<Rightarrow> False)"

definition admitted :: "exchange \<Rightarrow> InboundMessage \<Rightarrow> bool" where
  "admitted ex m \<longleftrightarrow>
     well_formed (im_order m) \<and> me_global_order_id_counter (ex_engine ex) \<noteq> - 1"

text \<open>The abstract books after a cancel.\<close>

definition cancel_books :: "(nat \<Rightarrow> abook) \<Rightarrow> Order \<Rightarrow> nat \<Rightarrow> abook" where
  "cancel_books Bs order =
     (let s = unat (ord_symbol_id order) in
      if s < NUM_SYMBOLS then Bs(s := fst (acancel (Bs s) (ord_user_id order) (ord_id order))) else Bs)"

text \<open>Releasing a cancelled order's margin leaves locked what the other orders need.\<close>

lemma cancel_margin:
  fixes x :: resting
  defines "s \<equiv> unat (ord_symbol_id (fst x))" and "u \<equiv> ord_user_id (fst x)"
    and "p \<equiv> ord_price (fst x)" and "q \<equiv> ord_qty (fst x)"
  assumes B: "abook_ok (Bs s)" "book_wf s (Bs s)" and s: "s < NUM_SYMBOLS" and x: "x \<in> set (resting_orders (Bs s))"
    and F: "funds_ok re U A (usd_margin Bs) (asset_margin Bs)"
  shows "funds_ok (unlock_cancelled_order_margin re (fst x) q) U A
    (usd_margin (Bs(s := aremove (Bs s) x))) (asset_margin (Bs(s := aremove (Bs s) x)))"
proof -
  let ?B = "aremove (Bs s) x"
  have w: "resting_wf s x" using B(2) x by (simp add: book_wf_def)
  note rm = aremove_side_mset [OF B(1) x]
  show ?thesis
  proof (cases "ord_side (fst x) = Side_as Sell")
    case True
    then have m: "ask_margin (flat (ab_asks (Bs s))) v = (if u = v then unat q else 0) + ask_margin (flat (ab_asks ?B)) v"
      and b: "flat (ab_bids ?B) = flat (ab_bids (Bs s))" for v
      using rm margin_mset(2) [of "flat (ab_asks (Bs s))" "x # flat (ab_asks ?B)" v] by (simp_all add: sides u_def q_def)
    have "funds_ok (unlock_order_funds re u (ord_symbol_id (fst x)) Sell p q) U A (usd_margin Bs)
        ((asset_margin Bs)(s := (asset_margin Bs s)(u := asset_margin Bs s u - unat q)))"
      using unlock_sell_ok [OF F, of "ord_symbol_id (fst x)" q u p] s m [of u] by (simp add: asset_margin_def s_def)
    then show ?thesis
      unfolding unlock_margin_side [OF True] u_def [symmetric] p_def [symmetric]
      by (rule funds_ok_cong) (use margin_same_bids [OF s, of ?B Bs] b m in \<open>auto simp: asset_margin_def\<close>)
  next
    case False
    then have side: "ord_side (fst x) = Side_as Buy"
      using w by (auto simp: resting_wf_def get_side_def Side_try_from_def split: if_splits)
    from False have "bid_margin (flat (ab_bids (Bs s))) v = (if u = v then unat p * unat q else 0) + bid_margin (flat (ab_bids ?B)) v"
      and b: "flat (ab_asks ?B) = flat (ab_asks (Bs s))" for v
      using rm margin_mset(1) [of "flat (ab_bids (Bs s))" "x # flat (ab_bids ?B)" v] by (simp_all add: sides u_def p_def q_def)
    then have M: "usd_margin Bs v = usd_margin (Bs(s := ?B)) v + (if u = v then unat p * unat q else 0)" for v
      using margin_upd(1) [OF s, of Bs ?B v] by simp
    have "funds_ok (unlock_order_funds re u (ord_symbol_id (fst x)) Buy p q) U A
        ((usd_margin Bs)(u := usd_margin Bs u - unat p * unat q)) (asset_margin Bs)"
      using unlock_buy_ok [OF F, of "ord_symbol_id (fst x)" p q u] s M [of u] by (simp add: s_def)
    then show ?thesis
      unfolding unlock_margin_side [OF side] u_def [symmetric] p_def [symmetric]
      by (rule funds_ok_cong) (use M b in \<open>auto simp: asset_margin_def\<close>)
  qed
qed

lemma handle_cancel_ok:
  assumes S: "solvent ex Bs U A"
  shows "\<exists>ex'. handle_cancel ex order cid now = Some ex' \<and> solvent ex' (cancel_books Bs order) U A"
proof (cases "unat (ord_symbol_id order) < NUM_SYMBOLS")
  case False
  with S show ?thesis
    by (auto simp: handle_cancel_def me_cancel_order_def out_send_def solvent_def cancel_books_def)
next
  case s: True
  let ?s = "unat (ord_symbol_id order)"
  have E: "engine_rel True (ex_engine ex) Bs" and wf: "book_wf ?s (Bs ?s)"
    and F: "funds_ok (ex_risk ex) U A (usd_margin Bs) (asset_margin Bs)"
    using S s by (simp_all add: solvent_def)
  note B = engine_relD(3) [OF E s]
  obtain B' c where A': "acancel (Bs ?s) (ord_user_id order) (ord_id order) = (B', c)" by (rule prod.exhaust)
  obtain e' where e': "me_cancel_order (ex_engine ex) (ord_symbol_id order) (ord_user_id order) (ord_id order) = Some (e', c)"
    "engine_rel True e' (Bs(?s := B'))" "me_global_order_id_counter e' = me_global_order_id_counter (ex_engine ex)"
    using me_cancel_rel [OF E s refl A'] by blast
  show ?thesis
  proof (cases c)
    case (Inl reason)
    with A' have "B' = Bs ?s" by (auto simp: acancel_def split: option.splits if_splits)
    with e' Inl S A' s show ?thesis
      by (intro exI [of _ "out_send (ex\<lparr>ex_engine := e'\<rparr>) (reject_event cid order reason)"])
        (simp add: handle_cancel_def solvent_def out_send_def cancel_books_def)
  next
    case (Inr cancelled)
    with A' obtain x where x: "cancel_target (Bs ?s) (ord_user_id order) (ord_id order) = Some x" "cancelled = fst x"
      "B' = aremove (Bs ?s) x"
      by (auto simp: acancel_def split: option.splits if_splits)
    have xr: "x \<in> set (resting_orders (Bs ?s))" by (rule cancel_target_Some [OF x(1)])
    then have w: "resting_wf ?s x" using wf by (simp add: book_wf_def)
    have wf': "book_wf ?s B'"
      using wf unfolding book_wf_def x(3) by (auto simp: set_resting [of _ True] aremove_flat [OF B xr])
    have "funds_ok (unlock_cancelled_order_margin (ex_risk ex) (fst x) (ord_qty (fst x))) U A
        (usd_margin (Bs(?s := B'))) (asset_margin (Bs(?s := B')))"
      using cancel_margin [of Bs x "ex_risk ex" U A] B wf s xr F w by (simp add: x(3) resting_wf_def)
    moreover have "cancel_books Bs order = Bs(?s := B')" using s A' by (simp add: cancel_books_def)
    ultimately show ?thesis
      using e' wf' S Inr x(2) by (auto simp: handle_cancel_def solvent_def out_send_def wal_send_def Let_def)
  qed
qed

lemma counter_upd: "engine_rel tq e Bs \<Longrightarrow> me_global_order_id_counter e \<le> n \<Longrightarrow>
    engine_rel tq (e\<lparr>me_global_order_id_counter := n\<rparr>) Bs"
  by (auto simp: engine_rel_def intro: ids_below_mono)

text \<open>
  One order whose funds could be locked: the book its symbol names takes one step of the specification
  under the next exchange id, the order is logged, acknowledged first, and the locks are settled.
\<close>

definition with_next_id :: "exchange \<Rightarrow> Order \<Rightarrow> Order" where
  "with_next_id ex order = order\<lparr>ord_id := me_global_order_id_counter (ex_engine ex)\<rparr>"

lemma with_next_id_sel [simp]:
  "ord_side (with_next_id ex order) = ord_side order" "ord_symbol_id (with_next_id ex order) = ord_symbol_id order"
  "ord_user_id (with_next_id ex order) = ord_user_id order" "ord_qty (with_next_id ex order) = ord_qty order"
  "ord_price (with_next_id ex order) = ord_price order" "order_type_of (with_next_id ex order) = order_type_of order"
  "get_side (with_next_id ex order) = get_side order" "get_order_type (with_next_id ex order) = get_order_type order"
  "ord_id (with_next_id ex order) = me_global_order_id_counter (ex_engine ex)"
  "level_room B (with_next_id ex order) = level_room B order"
  by (simp_all add: with_next_id_def order_type_of_def get_order_type_def get_side_def level_room_def)

lemma locked_funds:
  assumes S: "solvent ex Bs U A" and nc: "order_type_of order \<noteq> Cancel"
    and L: "lock_order_funds (ex_risk ex) order = (re, Inr ())"
  shows "unat (ord_symbol_id order) < NUM_SYMBOLS" and "ord_side order = Side_as Buy \<Longrightarrow> ord_price order \<noteq> 0"
    and "funds_ok re U A (\<lambda>w. usd_margin Bs w + (if w = ord_user_id order then usd_need order else 0))
        (\<lambda>k v. asset_margin Bs k v + (if k = unat (ord_symbol_id order) \<and> v = ord_user_id order then asset_need order else 0))"
proof -
  have F: "funds_ok (ex_risk ex) U A (usd_margin Bs) (asset_margin Bs)" using S by (simp add: solvent_def)
  have "get_order_type order \<noteq> Some Cancel" using nc by (auto simp: order_type_of_def)
  note lk = lock_funds_ok [OF F L this]
  show "unat (ord_symbol_id order) < NUM_SYMBOLS" by (rule lk(2))
  show "ord_side order = Side_as Buy \<Longrightarrow> ord_price order \<noteq> 0" by (rule lk(5))
  show "funds_ok re U A (\<lambda>w. usd_margin Bs w + (if w = ord_user_id order then usd_need order else 0))
        (\<lambda>k v. asset_margin Bs k v + (if k = unat (ord_symbol_id order) \<and> v = ord_user_id order then asset_need order else 0))"
    by (rule funds_ok_cong [OF lk(1)]) auto
qed

lemma accepted_run:
  assumes E: "engine_rel True (ex_engine ex) Bs"
    and c0: "me_global_order_id_counter (ex_engine ex) \<noteq> 0"
    and ctr: "me_global_order_id_counter (ex_engine ex) \<noteq> - 1"
    and id0: "ord_id order = 0" and nc: "order_type_of order \<noteq> Cancel"
    and L: "lock_order_funds (ex_risk ex) order = (re, Inr ())"
  defines "s \<equiv> unat (ord_symbol_id order)" and "o1 \<equiv> with_next_id ex order"
  assumes s: "s < NUM_SYMBOLS" and room: "level_room (Bs s) order"
    and A': "aprocess (Bs s) o1 cid = (B', ts, r)"
  shows "\<exists>e'. handle_order ex order cid now =
        Some (ex\<lparr>ex_risk := settled re o1 ts r, ex_wal := ex_wal ex @ [(o1, now)],
                ex_out := ex_out ex @ order_events cid o1 B' ts r, ex_engine := e'\<rparr>) \<and>
      engine_rel True e' (Bs(s := B')) \<and>
      me_global_order_id_counter e' = me_global_order_id_counter (ex_engine ex) + 1"
    and "refused (ex\<lparr>ex_risk := re\<rparr>) order cid \<longleftrightarrow> isl r"
proof -
  let ?c = "me_global_order_id_counter (ex_engine ex)"
  define e1 where "e1 = (ex_engine ex)\<lparr>me_global_order_id_counter := ?c + 1\<rparr>"
  have lt: "?c < ?c + 1" using ctr by (rule word_less_add_one)
  have E1: "engine_rel True e1 Bs" unfolding e1_def by (rule counter_upd [OF E]) (use lt in simp)
  have ad: "admissible (Bs s) o1"
    by (rule ids_below_fresh [OF engine_relD(2) [OF E s]]) (simp_all add: o1_def c0)
  obtain e' where P: "me_process e1 o1 cid [] = Some (e', [] @ ts, r)" and E': "engine_rel True e' (Bs(s := B'))"
    and c': "me_global_order_id_counter e' = max (?c + 1) (?c + 1)"
    using me_process_rel [OF E1 s _ _ _ ad _ _ A', of "[]"] ctr c0 room nc by (auto simp: e1_def o1_def s_def)
  have asg: "assign_id (ex\<lparr>ex_risk := re\<rparr>) order = (ex\<lparr>ex_risk := re, ex_engine := e1\<rparr>, o1)"
    using id0 by (simp add: assign_id_def me_next_order_id_def e1_def o1_def with_next_id_def)
  show "refused (ex\<lparr>ex_risk := re\<rparr>) order cid \<longleftrightarrow> isl r"
    using P by (cases r) (simp_all add: refused_def asg)
  have run: "handle_order ex order cid now =
      (case r of
         Inr rep \<Rightarrow> handle_report (ex\<lparr>ex_risk := re, ex_wal := ex_wal ex @ [(o1, now)],
           ex_out := ex_out ex @ [ack_event cid o1], ex_engine := e'\<rparr>) o1 cid rep ts
       | Inl e \<Rightarrow> Some (ex\<lparr>ex_risk := unlock_cancelled_order_margin re o1 (ord_qty o1),
           ex_wal := ex_wal ex @ [(o1, now)], ex_out := ex_out ex @ [ack_event cid o1, reject_event cid o1 e],
           ex_engine := e'\<rparr>))"
    using P by (simp add: handle_order_def L asg wal_send_def out_send_def split: sum.split)
  have "handle_order ex order cid now =
        Some (ex\<lparr>ex_risk := settled re o1 ts r, ex_wal := ex_wal ex @ [(o1, now)],
                ex_out := ex_out ex @ order_events cid o1 B' ts r, ex_engine := e'\<rparr>)"
  proof (cases r)
    case (Inl e)
    with run show ?thesis by (simp add: settled_def order_events_def)
  next
    case (Inr rep)
    let ?ex = "ex\<lparr>ex_risk := re, ex_wal := ex_wal ex @ [(o1, now)], ex_out := ex_out ex @ [ack_event cid o1], ex_engine := e'\<rparr>"
    have sy: "unat (ord_symbol_id o1) = s" by (simp add: o1_def s_def)
    have "engine_rel True (ex_engine ?ex) (Bs(s := B'))" using E' by simp
    from handle_report_ok [OF this, of o1 cid rep ts] s run Inr show ?thesis
      by (cases ex) (simp add: sy settled_def order_events_def)
  qed
  with E' c' show "\<exists>e'. handle_order ex order cid now =
        Some (ex\<lparr>ex_risk := settled re o1 ts r, ex_wal := ex_wal ex @ [(o1, now)],
                ex_out := ex_out ex @ order_events cid o1 B' ts r, ex_engine := e'\<rparr>) \<and>
      engine_rel True e' (Bs(s := B')) \<and> me_global_order_id_counter e' = ?c + 1" by auto
qed

text \<open>In a solvent state a well-formed order always has the room: what it could lock bounds the level.\<close>

lemma order_run:
  assumes S: "solvent ex Bs U A" and wf: "well_formed order" and nc: "order_type_of order \<noteq> Cancel"
    and ctr: "me_global_order_id_counter (ex_engine ex) \<noteq> - 1"
    and L: "lock_order_funds (ex_risk ex) order = (re, Inr ())"
  defines "s \<equiv> unat (ord_symbol_id order)" and "o1 \<equiv> with_next_id ex order"
  assumes A': "aprocess (Bs s) o1 cid = (B', ts, r)"
  shows "\<exists>e'. handle_order ex order cid now =
        Some (ex\<lparr>ex_risk := settled re o1 ts r, ex_wal := ex_wal ex @ [(o1, now)],
                ex_out := ex_out ex @ order_events cid o1 B' ts r, ex_engine := e'\<rparr>) \<and>
      engine_rel True e' (Bs(s := B')) \<and>
      me_global_order_id_counter e' = me_global_order_id_counter (ex_engine ex) + 1"
    and "refused (ex\<lparr>ex_risk := re\<rparr>) order cid \<longleftrightarrow> isl r"
proof -
  have E: "engine_rel True (ex_engine ex) Bs" and c0: "me_global_order_id_counter (ex_engine ex) \<noteq> 0"
    using S by (simp_all add: solvent_def)
  note lk = locked_funds [OF S nc L]
  have s: "s < NUM_SYMBOLS" unfolding s_def by (rule lk(1))
  have side: "get_side order \<noteq> None" and id0: "ord_id order = 0"
    using wf nc by (simp_all add: well_formed_def)
  have wfB: "book_wf s (Bs s)" using S s by (simp add: solvent_def)
  have room: "level_room (Bs s) order"
    unfolding s_def
    by (rule locked_room [OF lk(3,1) engine_relD(3) [OF E s, unfolded s_def] wfB [unfolded s_def] side lk(2)])
  note run = accepted_run [OF E c0 ctr id0 nc L s [unfolded s_def] room [unfolded s_def] A' [unfolded s_def o1_def]]
  show "\<exists>e'. handle_order ex order cid now =
        Some (ex\<lparr>ex_risk := settled re o1 ts r, ex_wal := ex_wal ex @ [(o1, now)],
                ex_out := ex_out ex @ order_events cid o1 B' ts r, ex_engine := e'\<rparr>) \<and>
      engine_rel True e' (Bs(s := B')) \<and>
      me_global_order_id_counter e' = me_global_order_id_counter (ex_engine ex) + 1"
    unfolding s_def o1_def by (rule run(1))
  show "refused (ex\<lparr>ex_risk := re\<rparr>) order cid \<longleftrightarrow> isl r"
    by (rule run(2))
qed

text \<open>After it, the locks are again exactly the margins of the resting orders.\<close>

lemma order_margin:
  assumes S: "solvent ex Bs U A" and wf: "well_formed order" and nc: "order_type_of order \<noteq> Cancel"
    and L: "lock_order_funds (ex_risk ex) order = (re, Inr ())"
  defines "s \<equiv> unat (ord_symbol_id order)" and "o1 \<equiv> with_next_id ex order"
  assumes A': "aprocess (Bs s) o1 cid = (B', ts, r)"
  shows "funds_ok (settled re o1 ts r) U A (usd_margin (Bs(s := B'))) (asset_margin (Bs(s := B')))" and "book_wf s B'"
proof -
  note lk = locked_funds [OF S nc L]
  have E: "engine_rel True (ex_engine ex) Bs" and c0: "me_global_order_id_counter (ex_engine ex) \<noteq> 0"
    using S by (simp_all add: solvent_def)
  have s: "s < NUM_SYMBOLS" unfolding s_def by (rule lk(1))
  have side: "get_side order \<noteq> None"
    and t: "order_type_of order = Limit \<or> order_type_of order = Market \<and> ord_side order = Side_as Sell"
    using wf nc by (simp_all add: well_formed_def)
  have wfB: "book_wf s (Bs s)" using S s by (simp add: solvent_def)
  note B = engine_relD(3) [OF E s]
  have nl: "isl r \<longrightarrow> ts = []" using aprocess_error [OF B] A' by (cases r) auto
  show "book_wf s B'" by (rule aprocess_wf [OF B wfB _ A']) (use nc side lk(2) in \<open>simp_all add: o1_def s_def\<close>)
  show "funds_ok (settled re o1 ts r) U A (usd_margin (Bs(s := B'))) (asset_margin (Bs(s := B')))"
  proof (cases "ord_side order = Side_as Sell")
    case True
    have "funds_ok re U A (usd_margin Bs) (\<lambda>k v. asset_margin Bs k v + (if k = s \<and> v = ord_user_id order then unat (ord_qty order) else 0))"
      by (rule funds_ok_cong [OF lk(3)]) (simp_all add: usd_need_def asset_need_def True s_def)
    with after_sell [of Bs o1 cid B' ts r re U A] B wfB s A' nl t True c0 show ?thesis
      unfolding o1_def s_def with_next_id_sel by simp
  next
    case False
    then have b: "ord_side order = Side_as Buy"
      using side by (auto simp: get_side_def Side_try_from_def split: if_splits)
    have "funds_ok re U A (\<lambda>w. usd_margin Bs w + (if w = ord_user_id order then unat (ord_price order) * unat (ord_qty order) else 0)) (asset_margin Bs)"
      by (rule funds_ok_cong [OF lk(3)]) (simp_all add: usd_need_def asset_need_def b)
    with after_buy [of Bs o1 cid B' ts r re U A] B s A' nl t False b lk(2) c0 show ?thesis
      unfolding o1_def s_def with_next_id_sel by simp
  qed
qed

text \<open>The abstract books after an order.\<close>

definition order_books :: "exchange \<Rightarrow> (nat \<Rightarrow> abook) \<Rightarrow> Order \<Rightarrow> u64 \<Rightarrow> nat \<Rightarrow> abook" where
  "order_books ex Bs order cid =
     (let s = unat (ord_symbol_id order) in
      if snd (lock_order_funds (ex_risk ex) order) = Inr ()
      then Bs(s := fst (aprocess (Bs s) (with_next_id ex order) cid)) else Bs)"

definition books_after :: "exchange \<Rightarrow> (nat \<Rightarrow> abook) \<Rightarrow> InboundMessage \<Rightarrow> nat \<Rightarrow> abook" where
  "books_after ex Bs m =
     (if order_type_of (im_order m) = Cancel then cancel_books Bs (im_order m)
      else order_books ex Bs (im_order m) (im_client_id m))"

lemma handle_order_ok:
  assumes S: "solvent ex Bs U A" and wf: "well_formed order" and nc: "order_type_of order \<noteq> Cancel"
    and ctr: "me_global_order_id_counter (ex_engine ex) \<noteq> - 1"
  shows "\<exists>ex'. handle_order ex order cid now = Some ex' \<and> solvent ex' (order_books ex Bs order cid) U A"
proof (cases "lock_order_funds (ex_risk ex) order")
  case (Pair re l)
  show ?thesis
  proof (cases l)
    case (Inl reason)
    with Pair lock_error [of "ex_risk ex" order re reason] S show ?thesis
      by (auto simp: handle_order_def out_send_def solvent_def order_books_def)
  next
    case (Inr _)
    with Pair have L: "lock_order_funds (ex_risk ex) order = (re, Inr ())" by simp
    let ?s = "unat (ord_symbol_id order)"
    obtain B' ts r where A': "aprocess (Bs ?s) (with_next_id ex order) cid = (B', ts, r)" by (rule prod_cases3)
    note run = order_run [OF S wf nc ctr L A']
    note fin = order_margin [OF S wf nc L A']
    from run(1) [of now] obtain ex' where ex': "handle_order ex order cid now = Some ex'"
      "ex_risk ex' = settled re (with_next_id ex order) ts r" "engine_rel True (ex_engine ex') (Bs(?s := B'))"
      "me_global_order_id_counter (ex_engine ex') = me_global_order_id_counter (ex_engine ex) + 1" by auto
    have "me_global_order_id_counter (ex_engine ex') \<noteq> 0" using ex'(4) word_less_add_one [OF ctr] by auto
    moreover have "\<forall>k<NUM_SYMBOLS. book_wf k ((Bs(?s := B')) k)" using S fin(2) by (simp add: solvent_def)
    ultimately show ?thesis
      using ex' fin(1) by (intro exI [of _ ex']) (simp add: solvent_def order_books_def L A')
  qed
qed

section \<open>Reachable states\<close>

text \<open>
  The exchange starts without a log and takes admitted messages, at any time. This is the scope of what is proved of
  the accounts, not the set of all states of the program: market buys, which \<open>src/bin/market_maker.rs\<close> sends, orders
  of type \<open>Deposit\<close> and invalid sides lead out of it, and do break the accounts. Theory \<open>Service\<close> has what
  holds of every message.
\<close>

inductive reachable :: "exchange \<Rightarrow> bool" where
  start: "reachable ex" if "exchange_start None = Some ex"
| turn: "reachable ex'" if "reachable ex" "admitted ex m" "handle_inbound ex m now = Some ex'"

inductive_cases reachableE: "reachable ex"

definition start_usd :: nat where
  "start_usd = 20000000000"

definition start_assets :: "nat \<Rightarrow> nat" where
  "start_assets s = (if s = 0 then 2000 else if s = 1 then 20000 else 200000)"

lemma funds_ok_supply:
  "funds_ok re U A UM AM \<Longrightarrow> U' = U \<Longrightarrow> (\<And>s. s < NUM_SYMBOLS \<Longrightarrow> A' s = A s) \<Longrightarrow> funds_ok re U' A' UM AM"
  by (simp add: funds_ok_def)

lemma prefunded_ok: "funds_ok prefunded start_usd start_assets (\<lambda>_. 0) (\<lambda>_ _. 0)"
proof -
  note d = deposit_ok
  have "funds_ok (deposit RiskEngine_new 1 10000000000 (Symbol_as Btc) 1000) 10000000000
      ((\<lambda>_. 0)(0 := 1000)) (\<lambda>_. 0) (\<lambda>_ _. 0)"
    using d [OF RiskEngine_new_ok, of "Symbol_as Btc" 10000000000 1000 1] by (simp add: NUM_SYMBOLS_def)
  from d [OF this, of "Symbol_as Eth" 0 10000 1] have "funds_ok (deposit (deposit RiskEngine_new 1 10000000000 (Symbol_as Btc) 1000)
      1 0 (Symbol_as Eth) 10000) 10000000000 ((\<lambda>_. 0)(0 := 1000, 1 := 10000)) (\<lambda>_. 0) (\<lambda>_ _. 0)"
    by (simp add: NUM_SYMBOLS_def)
  from d [OF this, of "Symbol_as Sol" 0 100000 1] have "funds_ok (deposit (deposit (deposit RiskEngine_new 1 10000000000
      (Symbol_as Btc) 1000) 1 0 (Symbol_as Eth) 10000) 1 0 (Symbol_as Sol) 100000) 10000000000
      ((\<lambda>_. 0)(0 := 1000, 1 := 10000, 2 := 100000)) (\<lambda>_. 0) (\<lambda>_ _. 0)"
    by (simp add: NUM_SYMBOLS_def)
  from d [OF this, of "Symbol_as Btc" 10000000000 1000 2] have b: "funds_ok (deposit (deposit (deposit (deposit RiskEngine_new 1
      10000000000 (Symbol_as Btc) 1000) 1 0 (Symbol_as Eth) 10000) 1 0 (Symbol_as Sol) 100000) 2 10000000000 (Symbol_as Btc) 1000)
      20000000000 ((\<lambda>_. 0)(0 := 2000, 1 := 10000, 2 := 100000)) (\<lambda>_. 0) (\<lambda>_ _. 0)"
    by (simp add: NUM_SYMBOLS_def fun_upd_twist)
  from d [OF this, of "Symbol_as Eth" 0 10000 2] have "funds_ok (deposit (deposit (deposit (deposit (deposit RiskEngine_new 1
      10000000000 (Symbol_as Btc) 1000) 1 0 (Symbol_as Eth) 10000) 1 0 (Symbol_as Sol) 100000) 2 10000000000 (Symbol_as Btc) 1000)
      2 0 (Symbol_as Eth) 10000) 20000000000 ((\<lambda>_. 0)(0 := 2000, 1 := 20000, 2 := 100000)) (\<lambda>_. 0) (\<lambda>_ _. 0)"
    by (simp add: NUM_SYMBOLS_def fun_upd_twist)
  from d [OF this, of "Symbol_as Sol" 0 100000 2] have "funds_ok prefunded 20000000000
      ((\<lambda>_. 0)(0 := 2000, 1 := 20000, 2 := 200000)) (\<lambda>_. 0) (\<lambda>_ _. 0)"
    by (simp add: NUM_SYMBOLS_def fun_upd_twist prefunded_def Let_def)
  then show ?thesis
    by (rule funds_ok_supply) (auto simp: start_usd_def start_assets_def NUM_SYMBOLS_def)
qed

lemma exchange_start_eq:
  "exchange_start None = Some \<lparr>ex_engine = MultiAssetEngine_new, ex_risk = prefunded, ex_wal = [], ex_out = []\<rparr>"
  by (simp add: exchange_start_def)

lemma start_solvent:
  "exchange_start None = Some ex \<Longrightarrow> solvent ex (\<lambda>_. abook_new) start_usd start_assets"
  using funds_ok_cong [OF prefunded_ok, of "usd_margin (\<lambda>_. abook_new)" "asset_margin (\<lambda>_. abook_new)"] engine_new_rel
  by (auto simp: exchange_start_eq solvent_def MultiAssetEngine_new_def book_wf_def abook_new_def resting_orders_def
      usd_margin_def asset_margin_def)

lemma turn_solvent:
  assumes "solvent ex Bs U A" "admitted ex m"
  shows "\<exists>ex'. handle_inbound ex m now = Some ex' \<and> solvent ex' (books_after ex Bs m) U A"
proof (cases "order_type_of (im_order m) = Cancel")
  case True
  with handle_cancel_ok [OF assms(1)] show ?thesis by (simp add: handle_inbound_def books_after_def)
next
  case False
  with handle_order_ok [OF assms(1) _ False] assms(2) show ?thesis
    by (simp add: handle_inbound_def admitted_def books_after_def)
qed

lemma reachable_solvent: "reachable ex \<Longrightarrow> \<exists>Bs. solvent ex Bs start_usd start_assets"
proof (induction rule: reachable.induct)
  case (start ex)
  then show ?case using start_solvent by blast
next
  case (turn ex m now ex')
  then show ?case using turn_solvent [of ex _ start_usd start_assets m now] by fastforce
qed

lemma book_rel_weaken: "book_rel tq b B \<Longrightarrow> book_rel False b B"
proof -
  have "queues_ok False b lv qs fo" if "queues_ok tq b lv qs fo" for lv qs fo
    using that unfolding queues_ok_def queues_at_def total_ok_def by simp
  then show "book_rel tq b B \<Longrightarrow> book_rel False b B"
    unfolding book_rel_def book_abs_def book_state_def by blast
qed

text \<open>A book with a free node and a free level refuses nothing.\<close>

lemma not_refused:
  assumes S: "solvent ex Bs U A" and wf: "well_formed order" and ctr: "me_global_order_id_counter (ex_engine ex) \<noteq> - 1"
    and room: "unat (ord_symbol_id order) = s" "ab_free_orders (Bs s) \<noteq> 0 \<and> ab_free_levels (Bs s) \<noteq> 0"
    and s: "s < NUM_SYMBOLS"
    and nc: "order_type_of order \<noteq> Cancel"
  shows "\<not> refused ex order cid"
proof -
  let ?c = "me_global_order_id_counter (ex_engine ex)" and ?o = "order\<lparr>ord_id := me_global_order_id_counter (ex_engine ex)\<rparr>"
  let ?e = "(ex_engine ex)\<lparr>me_global_order_id_counter := ?c + 1\<rparr>"
  have E: "engine_rel True (ex_engine ex) Bs" and c0: "?c \<noteq> 0" using S by (simp_all add: solvent_def)
  then have "engine_rel True ?e Bs" using counter_upd word_less_add_one [OF ctr] by simp
  then have E1: "engine_rel False ?e Bs"
    using book_rel_weaken by (auto simp: engine_rel_def)
  have ad: "admissible (Bs s) ?o"
    by (rule ids_below_fresh [OF engine_relD(2) [OF E s]]) (simp_all add: c0)
  have nc': "order_type_of ?o \<noteq> Cancel" using nc by (simp add: order_type_of_def get_order_type_def)
  obtain B' ts r where A': "aprocess (Bs s) ?o cid = (B', ts, r)" by (rule prod_cases3)
  obtain e' where "me_process ?e ?o cid [] = Some (e', [] @ ts, r)"
    using me_process_rel [OF E1 s _ _ _ ad _ nc' A', of "[]"] room(1) ctr c0 by auto
  moreover have "r \<noteq> Inl e" for e
    using aprocess_error [OF engine_relD(3) [OF E s], of ?o cid B' ts e] nc' A' room(2) by auto
  then have "\<not> isl r" by (metis sum.collapse(1))
  ultimately show ?thesis
    using wf nc by (auto simp: refused_def assign_id_def me_next_order_id_def well_formed_def split: sum.split)
qed

section \<open>Guarantees of the exchange\<close>

text \<open>A first turn from the start, for the witnesses.\<close>

definition demo_sell :: InboundMessage where
  "demo_sell = \<lparr>im_order = new_client_limit 7 1 Btc Sell 100 5, im_client_id = 3\<rparr>"

lemma demo_sell_wf: "well_formed (im_order demo_sell)" "order_type_of (im_order demo_sell) \<noteq> Cancel"
  by (simp_all add: demo_sell_def well_formed_def ob_simps)

lemma demo_admitted: "exchange_start None = Some ex \<Longrightarrow> admitted ex demo_sell"
  unfolding admitted_def
  using demo_sell_wf
  by (auto simp: exchange_start_eq MultiAssetEngine_new_def abook_new_def MAX_ARENA_ORDERS_def MAX_PRICE_LEVELS_def)

lemma demo_turn: "\<exists>ex ex'. exchange_start None = Some ex \<and> handle_inbound ex demo_sell 0 = Some ex' \<and> reachable ex \<and> reachable ex'"
proof -
  obtain ex where ex: "exchange_start None = Some ex" using exchange_start_eq by blast
  obtain ex' where "handle_inbound ex demo_sell 0 = Some ex'"
    using turn_solvent [OF start_solvent [OF ex] demo_admitted [OF ex], of 0] by blast
  with ex reachable.start [OF ex] reachable.turn [OF reachable.start [OF ex] demo_admitted [OF ex], of 0] show ?thesis
    by blast
qed

text \<open>C1. Solvency, for the traffic that keeps it: in every state that the exchange reaches from a start without a log
  by cancels, limit orders and market sales with a valid side and no exchange id (\<open>admitted\<close> messages: no market
  buys, no orders of type \<open>Deposit\<close>, no invalid side, which do break it; and before the ids run out), the total supply
  of dollars and of every asset is what the accounts were funded with, every user has locked exactly the dollars that
  its resting bids need and, per symbol, exactly the units that its resting asks offer.\<close>

theorem exchange_solvent:
  assumes "reachable ex"
  shows "\<exists>Bs. engine_rel True (ex_engine ex) Bs \<and>
    usd_supply (ex_risk ex) = start_usd \<and> (\<forall>s<NUM_SYMBOLS. asset_supply (ex_risk ex) s = start_assets s) \<and>
    (\<forall>u. usd_held (ex_risk ex) u = usd_margin Bs u) \<and>
    (\<forall>s<NUM_SYMBOLS. \<forall>u. asset_held (ex_risk ex) s u = asset_margin Bs s u)"
  using reachable_solvent [OF assms] by (auto simp: solvent_def funds_ok_def)

theorem exchange_solvent_witness:
  "\<exists>ex ex' Bs. exchange_start None = Some ex \<and> handle_inbound ex demo_sell 0 = Some ex' \<and>
     engine_rel True (ex_engine ex') Bs \<and>
     usd_supply (ex_risk ex') = 20000000000 \<and> asset_supply (ex_risk ex') 2 = 200000"
proof -
  obtain ex ex' where e: "exchange_start None = Some ex" "handle_inbound ex demo_sell 0 = Some ex'" "reachable ex'"
    using demo_turn by blast
  from exchange_solvent [OF e(3)] obtain Bs where "engine_rel True (ex_engine ex') Bs"
    "usd_supply (ex_risk ex') = start_usd" "\<forall>s<NUM_SYMBOLS. asset_supply (ex_risk ex') s = start_assets s"
    by blast
  moreover from this(3) have "asset_supply (ex_risk ex') 2 = start_assets 2" by (simp add: NUM_SYMBOLS_def)
  ultimately show ?thesis
    using e(1,2) by (intro exI [of _ ex] exI [of _ ex'] exI [of _ Bs]) (simp add: start_usd_def start_assets_def)
qed

text \<open>C6. Liveness: in every reachable state every admitted message is handled to its end: no index is
  out of bounds, no probe loop or list walk diverges, whatever the clock says.\<close>

theorem exchange_never_stuck:
  assumes "reachable ex" "admitted ex m"
  shows "\<exists>ex'. handle_inbound ex m now = Some ex' \<and> reachable ex'"
proof -
  obtain Bs where "solvent ex Bs start_usd start_assets" using reachable_solvent [OF assms(1)] by blast
  from turn_solvent [OF this assms(2), of now] obtain ex' where "handle_inbound ex m now = Some ex'" by blast
  with reachable.turn [OF assms] show ?thesis by blast
qed

theorem exchange_never_stuck_witness:
  "\<exists>ex ex'. exchange_start None = Some ex \<and> handle_inbound ex demo_sell 12 = Some ex' \<and> reachable ex'"
proof -
  obtain ex where ex: "exchange_start None = Some ex" using exchange_start_eq by blast
  from exchange_never_stuck [OF reachable.start [OF ex] demo_admitted [OF ex], of 12] ex show ?thesis by blast
qed

end
