(* ===== verification/Quotes.thy ===== *)
theory Quotes
  imports Solvency
begin

text \<open>
  The quotes the exchange publishes, and turns computed from its start: the books by their refinement, the
  accounts by evaluation. One user offers 5 units, and then 7 more at the same price.
\<close>

section \<open>Turns from the start\<close>

lemma prefunded_accounts:
  "prefunded = \<lparr>re_accounts = [
     1 \<mapsto> \<lparr>ac_user_id = 1, ac_usd_available = 10000000000, ac_usd_locked = 0,
           ac_asset_available = Vec 3 ((\<lambda>_. 0)(0 := 1000, 1 := 10000, 2 := 100000)), ac_asset_locked = Vec 3 (\<lambda>_. 0)\<rparr>,
     2 \<mapsto> \<lparr>ac_user_id = 2, ac_usd_available = 10000000000, ac_usd_locked = 0,
           ac_asset_available = Vec 3 ((\<lambda>_. 0)(0 := 1000, 1 := 10000, 2 := 100000)), ac_asset_locked = Vec 3 (\<lambda>_. 0)\<rparr>]\<rparr>"
  by (simp add: prefunded_def deposit_def RiskEngine_new_def Account_new_def Let_def NUM_SYMBOLS_def ob_simps vupd_def
      fun_upd_twist)

lemmas risk_run = lock_order_funds_def settled_def settle_all_def settle_trade_def settle_buyer_def settle_seller_def
  release_after_def unlock_cancelled_order_margin_def unlock_order_funds_def with_account_def checked_mul_def
  sat_mul_def sat_sub_def vupd_def NUM_SYMBOLS_def order_type_of_def

lemmas supply_run = usd_supply_def usd_free_def usd_held_def asset_supply_def asset_free_def asset_held_def

text \<open>The turn of an order whose funds could be locked, on an exchange that represents the books \<open>Bs\<close>.\<close>

lemma accepted_turn:
  assumes E: "engine_rel True (ex_engine ex) Bs"
    and c: "me_global_order_id_counter (ex_engine ex) = c" "c \<noteq> 0" "c \<noteq> - 1"
    and order: "ord_id (im_order m) = 0" "order_type_of (im_order m) \<noteq> Cancel"
      "unat (ord_symbol_id (im_order m)) < NUM_SYMBOLS" "level_room (Bs (unat (ord_symbol_id (im_order m)))) (im_order m)"
    and L: "lock_order_funds (ex_risk ex) (im_order m) = (re, Inr ())"
    and A: "aprocess (Bs (unat (ord_symbol_id (im_order m)))) ((im_order m)\<lparr>ord_id := c\<rparr>) (im_client_id m) = (B', ts, r)"
  shows "\<exists>ex'. handle_inbound ex m now = Some ex' \<and>
    ex_risk ex' = settled re ((im_order m)\<lparr>ord_id := c\<rparr>) ts r \<and>
    ex_wal ex' = ex_wal ex @ [((im_order m)\<lparr>ord_id := c\<rparr>, now)] \<and>
    engine_rel True (ex_engine ex') (Bs(unat (ord_symbol_id (im_order m)) := B')) \<and>
    me_global_order_id_counter (ex_engine ex') = c + 1"
proof -
  have A': "aprocess (Bs (unat (ord_symbol_id (im_order m)))) (with_next_id ex (im_order m)) (im_client_id m) = (B', ts, r)"
    using A by (simp add: with_next_id_def c(1))
  from accepted_run(1) [OF E _ _ order(1,2) L order(3,4) A', of now] c order(2) show ?thesis
    by (auto simp: handle_inbound_def with_next_id_def)
qed

section \<open>Two offers at one price\<close>

text \<open>The first one is \<open>demo_sell\<close>: user 1 offers 5 units at 100.\<close>

definition offer_book :: abook where
  "offer_book = fst (aprocess abook_new ((im_order demo_sell)\<lparr>ord_id := 1\<rparr>) 3)"

definition offer_accounts :: RiskEngine where
  "offer_accounts = fst (lock_order_funds prefunded (im_order demo_sell))"

lemma offer_accounts_eq:
  "offer_accounts = \<lparr>re_accounts = [
     1 \<mapsto> \<lparr>ac_user_id = 1, ac_usd_available = 10000000000, ac_usd_locked = 0,
           ac_asset_available = Vec 3 ((\<lambda>_. 0)(0 := 995, 1 := 10000, 2 := 100000)),
           ac_asset_locked = Vec 3 ((\<lambda>_. 0)(0 := 5))\<rparr>,
     2 \<mapsto> \<lparr>ac_user_id = 2, ac_usd_available = 10000000000, ac_usd_locked = 0,
           ac_asset_available = Vec 3 ((\<lambda>_. 0)(0 := 1000, 1 := 10000, 2 := 100000)), ac_asset_locked = Vec 3 (\<lambda>_. 0)\<rparr>]\<rparr>"
  by (simp add: offer_accounts_def prefunded_accounts demo_sell_def lock_order_funds_def NUM_SYMBOLS_def ob_simps vupd_def
      fun_upd_twist Let_def)

lemma offer_lock: "lock_order_funds prefunded (im_order demo_sell) = (offer_accounts, Inr ())"
  by (simp add: offer_accounts_def prefunded_accounts demo_sell_def lock_order_funds_def NUM_SYMBOLS_def ob_simps Let_def)

lemma offer_book_eq:
  "offer_book =
     \<lparr>ab_bids = [], ab_asks = [(100, [((im_order demo_sell)\<lparr>ord_id := 1\<rparr>, 3)])],
      ab_clients = [(1, 7) \<mapsto> 1], ab_free_orders = 131071, ab_free_levels = 4095, ab_trade_ctr = 1, ab_order_ctr = 2\<rparr>"
  by (simp add: offer_book_def demo_sell_def abook_run abook_new_def ob_simps)

lemma offer_turn:
  "\<exists>ex ex1. exchange_start None = Some ex \<and> handle_inbound ex demo_sell 0 = Some ex1 \<and> reachable ex1 \<and>
     engine_rel True (ex_engine ex1) ((\<lambda>_. abook_new)(0 := offer_book)) \<and> ex_risk ex1 = offer_accounts \<and>
     me_global_order_id_counter (ex_engine ex1) = 2"
proof -
  obtain ex where ex: "exchange_start None = Some ex" "reachable ex" using reachable.start exchange_start_eq by blast
  let ?m = demo_sell
  obtain ts r where A: "aprocess abook_new ((im_order ?m)\<lparr>ord_id := 1\<rparr>) 3 = (offer_book, ts, r)" and
    r: "ts = []" "r = Inr \<lparr>er_executed_qty = 0, er_remaining_qty = 5, er_stp_triggered = False\<rparr>"
    by (simp add: offer_book_def demo_sell_def abook_run abook_new_def ob_simps)
  have m: "im_client_id ?m = 3" "ord_symbol_id (im_order ?m) = 0" "ord_id (im_order ?m) = 0"
    by (simp_all add: demo_sell_def ob_simps)
  have e: "ex_risk ex = prefunded" "me_global_order_id_counter (ex_engine ex) = 1"
    "engine_rel True (ex_engine ex) (\<lambda>_. abook_new)"
    using start_solvent [OF ex(1)] ex(1) by (auto simp: exchange_start_eq MultiAssetEngine_new_def solvent_def)
  have room: "level_room abook_new (im_order ?m)" by (simp add: demo_sell_def abook_new_def abook_check ob_simps)
  from accepted_turn [OF e(3,2) _ _ m(3) demo_sell_wf(2), of offer_accounts offer_book ts r 0]
  obtain ex1 where ex1: "handle_inbound ex ?m 0 = Some ex1"
    "ex_risk ex1 = settled offer_accounts ((im_order ?m)\<lparr>ord_id := 1\<rparr>) ts r"
    "engine_rel True (ex_engine ex1) ((\<lambda>_. abook_new)(0 := offer_book))"
    "me_global_order_id_counter (ex_engine ex1) = 2"
    using A m room offer_lock by (auto simp: e(1) NUM_SYMBOLS_def)
  have "ex_risk ex1 = offer_accounts"
    by (simp add: ex1(2) r risk_run demo_sell_def ob_simps)
  with ex ex1 reachable.turn [OF ex(2) demo_admitted [OF ex(1)] ex1(1)] show ?thesis by blast
qed

text \<open>User 1 offers 7 more at the same price, from another connection.\<close>

definition demo_more :: InboundMessage where
  "demo_more = \<lparr>im_order = new_client_limit 9 1 Btc Sell 100 7, im_client_id = 4\<rparr>"

lemma more_match:
  "aprocess offer_book ((im_order demo_more)\<lparr>ord_id := 2\<rparr>) 4 =
     (offer_book\<lparr>ab_asks := [(100, [((im_order demo_sell)\<lparr>ord_id := 1\<rparr>, 3), ((im_order demo_more)\<lparr>ord_id := 2\<rparr>, 4)])],
        ab_clients := [(1, 7) \<mapsto> 1, (1, 9) \<mapsto> 2], ab_free_orders := 131070, ab_order_ctr := 3\<rparr>,
      [], Inr \<lparr>er_executed_qty = 0, er_remaining_qty = 7, er_stp_triggered = False\<rparr>)"
  by (simp add: offer_book_eq demo_more_def demo_sell_def abook_run ob_simps)

lemma more_turn:
  "\<exists>ex b. reachable ex \<and> me_get_book (ex_engine ex) 0 = Some b \<and> get_bbo b = Some (None, Some (100, 12))"
proof -
  obtain ex where ex: "reachable ex" and e: "engine_rel True (ex_engine ex) ((\<lambda>_. abook_new)(0 := offer_book))"
    "ex_risk ex = offer_accounts" "me_global_order_id_counter (ex_engine ex) = 2" using offer_turn by blast
  let ?m = demo_more
  have m: "im_client_id ?m = 4" "ord_symbol_id (im_order ?m) = 0" "ord_id (im_order ?m) = 0" "order_type_of (im_order ?m) \<noteq> Cancel"
    "well_formed (im_order ?m)"
    by (simp_all add: demo_more_def well_formed_def ob_simps)
  have room: "level_room offer_book (im_order ?m)" by (simp add: demo_more_def demo_sell_def offer_book_eq abook_check ob_simps)
  have L: "lock_order_funds (ex_risk ex) (im_order ?m) = (fst (lock_order_funds offer_accounts (im_order ?m)), Inr ())"
    by (simp add: e(2) offer_accounts_eq demo_more_def lock_order_funds_def NUM_SYMBOLS_def ob_simps Let_def)
  let ?B = "offer_book\<lparr>ab_asks := [(100, [((im_order demo_sell)\<lparr>ord_id := 1\<rparr>, 3), ((im_order demo_more)\<lparr>ord_id := 2\<rparr>, 4)])],
      ab_clients := [(1, 7) \<mapsto> 1, (1, 9) \<mapsto> 2], ab_free_orders := 131070, ab_order_ctr := 3\<rparr>"
  from accepted_turn [OF e(1,3) _ _ m(3,4) _ _ L, of _ _ _ 1] obtain ex' where ex': "handle_inbound ex ?m 1 = Some ex'"
    "engine_rel True (ex_engine ex') ((\<lambda>_. abook_new)(0 := ?B))"
    using m(1,2) room more_match by (auto simp: NUM_SYMBOLS_def)
  have "admitted ex ?m" using m(5) e(3) by (simp add: admitted_def)
  from reachable.turn [OF ex this ex'(1)] have r: "reachable ex'" .
  have s: "(0 :: nat) < NUM_SYMBOLS" by (simp add: NUM_SYMBOLS_def)
  let ?b = "vfun (me_books (ex_engine ex')) 0"
  have "me_get_book (ex_engine ex') 0 = Some ?b" using s engine_relD(4) [OF ex'(2) s] by (simp add: me_get_book_def)
  moreover have "get_bbo ?b = Some (None, Some (100, 12))"
    using get_bbo_sim [OF engine_relD(1) [OF ex'(2) s]]
    by (simp add: aquote_def alevel_qty_def offer_book_eq demo_sell_def demo_more_def ob_simps)
  ultimately show ?thesis using r by blast
qed

section \<open>The quotes are the true sums\<close>

text \<open>C27. No overflow of level totals: in every state of the exchange that a start without a log reaches by cancels,
  limit orders and market sales with a valid side and no exchange id (not by market buys, orders of type
  \<open>Deposit\<close> or with an invalid side: they break the bound by the supply that this rests on), the quantities the books
  publish are the true sums of the resting quantities, below \<open>2^64\<close>, and the quotes are not crossed.\<close>

theorem published_quotes_exact:
  assumes "reachable ex" "me_get_book (ex_engine ex) sy = Some b"
  shows "\<exists>B. book_rel True b B \<and> get_bbo b = Some (aquote (ab_bids B), aquote (ab_asks B)) \<and>
    (\<forall>s. \<forall>l\<in>set (aside s B). unat (alevel_qty l) = qty_sum (map fst (snd l))) \<and>
    (\<forall>l\<in>set (ab_bids B). \<forall>m\<in>set (ab_asks B). fst l < fst m)"
proof -
  obtain Bs where S: "solvent ex Bs start_usd start_assets" using reachable_solvent [OF assms(1)] by blast
  let ?s = "unat sy"
  have s: "?s < NUM_SYMBOLS" and b: "b = vfun (me_books (ex_engine ex)) ?s"
    using assms(2) S by (auto simp: me_get_book_def Let_def vget_def split: if_splits)
  have E: "engine_rel True (ex_engine ex) Bs" and F: "funds_ok (ex_risk ex) U A (usd_margin Bs) (asset_margin Bs)"
    if "U = start_usd" "A = start_assets" for U A
    using S that by (simp_all add: solvent_def)
  note R = engine_relD(1) [OF E [OF refl refl] s] and B = engine_relD(3) [OF E [OF refl refl] s]
  have wf: "book_wf ?s (Bs ?s)" using S s by (simp add: solvent_def)
  have "qty_sum (map fst (flat (ab_bids (Bs ?s)))) + 0 \<le> start_usd"
    by (rule bids_total [OF F [OF refl refl], of _ 0 0])
      (use bid_margin_le [OF s] wf_prices(2) [OF B wf] opposite_positive [OF B, of _ False] in \<open>auto simp: sides\<close>)
  moreover have "qty_sum (map fst (flat (ab_asks (Bs ?s)))) + 0 \<le> start_assets ?s"
    by (rule asks_total [OF F [OF refl refl] s, of _ 0 0])
      (use opposite_positive [OF B, of _ True] in \<open>auto simp: sides asset_margin_def\<close>)
  moreover have "start_usd < 2 ^ 64" "start_assets ?s < 2 ^ 64"
    by (simp_all add: start_usd_def start_assets_def)
  ultimately have small: "qty_sum (map fst (flat (aside s (Bs ?s)))) < 2 ^ 64" for s
    by (cases s) (simp_all add: aside_def)
  have "qty_sum (map fst (snd l)) \<le> qty_sum (map fst (flat ls))" if "l \<in> set ls" for l ls
    using that by (induction ls) auto
  then have "unat (alevel_qty l) = qty_sum (map fst (snd l))" if "l \<in> set (aside s (Bs ?s))" for s l
    using le_less_trans [OF _ small [of s]] that
    by (simp add: alevel_qty_def unat_of_nat take_bit_nat_eq_self)
  moreover have "\<forall>l\<in>set (ab_bids (Bs ?s)). \<forall>m\<in>set (ab_asks (Bs ?s)). fst l < fst m"
    using B by (simp add: abook_ok_def)
  ultimately show ?thesis using R get_bbo_sim [OF R] unfolding b by blast
qed

theorem published_quotes_exact_witness:
  "\<exists>ex b B l. reachable ex \<and> me_get_book (ex_engine ex) 0 = Some b \<and> book_rel True b B \<and>
     get_bbo b = Some (None, Some (100, 12)) \<and> l \<in> set (ab_asks B) \<and> fst l = 100 \<and> qty_sum (map fst (snd l)) = 12"
proof -
  obtain ex b where ex: "reachable ex" "me_get_book (ex_engine ex) 0 = Some b"
    and q: "get_bbo b = Some (None, Some (100, 12))" using more_turn by blast
  from published_quotes_exact [OF ex] obtain B where B: "book_rel True b B"
    "get_bbo b = Some (aquote (ab_bids B), aquote (ab_asks B))"
    "\<forall>s. \<forall>l\<in>set (aside s B). unat (alevel_qty l) = qty_sum (map fst (snd l))" by blast
  from B(2) q have "aquote (ab_asks B) = Some (100, 12)" by simp
  then obtain l ls where l: "ab_asks B = l # ls" "fst l = 100" "alevel_qty l = 12"
    by (auto simp: aquote_def split: list.splits)
  then have "l \<in> set (aside True B)" by (simp add: aside_def)
  with B(3) l(3) have "qty_sum (map fst (snd l)) = 12" by fastforce
  with ex q B(1) l(1,2) show ?thesis
    by (intro exI [of _ ex] exI [of _ b] exI [of _ B] exI [of _ l]) simp
qed

end
