(* ===== verification/Recovery.thy ===== *)
theory Recovery
  imports Solvency
begin

text \<open>
  Crash recovery: replaying the log (\<open>MultiAssetEngine::replay_order\<close> of \<open>src/book.rs\<close> for every
  record, the start of \<open>src/bin/exchange.rs\<close>) reconstructs the state of the exchange. The log does not
  keep the connection an order came from, so the books are rebuilt up to client ids: \<open>anon\<close> forgets
  them, and the specification of the book is shown not to depend on them.
\<close>

section \<open>Books without client ids\<close>

definition anon_resting :: "resting \<Rightarrow> resting" where
  "anon_resting x = (fst x, 0)"

definition anon_levels :: "alevel list \<Rightarrow> alevel list" where
  "anon_levels ls = map (\<lambda>l. (fst l, map anon_resting (snd l))) ls"

definition anon :: "abook \<Rightarrow> abook" where
  "anon B = B\<lparr>ab_bids := anon_levels (ab_bids B), ab_asks := anon_levels (ab_asks B)\<rparr>"

definition anon_trade :: "Trade \<Rightarrow> Trade" where
  "anon_trade t = t\<lparr>tr_maker_client_id := 0, tr_taker_client_id := 0\<rparr>"

lemma anon_resting_sel [simp]:
  "fst (anon_resting x) = fst x" "resting_id (anon_resting x) = resting_id x"
  "resting_key (anon_resting x) = resting_key x" "anon_resting (o', cid) = (o', 0)"
  by (simp_all add: anon_resting_def resting_id_def resting_key_def)

lemma anon_comp [simp]: "resting_id \<circ> anon_resting = resting_id" "resting_key \<circ> anon_resting = resting_key"
  "fst \<circ> anon_resting = fst"
  by (simp_all add: fun_eq_iff)

lemma anon_levels_simps [simp]:
  "anon_levels [] = []" "anon_levels (l # ls) = (fst l, map anon_resting (snd l)) # anon_levels ls"
  "anon_levels (ls @ ms) = anon_levels ls @ anon_levels ms" "length (anon_levels ls) = length ls"
  by (simp_all add: anon_levels_def)

lemma flat_anon [simp]: "flat (anon_levels ls) = map anon_resting (flat ls)"
  by (induction ls) simp_all

lemma anon_sel [simp]:
  "ab_clients (anon B) = ab_clients B" "ab_free_orders (anon B) = ab_free_orders B"
  "ab_free_levels (anon B) = ab_free_levels B" "ab_trade_ctr (anon B) = ab_trade_ctr B"
  "ab_order_ctr (anon B) = ab_order_ctr B" "aside s (anon B) = anon_levels (aside s B)"
  "resting_orders (anon B) = map anon_resting (resting_orders B)"
  by (simp_all add: anon_def aside_def resting_orders_def)

lemma anon_upd [simp]:
  "anon (set_aside s ls B) = set_aside s (anon_levels ls) (anon B)"
  "anon (B\<lparr>ab_clients := c\<rparr>) = (anon B)\<lparr>ab_clients := c\<rparr>"
  "anon (B\<lparr>ab_free_orders := n\<rparr>) = (anon B)\<lparr>ab_free_orders := n\<rparr>"
  "anon (B\<lparr>ab_free_levels := n\<rparr>) = (anon B)\<lparr>ab_free_levels := n\<rparr>"
  "anon (B\<lparr>ab_trade_ctr := w\<rparr>) = (anon B)\<lparr>ab_trade_ctr := w\<rparr>"
  "anon (B\<lparr>ab_order_ctr := w\<rparr>) = (anon B)\<lparr>ab_order_ctr := w\<rparr>"
  by (simp_all add: anon_def set_aside_def)

lemma anon_mk_trade: "anon_trade (mk_trade inc cid r rc m t) = mk_trade inc 0 r 0 m t"
  by (simp add: anon_trade_def mk_trade_def Let_def split: prod.split)

lemma anon_new [simp]: "anon abook_new = abook_new"
  by (simp add: anon_def abook_new_def)

lemma fill_queue_anon:
  "fill_queue cid ctr inc q = (i, q', ts, rm, stp) \<Longrightarrow>
   fill_queue 0 ctr inc (map anon_resting q) =
     (i, map anon_resting q', map anon_trade ts, map anon_resting rm, stp)"
proof (induction cid ctr inc q arbitrary: i q' ts rm stp rule: fill_queue.induct)
  case (2 cid ctr inc r rc q)
  let ?t = "min (ord_qty inc) (ord_qty r)"
  show ?case
  proof (cases "ord_qty inc \<noteq> 0 \<and> ord_user_id r \<noteq> ord_user_id inc \<and> ord_qty r - ?t = 0")
    case True
    with "2.prems" obtain ts' rm' where
      rec: "fill_queue cid (ctr + 1) (inc\<lparr>ord_qty := ord_qty inc - ?t\<rparr>) q = (i, q', ts', rm', stp)"
      and e: "ts = mk_trade inc cid r rc ctr ?t # ts'" "rm = (r, rc) # rm'"
      by (auto simp: Let_def split: prod.splits)
    have "fill_queue 0 (ctr + 1) (inc\<lparr>ord_qty := ord_qty inc - ?t\<rparr>) (map anon_resting q) =
        (i, map anon_resting q', map anon_trade ts', map anon_resting rm', stp)"
      by (rule "2.IH") (use True rec in simp_all)
    with True show ?thesis by (simp add: e anon_mk_trade Let_def)
  next
    case False
    with "2.prems" show ?thesis by (auto simp: anon_mk_trade Let_def)
  qed
qed auto

lemma sweep_levels_anon:
  "sweep_levels s ot cid ctr inc ls = (i, ls', ts, rm, stp) \<Longrightarrow>
   sweep_levels s ot 0 ctr inc (anon_levels ls) =
     (i, anon_levels ls', map anon_trade ts, map anon_resting rm, stp)"
proof (induction s ot cid ctr inc ls arbitrary: i ls' ts rm stp rule: sweep_levels.induct)
  case (2 s ot cid ctr inc p q ls)
  show ?case
  proof (cases "ord_qty inc = 0 \<or> beyond_limit s ot inc p")
    case True
    with "2.prems" show ?thesis by auto
  next
    case False
    obtain inc1 q1 ts1 rm1 stp1 where F: "fill_queue cid ctr inc q = (inc1, q1, ts1, rm1, stp1)"
      by (metis prod_cases5)
    note F0 = fill_queue_anon [OF F]
    show ?thesis
    proof (cases "q1 = []")
      case True
      with False F "2.prems" obtain ts2 rm2 where
        "sweep_levels s ot cid (ctr + of_nat (length ts1)) inc1 ls = (i, ls', ts2, rm2, stp)"
        "ts = ts1 @ ts2" "rm = rm1 @ rm2" by (auto split: prod.splits)
      with "2.IH" [OF False F [symmetric]] True False F0 show ?thesis by auto
    next
      case False': False
      with False F F0 "2.prems" show ?thesis by auto
    qed
  qed
qed auto

lemma asweep_anon:
  "asweep s ot cid B order = (B', i, ts, stp) \<Longrightarrow>
     asweep s ot 0 (anon B) order = (anon B', i, map anon_trade ts, stp)"
  by (auto simp: asweep_def image_image dest: sweep_levels_anon split: prod.splits)
lemma anon_level_prices: "fst ` set (anon_levels ls) = fst ` set ls" "(p \<in> fst ` set (anon_levels ls)) = (p \<in> fst ` set ls)"
  by (force simp: anon_levels_def)+

lemma insert_level_anon: "anon_levels (insert_level s p (order, cid) ls) = insert_level s p (order, 0) (anon_levels ls)"
proof -
  have "takeWhile (\<lambda>l. better s (fst l) p) (anon_levels ls) = anon_levels (takeWhile (\<lambda>l. better s (fst l) p) ls)"
    "dropWhile (\<lambda>l. better s (fst l) p) (anon_levels ls) = anon_levels (dropWhile (\<lambda>l. better s (fst l) p) ls)"
    by (induction ls) simp_all
  then show ?thesis by (simp add: insert_level_def)
qed

lemma append_level_anon: "anon_levels (append_level p (order, cid) ls) = append_level p (order, 0) (anon_levels ls)"
  by (simp add: anon_levels_def append_level_def)

lemma arest_anon: "arest B order cid s = (B', r) \<Longrightarrow> arest (anon B) order 0 s = (anon B', r)"
  by (auto simp: arest_def Let_def anon_level_prices insert_level_anon append_level_anon split: if_splits)

lemma remove_id_anon: "anon_levels (remove_id oid ls) = remove_id oid (anon_levels ls)"
proof (induction ls)
  case (Cons l ls)
  have "filter (\<lambda>x. resting_id x \<noteq> oid) (map anon_resting xs) = map anon_resting (filter (\<lambda>x. resting_id x \<noteq> oid) xs)" for xs
    by (simp add: filter_map comp_def)
  with Cons show ?case by (simp add: remove_id_def)
qed (simp add: remove_id_def)

lemma find_anon:
  "List.find (\<lambda>x. resting_id x = oid) (map anon_resting xs) =
     map_option anon_resting (List.find (\<lambda>x. resting_id x = oid) xs)"
  by (induction xs) simp_all

lemma cancel_target_anon: "cancel_target (anon B) uid oid = map_option anon_resting (cancel_target B uid oid)"
  by (simp add: cancel_target_def find_resting_def find_anon split: option.split)

lemma aremove_anon: "aremove (anon B) (anon_resting x) = anon (aremove B x)"
  by (simp only: aremove_def Let_def anon_resting_sel anon_sel remove_id_anon [symmetric] anon_upd anon_levels_simps(4))

lemma acancel_anon: "acancel B uid oid = (B', c) \<Longrightarrow> acancel (anon B) uid oid = (anon B', c)"
proof (cases "cancel_target B uid oid")
  case None
  then show "acancel B uid oid = (B', c) \<Longrightarrow> acancel (anon B) uid oid = (anon B', c)"
    unfolding acancel_def cancel_target_anon by simp
next
  case (Some x)
  then show "acancel B uid oid = (B', c) \<Longrightarrow> acancel (anon B) uid oid = (anon B', c)"
    unfolding acancel_def cancel_target_anon
    by (simp only: option.case option.map anon_resting_sel aremove_anon split: if_splits) auto
qed

lemma astamp_anon: "astamp (anon B) order = (anon (fst (astamp B order)), snd (astamp B order))"
  by (simp add: astamp_def)

lemma aprocess_anon:
  assumes "aprocess B order cid = (B', ts, r)"
  shows "aprocess (anon B) order 0 = (anon B', map anon_trade ts, r)"
proof (cases "order_type_of order = Cancel")
  case True
  obtain B1 c where C: "acancel B (ord_user_id order)
      (if ord_id order \<noteq> 0 then ord_id order else ord_client_order_id order) = (B1, c)" by (rule prod.exhaust)
  show ?thesis
    using assms unfolding aprocess_def if_P [OF True] C acancel_anon [OF C] by (cases c) auto
next
  case False
  let ?s = "ord_side order = Side_as Sell"
  obtain B1 o1 where S: "astamp B order = (B1, o1)" by (rule prod.exhaust)
  obtain B2 o2 ts2 stp where W: "asweep ?s (order_type_of order) cid B1 o1 = (B2, o2, ts2, stp)"
    by (metis prod_cases4)
  obtain B3 r3 where R: "arest B2 o2 cid ?s = (B3, r3)" by (rule prod.exhaust)
  let ?c = "\<not> stp \<and> order_type_of order = Limit \<and> ord_qty o2 > 0"
  have S': "astamp (anon B) order = (anon B1, o1)" using astamp_anon [of B order] by (simp add: S)
  show ?thesis
  proof (cases ?c)
    case True
    with assms show ?thesis
      unfolding aprocess_def if_not_P [OF False] S S' Let_def prod.case W asweep_anon [OF W] R arest_anon [OF R] if_P [OF True]
      by (cases r3) auto
  next
    case c: False
    with assms show ?thesis
      unfolding aprocess_def if_not_P [OF False] S S' Let_def prod.case W asweep_anon [OF W] if_not_P [OF c] by auto
  qed
qed

lemma settle_trade_anon [simp]: "settle_trade re (anon_trade t) lp = settle_trade re t lp"
  by (simp add: settle_trade_def settle_buyer_def settle_seller_def anon_trade_def)

lemma settle_all_anon [simp]: "settle_all re lp (map anon_trade ts) = settle_all re lp ts"
proof -
  have "anon_trade t = t\<lparr>tr_maker_client_id := 0, tr_taker_client_id := 0\<rparr>" for t by (rule anon_trade_def)
  then have "tr_qty (anon_trade t) = tr_qty t" "tr_price (anon_trade t) = tr_price t" for t by simp_all
  then show ?thesis by (simp add: settle_all_def fold_map comp_def)
qed

lemma settled_anon: "settled re order (map anon_trade ts) r = settled re order ts r"
  by (simp add: settled_def split: sum.split)
section \<open>Replaying the log\<close>

lemma replay_snoc:
  assumes "replay_all os e tr risk = Some (e1, r1)"
    and "\<And>tr. \<exists>tr' q. me_replay_order e1 order tr r1 = Some (e2, tr', r2, q)"
  shows "replay_all (os @ [order]) e tr risk = Some (e2, r2)"
  using assms(1)
proof (induction os arbitrary: e tr risk)
  case Nil
  with assms(2) [of tr] show ?case by auto
next
  case (Cons o' os)
  then show ?case by (auto simp: bind_eq_Some_conv)
qed

lemma lock_with_next_id [simp]: "lock_order_funds re (with_next_id ex order) = lock_order_funds re order"
  by (simp only: lock_order_funds_def with_next_id_sel)

text \<open>\<open>recovers\<close>: the log of the exchange replays to its risk state, its next id and its books.\<close>

definition recovers :: "exchange \<Rightarrow> (nat \<Rightarrow> abook) \<Rightarrow> bool" where
  "recovers ex Bs \<longleftrightarrow>
     (\<exists>e. replay_all (map fst (ex_wal ex)) MultiAssetEngine_new [] prefunded = Some (e, ex_risk ex) \<and>
        engine_rel True e (\<lambda>s. anon (Bs s)) \<and>
        me_global_order_id_counter e = me_global_order_id_counter (ex_engine ex))"

lemma level_room_anon: "level_room (anon B) order = level_room B order"
proof -
  have "level_qty (anon_levels ls) p = level_qty ls p" for ls p
    by (induction ls) (simp_all add: level_qty_def)
  then show ?thesis by (simp add: level_room_def)
qed

lemma admissible_anon: "admissible (anon B) order = admissible B order"
  by (simp add: admissible_def fresh_def stamped_def image_image)

lemma anon_fun_upd: "(\<lambda>s. anon ((Bs(k := B)) s)) = (\<lambda>s. anon (Bs s))(k := anon B)"
  by (simp add: fun_eq_iff)

text \<open>
  A logged order replays to the settlement it had live; but the margin of an order that the book refused
  is not released, as it was live.
\<close>

definition replayed :: "RiskEngine \<Rightarrow> Order \<Rightarrow> Trade list \<Rightarrow> RejectReason + ExecutionReport \<Rightarrow> RiskEngine" where
  "replayed re order ts r = (case r of Inl _ \<Rightarrow> re | Inr _ \<Rightarrow> settled re order ts r)"

lemma replay_logged_order:
  assumes S: "solvent ex Bs U A" and wf: "well_formed order" and nc: "order_type_of order \<noteq> Cancel"
    and ctr: "me_global_order_id_counter (ex_engine ex) \<noteq> - 1"
    and L: "lock_order_funds (ex_risk ex) order = (re, Inr ())"
  defines "s \<equiv> unat (ord_symbol_id order)" and "o1 \<equiv> with_next_id ex order"
  assumes A': "aprocess (Bs s) o1 cid = (B', ts, r)"
    and E0: "engine_rel True e0 (\<lambda>s. anon (Bs s))"
    and c0: "me_global_order_id_counter e0 = me_global_order_id_counter (ex_engine ex)"
  shows "\<exists>e2. (\<forall>tr. \<exists>tr' q. me_replay_order e0 o1 tr (ex_risk ex) = Some (e2, tr', replayed re o1 ts r, q)) \<and>
    engine_rel True e2 (\<lambda>k. anon ((Bs(s := B')) k)) \<and>
    me_global_order_id_counter e2 = me_global_order_id_counter (ex_engine ex) + 1"
proof -
  let ?c = "me_global_order_id_counter (ex_engine ex)"
  note lk = locked_funds [OF S nc L]
  have E: "engine_rel True (ex_engine ex) Bs" and cz: "?c \<noteq> 0" using S by (simp_all add: solvent_def)
  have s: "s < NUM_SYMBOLS" unfolding s_def by (rule lk(1))
  have side: "get_side order \<noteq> None" and nd: "order_type_of order \<noteq> Deposit"
    using wf nc by (auto simp: well_formed_def)
  have room: "level_room (Bs s) order"
    unfolding s_def
    by (rule locked_room [OF lk(3,1) engine_relD(3) [OF E lk(1)] _ side lk(2)]) (use S lk(1) in \<open>simp add: solvent_def\<close>)
  have ad: "admissible (Bs s) o1"
    by (rule ids_below_fresh [OF engine_relD(2) [OF E s]]) (simp_all add: o1_def cz)
  obtain e2 where P: "me_process e0 o1 0 [] = Some (e2, [] @ map anon_trade ts, r)"
    and E2: "engine_rel True e2 ((\<lambda>s. anon (Bs s))(s := anon B'))"
    and c2: "me_global_order_id_counter e2 = max ?c (?c + 1)"
    using me_process_rel [OF E0 s _ _ _ _ _ _ aprocess_anon [OF A'], of "[]"] ctr cz room nc ad
    by (auto simp: o1_def s_def c0 level_room_anon admissible_anon)
  have "?c < ?c + 1" using ctr by (rule word_less_add_one)
  then have "me_global_order_id_counter e2 = ?c + 1" using c2 by (simp add: max_def)
  moreover have "me_replay_order e0 o1 tr (ex_risk ex) = Some (e2, map anon_trade ts, replayed re o1 ts r, Inr ())" for tr
  proof -
    have "lock_order_funds (ex_risk ex) o1 = (re, Inr ())" using L by (simp add: o1_def)
    moreover have "order_type_of o1 \<noteq> Deposit" "order_type_of o1 \<noteq> Cancel" "\<not> NUM_SYMBOLS \<le> unat (ord_symbol_id o1)"
      using nd nc s by (simp_all add: o1_def s_def)
    ultimately show ?thesis
      using P by (cases r) (simp_all add: me_replay_order_def Let_def replayed_def settled_def split: prod.split)
  qed
  ultimately show ?thesis using E2 unfolding anon_fun_upd by blast
qed

text \<open>A logged cancel replays to the same release of margin.\<close>

lemma replay_logged_cancel:
  assumes E: "engine_rel True e0 (\<lambda>s. anon (Bs s))" and s: "s = unat (ord_symbol_id order)" "s < NUM_SYMBOLS"
    and c: "order_type_of order = Cancel"
    and A: "acancel (Bs s) (ord_user_id order) (ord_id order) = (B', Inr cancelled)"
  shows "\<exists>e2. (\<forall>tr. \<exists>tr' q. me_replay_order e0 order tr risk =
      Some (e2, tr', unlock_cancelled_order_margin risk cancelled (ord_qty cancelled), q)) \<and>
    engine_rel True e2 (\<lambda>k. anon ((Bs(s := B')) k)) \<and>
    me_global_order_id_counter e2 = me_global_order_id_counter e0"
proof -
  obtain e2 where e2: "me_cancel_order e0 (ord_symbol_id order) (ord_user_id order) (ord_id order) = Some (e2, Inr cancelled)"
    "engine_rel True e2 ((\<lambda>s. anon (Bs s))(s := anon B'))" "me_global_order_id_counter e2 = me_global_order_id_counter e0"
    using me_cancel_rel [OF E s(2,1) acancel_anon [OF A]] by blast
  moreover have "order_type_of order \<noteq> Deposit" "\<not> NUM_SYMBOLS \<le> unat (ord_symbol_id order)" using c s by simp_all
  ultimately show ?thesis
    unfolding anon_fun_upd using c by (auto simp: me_replay_order_def Let_def intro!: exI [of _ e2])
qed
section \<open>Recoverable runs\<close>

text \<open>
  The runs recovery is exact for: those of \<open>reachable\<close> (a start without a log, then cancels, limit orders and market
  sales with a valid side and no exchange id) in which no book is ever too full to rest an order: then the live
  exchange releases the order's margin, and the replay does not. Again a scope, not all states of the program.
\<close>

inductive recoverable :: "exchange \<Rightarrow> bool" where
  start: "recoverable ex" if "exchange_start None = Some ex"
| turn: "recoverable ex'" if "recoverable ex" "admitted ex m" "handle_inbound ex m now = Some ex'"
    "unat (ord_symbol_id (im_order m)) < NUM_SYMBOLS \<longrightarrow> order_type_of (im_order m) \<noteq> Cancel \<longrightarrow>
       \<not> refused ex (im_order m) (im_client_id m)"

lemma recoverable_reachable: "recoverable ex \<Longrightarrow> reachable ex"
  by (induction rule: recoverable.induct) (blast intro: reachable.intros)+

text \<open>One turn: the log grows by at most one entry, and keeps its promise.\<close>

lemma cancel_recovers:
  assumes S: "solvent ex Bs U A" and R: "recovers ex Bs" and c: "order_type_of order = Cancel"
    and H: "handle_cancel ex order cid now = Some ex'"
  shows "recovers ex' (cancel_books Bs order) \<and>
    (ex_wal ex' = ex_wal ex \<or> ex_wal ex' = ex_wal ex @ [(order, now)])"
proof (cases "unat (ord_symbol_id order) < NUM_SYMBOLS")
  case False
  with H S R show ?thesis
    by (auto simp: handle_cancel_def me_cancel_order_def out_send_def recovers_def solvent_def cancel_books_def)
next
  case s: True
  let ?s = "unat (ord_symbol_id order)"
  have E: "engine_rel True (ex_engine ex) Bs" using S by (simp add: solvent_def)
  obtain B' r where A': "acancel (Bs ?s) (ord_user_id order) (ord_id order) = (B', r)" by (rule prod.exhaust)
  obtain e' where e': "me_cancel_order (ex_engine ex) (ord_symbol_id order) (ord_user_id order) (ord_id order) = Some (e', r)"
    "engine_rel True e' (Bs(?s := B'))" "me_global_order_id_counter e' = me_global_order_id_counter (ex_engine ex)"
    using me_cancel_rel [OF E s refl A'] by blast
  obtain e0 where e0: "replay_all (map fst (ex_wal ex)) MultiAssetEngine_new [] prefunded = Some (e0, ex_risk ex)"
    "engine_rel True e0 (\<lambda>s. anon (Bs s))" "me_global_order_id_counter e0 = me_global_order_id_counter (ex_engine ex)"
    using R by (auto simp: recovers_def)
  show ?thesis
  proof (cases r)
    case (Inl reason)
    with A' have "Bs(?s := B') = Bs" by (auto simp: acancel_def split: option.splits if_splits)
    with e' e0 Inl H A' s show ?thesis
      by (auto simp: handle_cancel_def out_send_def recovers_def cancel_books_def)
  next
    case (Inr cancelled)
    obtain e2 where e2: "\<And>tr. \<exists>tr' q. me_replay_order e0 order tr (ex_risk ex) =
        Some (e2, tr', unlock_cancelled_order_margin (ex_risk ex) cancelled (ord_qty cancelled), q)"
      "engine_rel True e2 (\<lambda>k. anon ((Bs(?s := B')) k))" "me_global_order_id_counter e2 = me_global_order_id_counter e0"
      using replay_logged_cancel [OF e0(2) refl s c A' [unfolded Inr], of "ex_risk ex"] by blast
    have "recovers ex' (Bs(?s := B'))"
      using replay_snoc [OF e0(1) e2(1)] e2(2,3) e0(3) e' H Inr
      by (auto simp: handle_cancel_def out_send_def wal_send_def recovers_def Let_def)
    with e' H Inr A' s show ?thesis
      by (auto simp: handle_cancel_def out_send_def wal_send_def cancel_books_def Let_def)
  qed
qed

lemma order_recovers:
  assumes S: "solvent ex Bs U A" and R: "recovers ex Bs" and wf: "well_formed order"
    and nc: "order_type_of order \<noteq> Cancel" and ctr: "me_global_order_id_counter (ex_engine ex) \<noteq> - 1"
    and nr: "unat (ord_symbol_id order) < NUM_SYMBOLS \<longrightarrow> \<not> refused ex order cid"
    and H: "handle_order ex order cid now = Some ex'"
  shows "recovers ex' (order_books ex Bs order cid) \<and>
    (ex_wal ex' = ex_wal ex \<or> ex_wal ex' = ex_wal ex @ [(with_next_id ex order, now)])"
proof (cases "lock_order_funds (ex_risk ex) order")
  case (Pair re l)
  show ?thesis
  proof (cases l)
    case (Inl reason)
    with Pair lock_error [of "ex_risk ex" order re reason] S R H show ?thesis
      by (auto simp: handle_order_def out_send_def recovers_def solvent_def order_books_def)
  next
    case (Inr _)
    with Pair have L: "lock_order_funds (ex_risk ex) order = (re, Inr ())" by simp
    let ?s = "unat (ord_symbol_id order)"
    obtain B' ts r where A': "aprocess (Bs ?s) (with_next_id ex order) cid = (B', ts, r)" by (rule prod_cases3)
    note run = order_run [OF S wf nc ctr L A']
    have "refused (ex\<lparr>ex_risk := re\<rparr>) order cid = refused ex order cid"
      by (simp add: refused_def assign_id_def me_next_order_id_def)
    then obtain rep where r: "r = Inr rep"
      using nr run(2) locked_funds(1) [OF S nc L] by (cases r) auto
    obtain e0 where e0: "replay_all (map fst (ex_wal ex)) MultiAssetEngine_new [] prefunded = Some (e0, ex_risk ex)"
      "engine_rel True e0 (\<lambda>s. anon (Bs s))" "me_global_order_id_counter e0 = me_global_order_id_counter (ex_engine ex)"
      using R by (auto simp: recovers_def)
    obtain e2 where e2: "\<And>tr. \<exists>tr' q. me_replay_order e0 (with_next_id ex order) tr (ex_risk ex) =
        Some (e2, tr', replayed re (with_next_id ex order) ts r, q)"
      "engine_rel True e2 (\<lambda>k. anon ((Bs(?s := B')) k))"
      "me_global_order_id_counter e2 = me_global_order_id_counter (ex_engine ex) + 1"
      using replay_logged_order [OF S wf nc ctr L A' e0(2,3)] by blast
    from run(1) [of now] obtain e' where e': "ex' = ex\<lparr>ex_risk := settled re (with_next_id ex order) ts r,
        ex_wal := ex_wal ex @ [(with_next_id ex order, now)],
        ex_out := ex_out ex @ order_events cid (with_next_id ex order) B' ts r, ex_engine := e'\<rparr>"
      "engine_rel True e' (Bs(?s := B'))"
      "me_global_order_id_counter e' = me_global_order_id_counter (ex_engine ex) + 1" using H by auto
    have "recovers ex' (Bs(?s := B'))"
      unfolding recovers_def using replay_snoc [OF e0(1) e2(1)] e2(2,3) e'(3) by (auto simp: e'(1) r replayed_def)
    with e' show ?thesis by (simp add: order_books_def L A')
  qed
qed

lemma turn_recovers:
  assumes "solvent ex Bs U A" "recovers ex Bs" "admitted ex m" "handle_inbound ex m now = Some ex'"
    "unat (ord_symbol_id (im_order m)) < NUM_SYMBOLS \<longrightarrow> order_type_of (im_order m) \<noteq> Cancel \<longrightarrow>
       \<not> refused ex (im_order m) (im_client_id m)"
  shows "recovers ex' (books_after ex Bs m) \<and> (ex_wal ex' = ex_wal ex \<or> (\<exists>entry. ex_wal ex' = ex_wal ex @ [entry]))"
proof (cases "order_type_of (im_order m) = Cancel")
  case True
  with cancel_recovers [OF assms(1,2) True, of "im_client_id m" now ex'] assms(4) show ?thesis
    by (auto simp: handle_inbound_def books_after_def)
next
  case False
  with order_recovers [OF assms(1,2) _ False, of "im_client_id m" now ex'] assms(3-5) show ?thesis
    by (auto simp: handle_inbound_def admitted_def books_after_def)
qed

lemma recoverable_recovers: "recoverable ex \<Longrightarrow> \<exists>Bs. solvent ex Bs start_usd start_assets \<and> recovers ex Bs"
proof (induction rule: recoverable.induct)
  case (start ex)
  have "recovers ex (\<lambda>_. abook_new)"
    using start engine_new_rel by (auto simp: exchange_start_eq recovers_def)
  with start_solvent [OF start] show ?case by blast
next
  case (turn ex m now ex')
  then obtain Bs where Bs: "solvent ex Bs start_usd start_assets" "recovers ex Bs" by blast
  from turn_solvent [OF Bs(1) turn.hyps(2), of now] turn.hyps(3)
  have "solvent ex' (books_after ex Bs m) start_usd start_assets" by simp
  with turn_recovers [OF Bs turn.hyps(2-4)] show ?case by blast
qed

text \<open>Every prefix of the log is the log of an earlier state.\<close>

lemma recoverable_prefix: "recoverable ex \<Longrightarrow> \<exists>ex0. recoverable ex0 \<and> ex_wal ex0 = take k (ex_wal ex)"
proof (induction arbitrary: k rule: recoverable.induct)
  case (start ex)
  with recoverable.start [OF start] show ?case by (auto simp: exchange_start_eq)
next
  case (turn ex m now ex')
  from recoverable_recovers [OF turn.hyps(1)] obtain Bs where Bs: "solvent ex Bs start_usd start_assets" "recovers ex Bs"
    by blast
  show ?case
  proof (cases "ex_wal ex' = take k (ex_wal ex')")
    case True
    with recoverable.turn [OF turn.hyps] show ?thesis by auto
  next
    case False
    then have "take k (ex_wal ex') = take k (ex_wal ex)"
      using turn_recovers [OF Bs turn.hyps(2-4)] by (cases "k \<le> length (ex_wal ex)") auto
    with turn.IH show ?thesis by auto
  qed
qed

section \<open>Recovery\<close>

lemma start_replays:
  assumes R: "recovers ex Bs" and r: "map snd records = map fst (ex_wal ex)"
  shows "\<exists>ex1. exchange_start (Some (Inr records)) = Some ex1 \<and> ex_risk ex1 = ex_risk ex \<and>
    (\<forall>s<NUM_SYMBOLS. book_rel True (vfun (me_books (ex_engine ex1)) s) (anon (Bs s)))"
proof -
  obtain e where e: "replay_all (map fst (ex_wal ex)) MultiAssetEngine_new [] prefunded = Some (e, ex_risk ex)"
    "engine_rel True e (\<lambda>s. anon (Bs s))"
    using R by (auto simp: recovers_def)
  show ?thesis
  proof (cases "records = []")
    case True
    with r e show ?thesis by (auto simp: exchange_start_def engine_rel_def)
  next
    case False
    with r e show ?thesis by (auto simp: exchange_start_def engine_rel_def me_next_order_id_def Let_def)
  qed
qed

text \<open>A start from a prefix of the log rebuilds the earlier state that had it.\<close>

lemma restart_prefix:
  assumes "recoverable ex"
  shows "\<exists>ex0 ex1 Bs. recoverable ex0 \<and> ex_wal ex0 = take k (ex_wal ex) \<and>
    (take k (ex_wal ex) = ex_wal ex \<longrightarrow> ex0 = ex) \<and>
    exchange_start (Some (Inr (log_records C 1 (take k (ex_wal ex))))) = Some ex1 \<and>
    ex_risk ex1 = ex_risk ex0 \<and> engine_rel True (ex_engine ex0) Bs \<and>
    (\<forall>s<NUM_SYMBOLS. book_rel True (vfun (me_books (ex_engine ex1)) s) (anon (Bs s)))"
proof -
  obtain ex0 where ex0: "recoverable ex0" "ex_wal ex0 = take k (ex_wal ex)" "take k (ex_wal ex) = ex_wal ex \<longrightarrow> ex0 = ex"
    using recoverable_prefix [OF assms, of k] assms by metis
  obtain Bs where Bs: "solvent ex0 Bs start_usd start_assets" "recovers ex0 Bs"
    using recoverable_recovers [OF ex0(1)] by blast
  have "map snd (log_records C 1 (take k (ex_wal ex))) = map fst (ex_wal ex0)" by (simp add: snd_log_records ex0(2))
  moreover have "engine_rel True (ex_engine ex0) Bs" using Bs(1) by (simp add: solvent_def)
  ultimately show ?thesis using start_replays [OF Bs(2)] ex0 by blast
qed

text \<open>C2. Crash recovery, end to end, for a run that starts without a log, on a log file it creates, and takes only
  cancels, limit orders and market sales with a valid side and no exchange id, none of which a full book refuses
  (\<open>recoverable\<close>; a refused order's margin, an order of type \<open>Deposit\<close> and a torn older log are replayed
  differently). It logs through the logger thread, the machine crashes at any moment, with any number of entries still
  queued or buffered, and the file is cut anywhere after its synced part. The next start then succeeds and rebuilds, bit
  by bit in the accounts and order by order in the books (client ids aside), a state the exchange was in; and when the
  logger had caught up, the very last one.\<close>

theorem crash_recovery:
  assumes "recoverable ex" and "wal_format C" and "w = fst (wal_thread C (WalWriter_new C None) msgs)"
    and "map fst msgs = take j (ex_wal ex)" and "ww_synced w \<le> n"
  shows "\<exists>ex0 ex1 Bs. recoverable ex0 \<and> (\<exists>k. ex_wal ex0 = take k (ex_wal ex)) \<and>
    exchange_start (Some (read_all C (take n (ww_file w)))) = Some ex1 \<and>
    ex_risk ex1 = ex_risk ex0 \<and> engine_rel True (ex_engine ex0) Bs \<and>
    (\<forall>s<NUM_SYMBOLS. book_rel True (vfun (me_books (ex_engine ex1)) s) (anon (Bs s))) \<and>
    (msgs \<noteq> [] \<and> snd (last msgs) \<and> length (ex_wal ex) \<le> j \<longrightarrow> ex0 = ex)"
proof -
  obtain k where rd: "read_all C (take n (ww_file w)) = Inr (log_records C 1 (take k (ex_wal ex)))"
    and k: "msgs \<noteq> [] \<and> snd (last msgs) \<and> length (ex_wal ex) \<le> j \<longrightarrow> take k (ex_wal ex) = ex_wal ex"
  proof (cases "msgs \<noteq> [] \<and> snd (last msgs)")
    case True
    with wal_format.crash_nothing_lost [OF assms(2,3,5)] assms(4) that [of j] show thesis by simp
  next
    case False
    with wal_format.crash_prefix [OF assms(2,3,5)] assms(4) that show thesis
      by (simp only: take_log_records take_take) blast
  qed
  from restart_prefix [OF assms(1), of k C] k show ?thesis unfolding rd by blast
qed

lemma demo_recoverable: "\<exists>ex ex'. exchange_start None = Some ex \<and> handle_inbound ex demo_sell 0 = Some ex' \<and> recoverable ex'"
proof -
  obtain ex where ex: "exchange_start None = Some ex" using exchange_start_eq by blast
  obtain ex' where ex': "handle_inbound ex demo_sell 0 = Some ex'"
    using turn_solvent [OF start_solvent [OF ex] demo_admitted [OF ex], of 0] by blast
  have "\<not> refused ex (im_order demo_sell) (im_client_id demo_sell)"
    if "unat (ord_symbol_id (im_order demo_sell)) < NUM_SYMBOLS"
    using not_refused [OF start_solvent [OF ex] demo_sell_wf(1) _ refl _ that demo_sell_wf(2)] ex
    by (auto simp: exchange_start_eq MultiAssetEngine_new_def abook_new_def MAX_ARENA_ORDERS_def MAX_PRICE_LEVELS_def)
  with recoverable.turn [OF recoverable.start [OF ex] demo_admitted [OF ex] ex'] ex ex' show ?thesis by blast
qed

theorem crash_recovery_witness:
  "\<exists>ex ex0 ex1. handle_inbound (the (exchange_start None)) demo_sell 0 = Some ex \<and> recoverable ex0 \<and>
     ex_risk ex1 = ex_risk ex0 \<and>
     (let w = fst (wal_thread (repr_c Little) (WalWriter_new (repr_c Little) None) (map (\<lambda>x. (x, True)) (ex_wal ex)))
      in exchange_start (Some (read_all (repr_c Little) (take (ww_synced w) (ww_file w)))) = Some ex1)"
proof -
  obtain ex where ex: "handle_inbound (the (exchange_start None)) demo_sell 0 = Some ex" "recoverable ex"
    using demo_recoverable by auto
  have "map fst (map (\<lambda>x. (x, True)) (ex_wal ex)) = take (length (ex_wal ex)) (ex_wal ex)"
    by (simp add: comp_def)
  from crash_recovery [OF ex(2) wal_layout.wal_format_axioms refl this order.refl, of Little] ex(1)
  show ?thesis unfolding Let_def by blast
qed

end
