(* ===== verification/Pipeline.thy ===== *)
theory Pipeline
  imports Solvency
begin

text \<open>
  What clients see of the pipeline of \<open>src/bin/exchange.rs\<close>: the events of one turn of the engine thread,
  and what the egress dispatcher makes of a stream of events.
\<close>

section \<open>One turn\<close>

fun answers :: "u64 \<Rightarrow> OutboundEvent \<Rightarrow> bool" where
  "answers cid (ClientAck c _) = (c = cid)"
| "answers cid (ClientReject c _) = (c = cid)"
| "answers cid (ClientCancelOk c _) = (c = cid)"
| "answers cid _ = False"

fun rejects :: "OutboundEvent \<Rightarrow> bool" where
  "rejects (ClientReject _ _) = True"
| "rejects _ = False"

definition answered :: "exchange \<Rightarrow> u64 \<Rightarrow> u64 \<Rightarrow> exchange \<Rightarrow> bool" where
  "answered ex cid now ex' \<longleftrightarrow>
     (\<exists>e out. ex_out ex' = ex_out ex @ e # out \<and> answers cid e \<and>
        (if rejects e then ex_wal ex' = ex_wal ex \<and> out = []
         else \<exists>order. ex_wal ex' = ex_wal ex @ [(order, now)]))"

lemma answered_reject:
  "ex_out ex' = ex_out ex @ [ClientReject cid msg] \<Longrightarrow> ex_wal ex' = ex_wal ex \<Longrightarrow> answered ex cid now ex'"
  unfolding answered_def by (rule exI [of _ "ClientReject cid msg"]) simp

lemma answered_accept:
  "ex_out ex' = ex_out ex @ e # out \<Longrightarrow> answers cid e \<Longrightarrow> \<not> rejects e \<Longrightarrow> ex_wal ex' = ex_wal ex @ [(order, now)] \<Longrightarrow>
     answered ex cid now ex'"
  unfolding answered_def by (rule exI [of _ e], rule exI [of _ out]) simp

lemma cancel_answered:
  assumes S: "solvent ex Bs U A" and H: "handle_cancel ex order cid now = Some ex'"
  shows "answered ex cid now ex'"
proof -
  obtain e r where "me_cancel_order (ex_engine ex) (ord_symbol_id order) (ord_user_id order) (ord_id order) = Some (e, r)"
    using H by (auto simp: handle_cancel_def bind_eq_Some_conv)
  note me = this
  show ?thesis
  proof (cases r)
    case (Inl reason)
    with H me show ?thesis
      by (auto simp: handle_cancel_def out_send_def reject_event_def intro!: answered_reject)
  next
    case (Inr cancelled)
    with H me show ?thesis
      by (auto simp: handle_cancel_def out_send_def wal_send_def Let_def intro!: answered_accept)
  qed
qed

lemma order_answered:
  assumes S: "solvent ex Bs U A" and wf: "well_formed order" and nc: "order_type_of order \<noteq> Cancel"
    and ctr: "me_global_order_id_counter (ex_engine ex) \<noteq> - 1"
    and H: "handle_order ex order cid now = Some ex'"
  shows "answered ex cid now ex'"
proof (cases "lock_order_funds (ex_risk ex) order")
  case (Pair re l)
  show ?thesis
  proof (cases l)
    case (Inl reason)
    with Pair H show ?thesis
      by (auto simp: handle_order_def out_send_def reject_event_def lock_error intro!: answered_reject)
  next
    case (Inr _)
    with Pair have L: "lock_order_funds (ex_risk ex) order = (re, Inr ())" by simp
    obtain B' ts r where A': "aprocess (Bs (unat (ord_symbol_id order))) (with_next_id ex order) cid = (B', ts, r)"
      by (rule prod_cases3)
    from order_run(1) [OF S wf nc ctr L A', of now] H show ?thesis
      by (auto simp: order_events_def ack_event_def intro!: answered_accept)
  qed
qed

section \<open>What a turn sends\<close>

lemma exchange_start_empty: "exchange_start wal = Some ex \<Longrightarrow> ex_wal ex = [] \<and> ex_out ex = []"
  by (auto simp: exchange_start_def Let_def bind_eq_Some_conv me_next_order_id_def
      split: option.splits sum.splits if_splits)

text \<open>Every event the exchange sends carries the protocol magic and the message type of its kind.\<close>

definition typed :: "ServerMsgType \<Rightarrow> ServerMessage \<Rightarrow> bool" where
  "typed k m \<longleftrightarrow> sm_magic m = ORDER_MAGIC \<and> sm_msg_type m = ServerMsgType_as k"

primrec event_typed :: "OutboundEvent \<Rightarrow> bool" where
  "event_typed (ClientAck c m) = typed Accepted m"
| "event_typed (ClientReject c m) = typed Rejected m"
| "event_typed (ClientCancelOk c m) = typed Cancelled m"
| "event_typed (TradeFill tc mc tm mm) = (typed Filled tm \<and> typed Filled mm)"
| "event_typed (BboBroadcast m) = typed Bbo m"

lemma typed_events [simp]:
  "event_typed (reject_event c order e)" "event_typed (ack_event c order)" "event_typed (fill_event t)"
  "event_typed (bbo_event order q)"
  by (simp_all add: reject_event_def ack_event_def fill_event_def bbo_event_def typed_def sm_reject_def sm_ack_def
      sm_fill_def sm_bbo_def split: prod.split)

lemma typed_cancel_ok [simp]: "typed Cancelled (sm_cancel_ok i j u s q)"
  by (simp add: typed_def sm_cancel_ok_def)

lemma event_typed_fills [simp]: "list_all event_typed (map fill_event ts)"
  by (simp add: list_all_iff)

text \<open>A turn only appends to the log and to the events, and what it sends is typed.\<close>

definition appends :: "exchange \<Rightarrow> exchange \<Rightarrow> bool" where
  "appends ex ex' \<longleftrightarrow>
     (\<exists>w out. ex_wal ex' = ex_wal ex @ w \<and> ex_out ex' = ex_out ex @ out \<and> list_all event_typed out)"

lemma appends_trans: "appends ex ex' \<Longrightarrow> appends ex' ex'' \<Longrightarrow> appends ex ex''"
  by (auto simp: appends_def)

lemma handle_report_appends: "handle_report ex order c rep ts = Some ex' \<Longrightarrow> appends ex ex'"
  by (auto simp: handle_report_def settle_and_report_eq out_send_def Let_def bind_eq_Some_conv appends_def
      split: prod.splits if_splits option.splits)

lemma handle_order_appends:
  assumes H: "handle_order ex order c now = Some ex'"
  shows "appends ex ex'"
proof (cases "lock_order_funds (ex_risk ex) order")
  case L: (Pair re l)
  obtain ex1 o1 where A: "assign_id (ex\<lparr>ex_risk := re\<rparr>) order = (ex1, o1)" by (rule prod.exhaust)
  then have E1: "ex_wal ex1 = ex_wal ex" "ex_out ex1 = ex_out ex"
    by (auto simp: assign_id_def Let_def split: prod.splits if_splits)
  show ?thesis
  proof (cases l)
    case (Inl e)
    with H L show ?thesis by (auto simp: handle_order_def out_send_def appends_def)
  next
    case (Inr u)
    with H L A obtain e ts r where P: "me_process (ex_engine ex1) o1 c [] = Some (e, ts, r)"
      by (auto simp: handle_order_def out_send_def wal_send_def bind_eq_Some_conv)
    let ?ex = "ex1\<lparr>ex_wal := ex_wal ex1 @ [(o1, now)], ex_out := ex_out ex1 @ [ack_event c o1], ex_engine := e\<rparr>"
    have "appends ex ?ex" using E1 by (simp add: appends_def)
    moreover have "appends ?ex ex'"
    proof (cases r)
      case (Inl reason)
      with H L A Inr P show ?thesis by (auto simp: handle_order_def out_send_def wal_send_def appends_def)
    next
      case (Inr rep)
      with H L A \<open>l = Inr u\<close> P show ?thesis
        by (auto simp: handle_order_def out_send_def wal_send_def dest!: handle_report_appends)
    qed
    ultimately show ?thesis by (rule appends_trans)
  qed
qed

lemma handle_cancel_appends:
  assumes H: "handle_cancel ex order c now = Some ex'"
  shows "appends ex ex'"
proof -
  obtain e r where "me_cancel_order (ex_engine ex) (ord_symbol_id order) (ord_user_id order) (ord_id order) = Some (e, r)"
    using H by (auto simp: handle_cancel_def bind_eq_Some_conv)
  with H show ?thesis by (cases r) (auto simp: handle_cancel_def out_send_def wal_send_def Let_def appends_def)
qed

lemma turn_appends: "handle_inbound ex m now = Some ex' \<Longrightarrow> appends ex ex'"
  using handle_order_appends handle_cancel_appends by (auto simp: handle_inbound_def Let_def split: if_splits)

section \<open>The dispatcher\<close>

text \<open>The messages of an event for one client, in the order they are sent.\<close>

fun inbox :: "u64 \<Rightarrow> OutboundEvent \<Rightarrow> ServerMessage list" where
  "inbox c (ClientAck client msg) = (if client = c then [msg] else [])"
| "inbox c (ClientReject client msg) = (if client = c then [msg] else [])"
| "inbox c (ClientCancelOk client msg) = (if client = c then [msg] else [])"
| "inbox c (TradeFill taker maker taker_msg maker_msg) =
     (if taker = c then [taker_msg] else []) @ (if maker = c then [maker_msg] else [])"
| "inbox c (BboBroadcast msg) = [msg]"

text \<open>A channel that is given messages one after the other, until one does not fit.\<close>

primrec feed :: "('sender \<Rightarrow> ServerMessage \<Rightarrow> 'sender option) \<Rightarrow> 'sender \<Rightarrow> ServerMessage list \<Rightarrow> 'sender option" where
  "feed try_send tx [] = Some tx"
| "feed try_send tx (m # ms) = Option.bind (try_send tx m) (\<lambda>tx. feed try_send tx ms)"

definition dispatch_all ::
  "('sender \<Rightarrow> ServerMessage \<Rightarrow> 'sender option) \<Rightarrow> OutboundEvent list \<Rightarrow> 'sender senders \<Rightarrow> 'sender senders" where
  "dispatch_all try_send events client_senders = fold (on_outbound try_send) events client_senders"

lemma feed_append: "feed f tx (ms @ ns) = Option.bind (feed f tx ms) (\<lambda>tx. feed f tx ns)"
  by (induction ms arbitrary: tx) (simp_all add: bind_assoc)

lemma deliver_at:
  "deliver f c msg senders c' = Option.bind (senders c') (\<lambda>tx. feed f tx (if c = c' then [msg] else []))"
  by (auto simp: deliver_def split: option.split)

lemma on_outbound_at: "on_outbound f e senders c = Option.bind (senders c) (\<lambda>tx. feed f tx (inbox c e))"
  by (cases e) (auto simp: on_outbound_def deliver_at broadcast_def feed_append bind_assoc
      split: option.split Option.bind_split)

lemma dispatch_at:
  "dispatch_all f events senders c = Option.bind (senders c) (\<lambda>tx. feed f tx (concat (map (inbox c) events)))"
proof (induction events arbitrary: senders)
  case Nil
  show ?case by (simp add: dispatch_all_def)
next
  case (Cons e es)
  then show ?case by (simp add: dispatch_all_def on_outbound_at feed_append bind_assoc)
qed

section \<open>Guarantees to the clients\<close>

text \<open>C13. Every message is answered first, and logged when accepted: in every reachable state, the first event of an
  admitted message's turn is an answer to its sender. If it is a rejection, nothing else happens: no
  further event, no log entry; if it is an acknowledgement, exactly one entry has been handed to the log.\<close>

theorem sender_answered:
  assumes "reachable ex" and "admitted ex m"
  shows "\<exists>ex' e out. handle_inbound ex m now = Some ex' \<and> ex_out ex' = ex_out ex @ e # out \<and>
    answers (im_client_id m) e \<and>
    (if rejects e then ex_wal ex' = ex_wal ex \<and> out = []
     else \<exists>order. ex_wal ex' = ex_wal ex @ [(order, now)])"
proof -
  obtain Bs where S: "solvent ex Bs start_usd start_assets" using reachable_solvent [OF assms(1)] by blast
  obtain ex' where H: "handle_inbound ex m now = Some ex'" using turn_solvent [OF S assms(2), of now] by blast
  have "answered ex (im_client_id m) now ex'"
    using cancel_answered [OF S] order_answered [OF S] H assms(2)
    by (auto simp: handle_inbound_def admitted_def Let_def split: if_splits)
  with H show ?thesis by (auto simp: answered_def)
qed

theorem sender_answered_witness:
  "\<exists>ex ex' e out. exchange_start None = Some ex \<and> handle_inbound ex demo_sell 12 = Some ex' \<and>
     ex_out ex' = ex_out ex @ e # out \<and> answers 3 e"
proof -
  obtain ex where ex: "exchange_start None = Some ex" using exchange_start_eq by blast
  have "im_client_id demo_sell = 3" by (simp add: demo_sell_def)
  with sender_answered [OF reachable.start [OF ex] demo_admitted [OF ex], of 12] ex show ?thesis by auto
qed

text \<open>C12. What an accepted order reports is what the matching did: in every reachable state the events of an admitted
  order whose funds could be locked are, in this order, the acknowledgement, one pair of execution reports
  for each trade of the specification's matching, the rejection of a remainder that self-trade prevention
  cancelled, and the quotes of the book after the order (or, from a full book, a rejection).\<close>

theorem order_turn_events:
  assumes "reachable ex" and "admitted ex m" and "order_type_of (im_order m) \<noteq> Cancel"
    and "lock_order_funds (ex_risk ex) (im_order m) = (re, Inr ())"
  shows "\<exists>ex' Bs B' ts r. handle_inbound ex m now = Some ex' \<and> engine_rel True (ex_engine ex) Bs \<and>
    aprocess (Bs (unat (ord_symbol_id (im_order m)))) (with_next_id ex (im_order m)) (im_client_id m) = (B', ts, r) \<and>
    engine_rel True (ex_engine ex') (Bs(unat (ord_symbol_id (im_order m)) := B')) \<and>
    ex_out ex' = ex_out ex @ order_events (im_client_id m) (with_next_id ex (im_order m)) B' ts r"
proof -
  obtain Bs where S: "solvent ex Bs start_usd start_assets" using reachable_solvent [OF assms(1)] by blast
  obtain B' ts r where A': "aprocess (Bs (unat (ord_symbol_id (im_order m)))) (with_next_id ex (im_order m))
      (im_client_id m) = (B', ts, r)" by (rule prod_cases3)
  have "well_formed (im_order m)" "me_global_order_id_counter (ex_engine ex) \<noteq> - 1"
    using assms(2) by (simp_all add: admitted_def)
  from order_run(1) [OF S this(1) assms(3) this(2) assms(4) A', of now] obtain ex' where
    "handle_order ex (im_order m) (im_client_id m) now = Some ex'"
    "engine_rel True (ex_engine ex') (Bs(unat (ord_symbol_id (im_order m)) := B'))"
    "ex_out ex' = ex_out ex @ order_events (im_client_id m) (with_next_id ex (im_order m)) B' ts r" by auto
  moreover have "engine_rel True (ex_engine ex) Bs" using S by (simp add: solvent_def)
  ultimately show ?thesis
    using A' assms(3) by (intro exI [of _ ex'] exI [of _ Bs] exI [of _ B'] exI [of _ ts] exI [of _ r])
      (simp add: handle_inbound_def)
qed

lemma demo_lock: "\<exists>re. lock_order_funds prefunded (im_order demo_sell) = (re, Inr ())"
  by (simp add: lock_order_funds_def prefunded_def deposit_def RiskEngine_new_def Account_new_def Let_def demo_sell_def
      NUM_SYMBOLS_def ob_simps)

theorem order_turn_events_witness:
  "\<exists>ex ex' B' ts r. exchange_start None = Some ex \<and> handle_inbound ex demo_sell 12 = Some ex' \<and>
     ex_out ex' = order_events 3 (with_next_id ex (im_order demo_sell)) B' ts r"
proof -
  obtain ex where ex: "exchange_start None = Some ex" using exchange_start_eq by blast
  then have p: "ex_risk ex = prefunded" "ex_out ex = []" by (auto simp: exchange_start_eq)
  obtain re where re: "lock_order_funds (ex_risk ex) (im_order demo_sell) = (re, Inr ())" using demo_lock p by auto
  have "im_client_id demo_sell = 3" by (simp add: demo_sell_def)
  with order_turn_events [OF reachable.start [OF ex] demo_admitted [OF ex] demo_sell_wf(2) re, of 12] ex p(2)
  show ?thesis by auto
qed

text \<open>C30. The dispatcher keeps clients apart: whatever the events and however its channels fail, the channel of every
  client is fed exactly the messages addressed to it, in order, until the first that does not fit, and no
  client's failure affects another's messages.\<close>

theorem egress_isolated:
  "dispatch_all try_send events senders c =
     Option.bind (senders c) (\<lambda>tx. feed try_send tx (concat (map (inbox c) events)))"
  by (rule dispatch_at)

end
