(* ===== verification/Service.thy ===== *)
theory Service
  imports Pipeline
begin

text \<open>
  The engine thread under any traffic. Whatever orders the gateway lets through (market buys, orders of type
  \<open>Deposit\<close>, unknown side bytes and symbols included, which the invariant of the accounts leaves out), no
  turn panics or diverges: the structure of the books, without their cached totals, is an invariant of all of
  them. And every turn, whatever its message, leaves the same kind of trace: an answer to the sender first, and
  one log entry unless the answer is a rejection.
\<close>

section \<open>What the gateway lets through\<close>

definition from_gateway :: "InboundMessage \<Rightarrow> bool" where
  "from_gateway m \<longleftrightarrow> order_type_of (im_order m) = Cancel \<or> ord_id (im_order m) = 0"

lemma quarantine_from_gateway: "order_type_of (quarantine order) = Cancel \<or> ord_id (quarantine order) = 0"
  by (simp add: quarantine_eq order_type_of_def)

text \<open>Whatever bytes a connection sends.\<close>

lemma frame_from_gateway: "ingress_frame h cid raw = Some m \<Longrightarrow> from_gateway m"
  using quarantine_from_gateway [of "Order_from_le h raw"]
  by (auto simp: from_gateway_def ingress_frame_def Let_def split: if_splits)

lemma reader_from_gateway: "m \<in> set (reader_loop from_bytes h cid bytes) \<Longrightarrow> from_gateway m"
  using frame_from_gateway reader_loop_nth unfolding in_set_conv_nth by metis

lemma demo_from_gateway: "from_gateway demo_sell"
  using demo_sell_wf by (auto simp: from_gateway_def well_formed_def)

section \<open>What a turn leaves behind\<close>

text \<open>
  The events and the log entries of one message's turn: a rejection and nothing else; a cancel with its entry and its
  acknowledgement; or an order, logged and acknowledged under the id it was given, and then refused by a full book, or
  executed: one pair of reports per trade of this order for this client, the rejection of what self-trade prevention
  stopped, and the quotes.
\<close>

definition under_id :: "Order \<Rightarrow> Order \<Rightarrow> bool" where
  "under_id received order \<longleftrightarrow> order_type_of received \<noteq> Cancel \<and> order = received\<lparr>ord_id := ord_id order\<rparr>"

inductive turn_of :: "InboundMessage \<Rightarrow> OutboundEvent list \<Rightarrow> Order list \<Rightarrow> bool" where
  rejected: "turn_of m [reject_event (im_client_id m) (im_order m) reason] []"
| cancelled: "order_type_of (im_order m) = Cancel \<Longrightarrow> turn_of m [ClientCancelOk (im_client_id m) msg] [im_order m]"
| refused: "under_id (im_order m) order \<Longrightarrow>
    turn_of m [ack_event (im_client_id m) order, reject_event (im_client_id m) order reason] [order]"
| executed: "under_id (im_order m) order \<Longrightarrow>
    \<forall>t\<in>set ts. tr_taker_client_id t = im_client_id m \<and> tr_taker_order_id t = ord_id order \<Longrightarrow>
    stp \<in> {[], [reject_event (im_client_id m) order SelfTradePrevented]} \<Longrightarrow>
    turn_of m (ack_event (im_client_id m) order # map fill_event ts @ stp @ [bbo_event order quotes]) [order]"

text \<open>A stream of messages with the events and the log it led to, turn by turn.\<close>

inductive transcript :: "InboundMessage list \<Rightarrow> OutboundEvent list \<Rightarrow> Order list \<Rightarrow> bool" where
  none: "transcript [] [] []"
| turn: "transcript ms events log \<Longrightarrow> turn_of m evs logged \<Longrightarrow>
    transcript (ms @ [m]) (events @ evs) (log @ logged)"

definition leaves :: "InboundMessage \<Rightarrow> exchange \<Rightarrow> exchange \<Rightarrow> bool" where
  "leaves m ex ex' \<longleftrightarrow>
     (\<exists>evs w. ex_out ex' = ex_out ex @ evs \<and> ex_wal ex' = ex_wal ex @ w \<and> turn_of m evs (map fst w))"

lemma leavesI:
  "turn_of m evs logged \<Longrightarrow> ex_out ex' = ex_out ex @ evs \<Longrightarrow> ex_wal ex' = ex_wal ex @ map (\<lambda>order. (order, now)) logged \<Longrightarrow>
     leaves m ex ex'"
  unfolding leaves_def by (intro exI [of _ evs] exI [of _ "map (\<lambda>order. (order, now)) logged"]) (simp add: o_def)

section \<open>Every turn ends\<close>

text \<open>After \<open>n\<close> turns the ids handed out are at most \<open>n\<close>.\<close>

definition serving :: "exchange \<Rightarrow> nat \<Rightarrow> bool" where
  "serving ex n \<longleftrightarrow>
     (\<exists>Bs. engine_rel False (ex_engine ex) Bs) \<and> me_global_order_id_counter (ex_engine ex) \<noteq> 0 \<and>
     unat (me_global_order_id_counter (ex_engine ex)) \<le> Suc n"

lemma servingI:
  "engine_rel False (ex_engine ex) Bs \<Longrightarrow> me_global_order_id_counter (ex_engine ex) = c \<Longrightarrow> c \<noteq> 0 \<Longrightarrow>
     unat c \<le> Suc n \<Longrightarrow> serving ex n"
  by (auto simp: serving_def)

lemma start_serving: "exchange_start None = Some ex \<Longrightarrow> serving ex 0"
  using engine_new_rel [of False] unfolding serving_def exchange_start_eq by (fastforce simp: MultiAssetEngine_new_def)

lemma id_room:
  assumes "unat (c :: u64) \<le> Suc n" "Suc n < 2 ^ 64 - 1"
  shows "c \<noteq> - 1" "c < c + 1" "c + 1 \<noteq> 0" "unat (c + 1) \<le> Suc (Suc n)"
proof -
  show c: "c \<noteq> - 1" using assms by (auto simp: unat_minus_one)
  show "c < c + 1" by (rule word_less_add_one [OF c])
  then show "c + 1 \<noteq> 0" by auto
  show "unat (c + 1) \<le> Suc (Suc n)" using assms by (simp add: unat_add_small)
qed

lemma handle_report_total:
  assumes E: "engine_rel tq (ex_engine ex) Bs" and s: "unat (ord_symbol_id order) < NUM_SYMBOLS"
  shows "\<exists>ex' stp q. handle_report ex order cid rep ts = Some ex' \<and> ex_engine ex' = ex_engine ex \<and> ex_wal ex' = ex_wal ex \<and>
    ex_out ex' = ex_out ex @ map fill_event ts @ stp @ [bbo_event order q] \<and>
    stp \<in> {[], [reject_event cid order SelfTradePrevented]}"
proof -
  let ?b = "vfun (me_books (ex_engine ex)) (unat (ord_symbol_id order))"
  obtain bid ask where "get_bbo ?b = Some (bid, ask)" using get_bbo_total [OF engine_relD(1) [OF E s]] by fastforce
  moreover have "me_get_book (ex_engine ex) (ord_symbol_id order) = Some ?b"
    using s engine_relD(4) [OF E s] by (simp add: me_get_book_def)
  moreover obtain re n c where "settle_all (ex_risk ex) (ord_price order) ts = (re, n, c)" by (rule prod_cases3)
  ultimately show ?thesis
    by (cases "er_stp_triggered rep \<and> er_remaining_qty rep > 0")
      (auto simp: handle_report_def settle_and_report_eq out_send_def Let_def)
qed

lemma aprocess_taker:
  assumes "abook_ok B" "order_type_of order \<noteq> Cancel" "ord_id order \<noteq> 0" "aprocess B order cid = (B', ts, r)"
  shows "\<forall>t\<in>set ts. tr_taker_client_id t = cid \<and> tr_taker_order_id t = ord_id order"
proof (rule aprocess_exec [OF assms(1,2,4)])
  fix i rm
  let ?s = "ord_side order = Side_as Sell"
  assume "fills cid (ab_trade_ctr B) (stamped B order) (flat (aside (\<not> ?s) B)) i (flat (aside (\<not> ?s) B')) ts rm"
  from fills_trades [OF this] assms(3) show ?thesis
    by (fastforce simp: mk_trade_def stamped_def Let_def split: prod.splits)
qed

lemma locked_symbol:
  "lock_order_funds re order = (re', Inr ()) \<Longrightarrow> order_type_of order \<noteq> Cancel \<Longrightarrow> unat (ord_symbol_id order) < NUM_SYMBOLS"
  by (auto simp: lock_order_funds_def order_type_of_def Let_def split: if_splits)

lemma handle_order_total:
  fixes m :: InboundMessage and ex :: exchange
  defines "order \<equiv> im_order m" and "cid \<equiv> im_client_id m"
  assumes S: "serving ex n" and n: "Suc n < 2 ^ 64 - 1" and nc: "order_type_of order \<noteq> Cancel" and id0: "ord_id order = 0"
  shows "\<exists>ex'. handle_order ex order cid now = Some ex' \<and> serving ex' (Suc n) \<and> leaves m ex ex'"
proof -
  let ?c = "me_global_order_id_counter (ex_engine ex)" and ?o = "with_next_id ex order"
  let ?s = "unat (ord_symbol_id order)"
  obtain Bs where E: "engine_rel False (ex_engine ex) Bs" and c0: "?c \<noteq> 0" and c: "unat ?c \<le> Suc n"
    using S by (auto simp: serving_def)
  note room = id_room [OF c n]
  obtain re l where L: "lock_order_funds (ex_risk ex) order = (re, l)" by (rule prod.exhaust)
  show ?thesis
  proof (cases l)
    case (Inl e)
    let ?ex = "out_send (ex\<lparr>ex_risk := re\<rparr>) (reject_event cid order e)"
    have "leaves m ex ?ex"
      by (rule leavesI [OF turn_of.rejected [of m e], of _ _ now]) (simp_all add: order_def cid_def out_send_def)
    moreover have "serving ?ex (Suc n)" by (rule servingI [of _ Bs ?c]) (use E c0 c in \<open>simp_all add: out_send_def\<close>)
    ultimately show ?thesis using L Inl by (simp add: handle_order_def)
  next
    case (Inr u)
    with L nc have s: "?s < NUM_SYMBOLS" using locked_symbol by auto
    let ?e = "(ex_engine ex)\<lparr>me_global_order_id_counter := ?c + 1\<rparr>"
    have E1: "engine_rel False ?e Bs" by (rule counter_upd [OF E]) (use room(2) in simp)
    have ad: "admissible (Bs ?s) ?o"
      by (rule ids_below_fresh [OF engine_relD(2) [OF E s]]) (simp_all add: c0)
    obtain B' ts r where A: "aprocess (Bs ?s) ?o cid = (B', ts, r)" by (rule prod_cases3)
    obtain e' where P: "me_process ?e ?o cid [] = Some (e', [] @ ts, r)" and E': "engine_rel False e' (Bs(?s := B'))"
      and c': "me_global_order_id_counter e' = max (?c + 1) (?c + 1)"
      using me_process_rel [OF E1 s _ _ _ ad _ _ A, of "[]"] room(1) c0 nc by auto
    let ?ex1 = "ex\<lparr>ex_risk := re, ex_wal := ex_wal ex @ [(?o, now)], ex_out := ex_out ex @ [ack_event cid ?o], ex_engine := e'\<rparr>"
    let ?full = "\<lambda>e. out_send (?ex1\<lparr>ex_risk := unlock_cancelled_order_margin re ?o (ord_qty ?o)\<rparr>) (reject_event cid ?o e)"
    have run: "handle_order ex order cid now =
        (case r of Inr rep \<Rightarrow> handle_report ?ex1 ?o cid rep ts | Inl e \<Rightarrow> Some (?full e))"
      using P L Inr id0
      by (simp add: handle_order_def assign_id_def me_next_order_id_def with_next_id_def wal_send_def out_send_def split: sum.split)
    have serve: "serving ex' (Suc n)" if "ex_engine ex' = e'" for ex'
      by (rule servingI [of ex' "Bs(?s := B')" "?c + 1"]) (use that E' c' room(3,4) in simp_all)
    have id: "under_id (im_order m) ?o" using nc by (simp add: under_id_def with_next_id_def order_def)
    show ?thesis
    proof (cases r)
      case (Inl e)
      have "leaves m ex (?full e)"
        by (rule leavesI [OF turn_of.refused [OF id, of e], of _ _ now]) (simp_all add: cid_def out_send_def)
      moreover have "serving (?full e) (Suc n)" by (rule serve) (simp add: out_send_def)
      ultimately show ?thesis using run Inl by simp
    next
      case rep: (Inr rep)
      have "engine_rel False (ex_engine ?ex1) (Bs(?s := B'))" "unat (ord_symbol_id ?o) < NUM_SYMBOLS"
        using E' s by simp_all
      from handle_report_total [OF this, of cid rep ts] obtain ex' stp q where
        h: "handle_report ?ex1 ?o cid rep ts = Some ex'" "ex_engine ex' = e'" "ex_wal ex' = ex_wal ex @ [(?o, now)]"
          "ex_out ex' = ex_out ex @ ack_event cid ?o # map fill_event ts @ stp @ [bbo_event ?o q]"
          "stp \<in> {[], [reject_event cid ?o SelfTradePrevented]}"
        by (elim exE conjE) (rule that, simp_all)
      have "\<forall>t\<in>set ts. tr_taker_client_id t = cid \<and> tr_taker_order_id t = ord_id ?o"
        by (rule aprocess_taker [OF engine_relD(3) [OF E s] _ _ A]) (simp_all add: nc c0)
      then have "leaves m ex ex'"
        by (rule leavesI [OF turn_of.executed [OF id, of ts stp q, folded cid_def], of _ _ now]) (use h in simp_all)
      with run rep h(1) serve [OF h(2)] show ?thesis by simp
    qed
  qed
qed

lemma handle_cancel_total:
  assumes S: "serving ex n" and c: "order_type_of (im_order m) = Cancel"
  shows "\<exists>ex'. handle_cancel ex (im_order m) (im_client_id m) now = Some ex' \<and> serving ex' (Suc n) \<and> leaves m ex ex'"
proof -
  let ?o = "im_order m" and ?c = "me_global_order_id_counter (ex_engine ex)"
  let ?s = "unat (ord_symbol_id ?o)"
  obtain Bs where E: "engine_rel False (ex_engine ex) Bs" and c: "?c \<noteq> 0" "unat ?c \<le> Suc (Suc n)"
    using S by (auto simp: serving_def)
  have "\<exists>e' r Bs'. me_cancel_order (ex_engine ex) (ord_symbol_id ?o) (ord_user_id ?o) (ord_id ?o) = Some (e', r) \<and>
      engine_rel False e' Bs' \<and> me_global_order_id_counter e' = ?c"
  proof (cases "?s < NUM_SYMBOLS")
    case True
    obtain B' r where A: "acancel (Bs ?s) (ord_user_id ?o) (ord_id ?o) = (B', r)" by (rule prod.exhaust)
    from me_cancel_rel [OF E True refl A] show ?thesis by blast
  next
    case False
    with E show ?thesis by (auto simp: me_cancel_order_def)
  qed
  then obtain e' r Bs' where me: "me_cancel_order (ex_engine ex) (ord_symbol_id ?o) (ord_user_id ?o) (ord_id ?o) = Some (e', r)"
    and e': "engine_rel False e' Bs'" "me_global_order_id_counter e' = ?c" by blast
  have serve: "serving ex' (Suc n)" if "ex_engine ex' = e'" for ex'
    by (rule servingI [of ex' Bs' ?c]) (use that e' c in simp_all)
  show ?thesis
  proof (cases r)
    case (Inl reason)
    let ?ex = "out_send (ex\<lparr>ex_engine := e'\<rparr>) (reject_event (im_client_id m) ?o reason)"
    have "leaves m ex ?ex" by (rule leavesI [OF turn_of.rejected [of m reason], of _ _ now]) (simp_all add: out_send_def)
    moreover have "serving ?ex (Suc n)" by (rule serve) (simp add: out_send_def)
    ultimately show ?thesis using me Inl by (simp add: handle_cancel_def)
  next
    case (Inr cancelled)
    then obtain ex' where ex': "handle_cancel ex ?o (im_client_id m) now = Some ex'" "ex_engine ex' = e'"
      "ex_wal ex' = ex_wal ex @ [(?o, now)]" "\<exists>msg. ex_out ex' = ex_out ex @ [ClientCancelOk (im_client_id m) msg]"
      using me by (simp add: handle_cancel_def out_send_def wal_send_def Let_def)
    then obtain msg where "ex_out ex' = ex_out ex @ [ClientCancelOk (im_client_id m) msg]" by blast
    with ex'(3) have "leaves m ex ex'" by (intro leavesI [OF turn_of.cancelled [OF assms(2), of msg], of _ _ now]) simp_all
    with ex'(1) serve [OF ex'(2)] show ?thesis by blast
  qed
qed

lemma turn_total:
  assumes "serving ex n" "Suc n < 2 ^ 64 - 1" "from_gateway m"
  shows "\<exists>ex'. handle_inbound ex m now = Some ex' \<and> serving ex' (Suc n) \<and> leaves m ex ex'"
  using handle_order_total [OF assms(1,2)] handle_cancel_total [OF assms(1)] assms(3)
  by (auto simp: handle_inbound_def from_gateway_def Let_def)

text \<open>A run ends in a state that can go on, with a transcript.\<close>

lemma run_serves:
  assumes "exchange_run ex ns = Some ex'" "serving ex n" "n + length ns < 2 ^ 64 - 1" "\<forall>m\<in>set ns. from_gateway (fst m)"
    and "transcript ms (ex_out ex) (map fst (ex_wal ex))"
  shows "serving ex' (n + length ns) \<and> transcript (ms @ map fst ns) (ex_out ex') (map fst (ex_wal ex'))"
  using assms
proof (induction ns arbitrary: ex n ms)
  case Nil
  then show ?case by simp
next
  case (Cons x ns)
  then obtain ex1 where H: "serving ex1 (Suc n)" "exchange_run ex1 ns = Some ex'" "leaves (fst x) ex ex1"
    using turn_total [of ex n "fst x" "snd x"] by (auto simp: bind_eq_Some_conv)
  then obtain evs w where "ex_out ex1 = ex_out ex @ evs" "ex_wal ex1 = ex_wal ex @ w" "turn_of (fst x) evs (map fst w)"
    by (auto simp: leaves_def)
  then have "transcript (ms @ [fst x]) (ex_out ex1) (map fst (ex_wal ex1))"
    using transcript.turn [OF Cons.prems(5)] by simp
  from Cons.IH [OF H(2,1) _ _ this] Cons.prems(3,4) show ?case by simp
qed

end
