(* ===== verification/Threads.thy ===== *)
theory Threads
  imports Recovery Service
begin

text \<open>
  The threads and tasks of \<open>src/bin/exchange.rs\<close> and the bounded queues between them: the connections'
  readers, the engine thread, the logger thread, the dispatcher. The scheduler is arbitrary, so a step is
  a relation: one thread moves. The engine thread's turn computes its effect at once, which no other
  thread can see, and then makes its blocking sends one by one. A channel is a list with a bound, as
  \<open>mpsc::channel(n)\<close> documents it.
\<close>

section \<open>State\<close>

definition ORDER_QUEUE :: nat where "ORDER_QUEUE = 100000"

definition WAL_QUEUE :: nat where "WAL_QUEUE = 100000"

definition OUTBOUND_QUEUE :: nat where "OUTBOUND_QUEUE = 100000"

definition CONN_QUEUE :: nat where "CONN_QUEUE = 1024"

datatype send = To_Wal "Order \<times> u64" | To_Out OutboundEvent

record 'sender pipeline =
  th_orders :: "InboundMessage list"
  th_ex :: exchange
  th_sends :: "send list"
  th_walq :: "(Order \<times> u64) list"
  th_hand :: "(Order \<times> u64) option"
  th_wal :: "WalWriter \<times> u64"
  th_outq :: "OutboundEvent list"
  th_connq :: "'sender ConnectionEvent list"
  th_senders :: "'sender senders"

text \<open>
  The blocking sends of a turn: its log entry comes before every event, as in the code. \<open>th_hand\<close> is the
  entry the logger has taken from its queue and not written yet.
\<close>

definition turn_sends :: "exchange \<Rightarrow> exchange \<Rightarrow> send list" where
  "turn_sends ex ex' =
     map To_Wal (drop (length (ex_wal ex)) (ex_wal ex')) @ map To_Out (drop (length (ex_out ex)) (ex_out ex'))"

definition th_start :: "exchange \<Rightarrow> WalWriter \<Rightarrow> 'sender pipeline" where
  "th_start ex wal =
     \<lparr>th_orders = [], th_ex = ex, th_sends = [], th_walq = [], th_hand = None, th_wal = (wal, 0),
      th_outq = [], th_connq = [], th_senders = (\<lambda>_. None)\<rparr>"

section \<open>Steps\<close>

datatype 'sender label =
  Ingress InboundMessage
| Turn InboundMessage u64
| Send
| Take
| Write "Order \<times> u64" bool
| Dispatch OutboundEvent
| Announce "'sender ConnectionEvent"
| Register
| Receiver u64 'sender

text \<open>
  \<open>Announce\<close> and \<open>Register\<close> are the two ends of the connection queue; \<open>Receiver\<close> is whatever the task or
  the socket at the other end of a client's channel does to it. The steps begin when the engine thread has started and
  the logger has opened its file. The race between those two, the only part of the start in which threads meet, is not a
  step: \<open>start_race\<close> below shows that the engine thread starts the same whatever it finds of a file being created.
\<close>

inductive pstep ::
  "wal_casts \<Rightarrow> ('sender \<Rightarrow> ServerMessage \<Rightarrow> 'sender option) \<Rightarrow>
     'sender pipeline \<Rightarrow> 'sender label \<Rightarrow> 'sender pipeline \<Rightarrow> bool"
  for C :: wal_casts and try_send :: "'sender \<Rightarrow> ServerMessage \<Rightarrow> 'sender option" where
  ingress: "length (th_orders s) < ORDER_QUEUE \<Longrightarrow>
    pstep C try_send s (Ingress m) (s\<lparr>th_orders := th_orders s @ [m]\<rparr>)"
| turn: "th_sends s = [] \<Longrightarrow> th_orders s = m # q \<Longrightarrow> handle_inbound (th_ex s) m now = Some ex' \<Longrightarrow>
    pstep C try_send s (Turn m now) (s\<lparr>th_orders := q, th_ex := ex', th_sends := turn_sends (th_ex s) ex'\<rparr>)"
| send_wal: "th_sends s = To_Wal e # r \<Longrightarrow> length (th_walq s) < WAL_QUEUE \<Longrightarrow>
    pstep C try_send s Send (s\<lparr>th_sends := r, th_walq := th_walq s @ [e]\<rparr>)"
| send_out: "th_sends s = To_Out ev # r \<Longrightarrow> length (th_outq s) < OUTBOUND_QUEUE \<Longrightarrow>
    pstep C try_send s Send (s\<lparr>th_sends := r, th_outq := th_outq s @ [ev]\<rparr>)"
| take: "th_hand s = None \<Longrightarrow> th_walq s = e # q \<Longrightarrow>
    pstep C try_send s Take (s\<lparr>th_walq := q, th_hand := Some e\<rparr>)"
| "write": "th_hand s = Some e \<Longrightarrow>
    pstep C try_send s (Write e (th_walq s = []))
      (s\<lparr>th_hand := None, th_wal := wal_turn C (th_wal s) (e, th_walq s = [])\<rparr>)"
| dispatch: "th_outq s = ev # q \<Longrightarrow>
    pstep C try_send s (Dispatch ev) (s\<lparr>th_outq := q, th_senders := on_outbound try_send ev (th_senders s)\<rparr>)"
| announce: "length (th_connq s) < CONN_QUEUE \<Longrightarrow>
    pstep C try_send s (Announce c) (s\<lparr>th_connq := th_connq s @ [c]\<rparr>)"
| register: "th_connq s = c # q \<Longrightarrow>
    pstep C try_send s Register (s\<lparr>th_connq := q, th_senders := on_connection c (th_senders s)\<rparr>)"
| receiver: "th_senders s c \<noteq> None \<Longrightarrow>
    pstep C try_send s (Receiver c tx) (s\<lparr>th_senders := (th_senders s)(c \<mapsto> tx)\<rparr>)"

inductive_cases pstepE: "pstep C try_send s l t"

text \<open>A run from a state, with the labels of its steps.\<close>

inductive prun ::
  "wal_casts \<Rightarrow> ('sender \<Rightarrow> ServerMessage \<Rightarrow> 'sender option) \<Rightarrow> 'sender pipeline \<Rightarrow>
     'sender label list \<Rightarrow> 'sender pipeline \<Rightarrow> bool"
  for C :: wal_casts and try_send :: "'sender \<Rightarrow> ServerMessage \<Rightarrow> 'sender option" and s0 :: "'sender pipeline" where
  none: "prun C try_send s0 [] s0"
| snoc: "prun C try_send s0 ls s \<Longrightarrow> pstep C try_send s l t \<Longrightarrow> prun C try_send s0 (ls @ [l]) t"

text \<open>What a run did: the messages received, the messages handled with their times, the entries written with
  the answers of \<open>is_empty\<close>, the events dispatched.\<close>

fun received :: "'sender label list \<Rightarrow> InboundMessage list" where
  "received [] = []"
| "received (Ingress m # ls) = m # received ls"
| "received (_ # ls) = received ls"

fun handled :: "'sender label list \<Rightarrow> (InboundMessage \<times> u64) list" where
  "handled [] = []"
| "handled (Turn m now # ls) = (m, now) # handled ls"
| "handled (_ # ls) = handled ls"

fun written :: "'sender label list \<Rightarrow> ((Order \<times> u64) \<times> bool) list" where
  "written [] = []"
| "written (Write e emp # ls) = (e, emp) # written ls"
| "written (_ # ls) = written ls"

fun dispatched :: "'sender label list \<Rightarrow> OutboundEvent list" where
  "dispatched [] = []"
| "dispatched (Dispatch ev # ls) = ev # dispatched ls"
| "dispatched (_ # ls) = dispatched ls"

fun wal_sends :: "send list \<Rightarrow> (Order \<times> u64) list" where
  "wal_sends [] = []"
| "wal_sends (To_Wal e # r) = e # wal_sends r"
| "wal_sends (To_Out ev # r) = wal_sends r"

fun out_sends :: "send list \<Rightarrow> OutboundEvent list" where
  "out_sends [] = []"
| "out_sends (To_Wal e # r) = out_sends r"
| "out_sends (To_Out ev # r) = ev # out_sends r"

text \<open>The steps the process makes by itself, and the states in which it has nothing left to do.\<close>

fun work :: "'sender label \<Rightarrow> bool" where
  "work (Ingress m) = False"
| "work (Announce c) = False"
| "work (Receiver c tx) = False"
| "work _ = True"

definition idle :: "'sender pipeline \<Rightarrow> bool" where
  "idle s \<longleftrightarrow>
     th_orders s = [] \<and> th_sends s = [] \<and> th_walq s = [] \<and> th_hand s = None \<and> th_outq s = [] \<and> th_connq s = []"

lemma work_steps: "work (Turn m now)" "work Send" "work Take" "work (Write e emp)" "work (Dispatch ev)" "work Register"
  by simp_all

section \<open>The invariant of every schedule\<close>

lemma received_append [simp]: "received (ls @ ks) = received ls @ received ks"
  by (induction ls rule: received.induct) simp_all

lemma handled_append [simp]: "handled (ls @ ks) = handled ls @ handled ks"
  by (induction ls rule: handled.induct) simp_all

lemma written_append [simp]: "written (ls @ ks) = written ls @ written ks"
  by (induction ls rule: written.induct) simp_all

lemma dispatched_append [simp]: "dispatched (ls @ ks) = dispatched ls @ dispatched ks"
  by (induction ls rule: dispatched.induct) simp_all

lemma sends_append [simp]:
  "wal_sends (xs @ ys) = wal_sends xs @ wal_sends ys" "out_sends (xs @ ys) = out_sends xs @ out_sends ys"
  by (induction xs rule: wal_sends.induct) simp_all

lemma sends_map [simp]:
  "wal_sends (map To_Wal es) = es" "out_sends (map To_Wal es) = []"
  "wal_sends (map To_Out evs) = []" "out_sends (map To_Out evs) = evs"
  by (induction es; simp)+ (induction evs; simp)+

lemma turn_sends_split:
  assumes "handle_inbound ex m now = Some ex'"
  shows "ex_wal ex' = ex_wal ex @ wal_sends (turn_sends ex ex')" "ex_out ex' = ex_out ex @ out_sends (turn_sends ex ex')"
  using turn_appends [OF assms] by (auto simp: appends_def turn_sends_def)

lemma exchange_run_append:
  "exchange_run ex (ms @ ns) = Option.bind (exchange_run ex ms) (\<lambda>ex. exchange_run ex ns)"
  by (induction ms arbitrary: ex) (simp_all add: bind_assoc)

definition hand_list :: "'a option \<Rightarrow> 'a list" where
  "hand_list h = (case h of None \<Rightarrow> [] | Some x \<Rightarrow> [x])"

lemma hand_list_simps [simp]: "hand_list None = []" "hand_list (Some x) = [x]"
  by (simp_all add: hand_list_def)

definition th_ok ::
  "wal_casts \<Rightarrow> exchange \<Rightarrow> WalWriter \<Rightarrow> 'sender label list \<Rightarrow> 'sender pipeline \<Rightarrow> bool" where
  "th_ok C ex0 w0 ls s \<longleftrightarrow>
     received ls = map fst (handled ls) @ th_orders s \<and>
     exchange_run ex0 (handled ls) = Some (th_ex s) \<and>
     ex_wal (th_ex s) = ex_wal ex0 @ map fst (written ls) @ hand_list (th_hand s) @ th_walq s @ wal_sends (th_sends s) \<and>
     ex_out (th_ex s) = ex_out ex0 @ dispatched ls @ th_outq s @ out_sends (th_sends s) \<and>
     th_wal s = wal_thread C w0 (written ls) \<and>
     (th_hand s = None \<and> th_walq s = [] \<and> written ls \<noteq> [] \<longrightarrow> snd (last (written ls)))"

definition th_bounded :: "'sender pipeline \<Rightarrow> bool" where
  "th_bounded s \<longleftrightarrow>
     length (th_orders s) \<le> ORDER_QUEUE \<and> length (th_walq s) \<le> WAL_QUEUE \<and>
     length (th_outq s) \<le> OUTBOUND_QUEUE \<and> length (th_connq s) \<le> CONN_QUEUE"

lemma wal_thread_snoc: "wal_thread C w (ms @ [m]) = wal_turn C (wal_thread C w ms) m"
  by (simp add: wal_thread_def)

lemma pstep_ok: "pstep C f s l t \<Longrightarrow> th_ok C ex0 w0 ls s \<Longrightarrow> th_ok C ex0 w0 (ls @ [l]) t"
proof (induction rule: pstep.induct)
  case (turn s m q now ex')
  note e = turn_sends_split [OF turn.hyps(3)]
  show ?case using turn e by (auto simp: th_ok_def exchange_run_append)
qed (auto simp: th_ok_def wal_thread_snoc)

lemma pstep_bounded: "pstep C f s l t \<Longrightarrow> th_bounded s \<Longrightarrow> th_bounded t"
  by (induction rule: pstep.induct) (auto simp: th_bounded_def)

lemma prun_ok: "prun C f (th_start ex0 w0) ls s \<Longrightarrow> th_ok C ex0 w0 ls s \<and> th_bounded s"
proof (induction rule: prun.induct)
  case none
  show ?case by (simp add: th_ok_def th_bounded_def th_start_def wal_thread_def)
next
  case (snoc ls s l t)
  then show ?case using pstep_ok pstep_bounded by blast
qed
text \<open>A first message on its way, for the witnesses: handled, sent on, and acknowledged.\<close>

lemma demo_accepted:
  assumes "exchange_start None = Some ex"
  shows "\<exists>ex' order out. handle_inbound ex demo_sell 0 = Some ex' \<and> ex_wal ex' = [(order, 0)] \<and>
    ex_out ex' = ack_event 3 order # out"
proof -
  have p: "ex_risk ex = prefunded" "ex_out ex = []" "ex_wal ex = []" using assms by (auto simp: exchange_start_eq)
  obtain re where re: "lock_order_funds (ex_risk ex) (im_order demo_sell) = (re, Inr ())" using demo_lock p by auto
  obtain B' ts r where A: "aprocess abook_new (with_next_id ex (im_order demo_sell)) 3 = (B', ts, r)" by (rule prod_cases3)
  have "me_global_order_id_counter (ex_engine ex) \<noteq> - 1" using demo_admitted [OF assms] by (simp add: admitted_def)
  from order_run(1) [OF start_solvent [OF assms] demo_sell_wf this re A, of 0] p show ?thesis
    using demo_sell_wf(2) by (auto simp: handle_inbound_def order_events_def demo_sell_def)
qed

lemma demo_run:
  assumes "exchange_start None = Some ex"
  shows "\<exists>ls s order. prun C f (th_start ex w) ls s \<and> received ls = [demo_sell] \<and> handled ls = [(demo_sell, 0)] \<and>
    written ls = [] \<and> dispatched ls = [ack_event 3 order] \<and> ex_wal (th_ex s) = [(order, 0)]"
proof -
  obtain ex' order out where ex': "handle_inbound ex demo_sell 0 = Some ex'" "ex_wal ex' = [(order, 0)]"
    "ex_out ex' = ack_event 3 order # out" using demo_accepted [OF assms] by blast
  let ?s0 = "th_start ex w :: 'a pipeline"
  let ?s1 = "?s0\<lparr>th_orders := [demo_sell]\<rparr>"
  let ?s2 = "?s1\<lparr>th_orders := [], th_ex := ex', th_sends := To_Wal (order, 0) # To_Out (ack_event 3 order) # map To_Out out\<rparr>"
  let ?s3 = "?s2\<lparr>th_sends := To_Out (ack_event 3 order) # map To_Out out, th_walq := [(order, 0)]\<rparr>"
  let ?s4 = "?s3\<lparr>th_sends := map To_Out out, th_outq := [ack_event 3 order]\<rparr>"
  let ?s5 = "?s4\<lparr>th_outq := [], th_senders := on_outbound f (ack_event 3 order) (th_senders ?s4)\<rparr>"
  have ts: "turn_sends ex ex' = To_Wal (order, 0) # To_Out (ack_event 3 order) # map To_Out out"
    using ex' exchange_start_empty [OF assms] by (simp add: turn_sends_def)
  have r1: "pstep C f ?s0 (Ingress demo_sell) ?s1"
    using pstep.ingress [of ?s0] by (simp add: th_start_def ORDER_QUEUE_def)
  have r2: "pstep C f ?s1 (Turn demo_sell 0) ?s2"
    using pstep.turn [of ?s1 demo_sell "[]" 0 ex'] ex'(1) by (simp add: th_start_def ts)
  have r3: "pstep C f ?s2 Send ?s3" using pstep.send_wal [of ?s2] by (simp add: th_start_def WAL_QUEUE_def)
  have r4: "pstep C f ?s3 Send ?s4" using pstep.send_out [of ?s3] by (simp add: th_start_def OUTBOUND_QUEUE_def)
  have r5: "pstep C f ?s4 (Dispatch (ack_event 3 order)) ?s5" using pstep.dispatch [of ?s4] by simp
  note run = prun.snoc [OF prun.snoc [OF prun.snoc [OF prun.snoc [OF prun.snoc [OF prun.none r1] r2] r3] r4] r5]
  show ?thesis by (intro exI conjI, rule run) (simp_all add: ex'(2))
qed

lemma crash_reads:
  assumes "exchange_start wal = Some ex0" and "wal_format C"
    and "prun C try_send (th_start ex0 (WalWriter_new C None)) ls s" and "ww_synced (fst (th_wal s)) \<le> n"
  shows "\<exists>k. read_all C (take n (ww_file (fst (th_wal s)))) = Inr (log_records C 1 (take k (ex_wal (th_ex s)))) \<and>
    (th_hand s = None \<and> th_walq s = [] \<longrightarrow> take k (ex_wal (th_ex s)) @ wal_sends (th_sends s) = ex_wal (th_ex s))"
proof -
  have ok: "ex_wal (th_ex s) = map fst (written ls) @ hand_list (th_hand s) @ th_walq s @ wal_sends (th_sends s)"
    "th_wal s = wal_thread C (WalWriter_new C None) (written ls)"
    "th_hand s = None \<and> th_walq s = [] \<and> written ls \<noteq> [] \<longrightarrow> snd (last (written ls))"
    using prun_ok [OF assms(3)] exchange_start_empty [OF assms(1)] by (simp_all add: th_ok_def)
  have w: "fst (th_wal s) = fst (wal_thread C (WalWriter_new C None) (written ls))" by (simp add: ok(2))
  have "\<exists>k. read_all C (take n (ww_file (fst (th_wal s)))) = Inr (log_records C 1 (take k (map fst (written ls)))) \<and>
      k \<le> length (written ls) \<and> (th_hand s = None \<and> th_walq s = [] \<longrightarrow> k = length (written ls))"
  proof (cases "written ls \<noteq> [] \<and> snd (last (written ls))")
    case True
    with wal_format.crash_nothing_lost [OF assms(2) w assms(4)] show ?thesis
      by (intro exI [of _ "length (written ls)"]) simp
  next
    case False
    let ?k = "(min n (length (ww_file (fst (th_wal s)))) - 8) div 72"
    have "read_all C (take n (ww_file (fst (th_wal s)))) =
        Inr (log_records C 1 (take (min ?k (length (written ls))) (map fst (written ls))))"
      unfolding wal_format.crash_prefix [OF assms(2) w assms(4)] take_log_records by (cases "?k \<le> length (written ls)") (simp_all add: min_def)
    with False ok(3) show ?thesis by (intro exI [of _ "min ?k (length (written ls))"]) auto
  qed
  then obtain k where "read_all C (take n (ww_file (fst (th_wal s)))) = Inr (log_records C 1 (take k (map fst (written ls))))"
    "k \<le> length (written ls)" "th_hand s = None \<and> th_walq s = [] \<longrightarrow> k = length (written ls)" by blast
  then show ?thesis by (intro exI [of _ k]) (auto simp: ok(1))
qed

section \<open>Progress\<close>

text \<open>A step of the process itself is possible unless it has nothing to do, provided the engine thread's turn on the
  message at the head of its queue ends.\<close>

lemma turn_work:
  assumes "th_sends s = []" "th_orders s \<noteq> []" and H: "handle_inbound (th_ex s) (hd (th_orders s)) 0 = Some ex'"
  shows "\<exists>l t. work l \<and> pstep C f s l t"
proof -
  have "th_orders s = hd (th_orders s) # tl (th_orders s)" using assms(2) by simp
  from pstep.turn [OF assms(1) this H] work_steps(1) show ?thesis by blast
qed

lemma send_work:
  assumes "th_sends s \<noteq> []" "th_walq s = []" "th_outq s = []"
  shows "\<exists>l t. work l \<and> pstep C f s l t"
proof (cases "th_sends s")
  case (Cons x r)
  have "\<exists>t. pstep C f s Send t"
  proof (cases x)
    case (To_Wal e)
    with pstep.send_wal [of s e r C f] Cons assms show ?thesis by (auto simp: WAL_QUEUE_def)
  next
    case (To_Out ev)
    with pstep.send_out [of s ev r C f] Cons assms show ?thesis by (auto simp: OUTBOUND_QUEUE_def)
  qed
  with work_steps(2) show ?thesis by blast
qed (use assms(1) in simp)

lemma work_possible:
  assumes "\<not> idle s" and H: "th_orders s \<noteq> [] \<Longrightarrow> \<exists>ex'. handle_inbound (th_ex s) (hd (th_orders s)) 0 = Some ex'"
  shows "\<exists>l t. work l \<and> pstep C f s l t"
proof (cases "th_walq s = [] \<and> th_hand s = None \<and> th_outq s = [] \<and> th_connq s = []")
  case False
  then consider e where "th_hand s = Some e" | e q where "th_hand s = None" "th_walq s = e # q"
    | ev q where "th_outq s = ev # q" | c q where "th_connq s = c # q"
    by (metis neq_Nil_conv not_None_eq)
  then show ?thesis by cases (blast intro: pstep.intros work_steps)+
next
  case q: True
  with assms(1) consider "th_sends s \<noteq> []" | "th_sends s = []" "th_orders s \<noteq> []" by (auto simp: idle_def)
  then show ?thesis using q H send_work [of s] turn_work [of s] by cases blast+
qed

lemma idle_no_work: "idle s \<Longrightarrow> work l \<Longrightarrow> \<not> pstep C f s l t"
  by (auto simp: idle_def elim!: pstepE)

text \<open>Only finitely many steps of the process's own come one after the other.\<close>

lemma work_wf: "wf {(t, s). \<exists>l. work l \<and> pstep C f s l t}"
proof (rule wf_subset [OF wf_measures])
  let ?ms = "[\<lambda>s. length (th_orders s), \<lambda>s. length (th_sends s), \<lambda>s. length (th_walq s),
    \<lambda>s. length (hand_list (th_hand s)), \<lambda>s. length (th_outq s) + length (th_connq s)]"
  show "{(t, s). \<exists>l. work l \<and> pstep C f s l t} \<subseteq> measures ?ms"
    by (auto elim!: pstepE)
qed

lemma no_endless_work: "\<nexists>S. S 0 = s \<and> (\<forall>i. \<exists>l. work l \<and> pstep C f (S i) l (S (Suc i)))"
  using work_wf [of C f] unfolding wf_iff_no_infinite_down_chain by auto

lemma prun_append: "prun C f s ks t \<Longrightarrow> prun C f s0 ls s \<Longrightarrow> prun C f s0 (ls @ ks) t"
proof (induction rule: prun.induct)
  case (snoc ks t l u)
  from prun.snoc [OF snoc.IH [OF snoc.prems] snoc.hyps(2)] show ?case by simp
qed simp

lemma work_receives_nothing: "list_all work ks \<Longrightarrow> received ks = []"
  by (induction ks rule: received.induct) simp_all

text \<open>While the process works by itself and no connection waits for its registration, every connected client's channel
  is fed what the dispatched events have for it.\<close>

lemma work_feeds:
  "prun C f s ks t \<Longrightarrow> list_all work ks \<Longrightarrow> th_connq s = [] \<Longrightarrow>
     th_connq t = [] \<and> th_senders t = dispatch_all f (dispatched ks) (th_senders s)"
proof (induction rule: prun.induct)
  case none
  then show ?case by (simp add: dispatch_all_def)
next
  case (snoc ks u l t)
  then show ?case by (auto simp: dispatch_all_def elim!: pstepE)
qed

text \<open>In a run on what the gateway lets through, the next turn always ends.\<close>

lemma next_turn:
  assumes start: "exchange_start None = Some ex0" and run: "prun C f (th_start ex0 w0) ls s"
    and ms: "\<forall>m\<in>set (received ls). from_gateway m" "length (received ls) < 2 ^ 64 - 1" and q: "th_orders s \<noteq> []"
  shows "\<exists>ex'. handle_inbound (th_ex s) (hd (th_orders s)) now = Some ex'"
proof -
  have r: "received ls = map fst (handled ls) @ th_orders s" and x: "exchange_run ex0 (handled ls) = Some (th_ex s)"
    using prun_ok [OF run] by (simp_all add: th_ok_def)
  from arg_cong [OF r, of length] have "length (received ls) = length (handled ls) + length (th_orders s)" by simp
  moreover have "0 < length (th_orders s)" using q by simp
  ultimately have n: "Suc (length (handled ls)) < 2 ^ 64 - 1" using ms(2) by linarith
  have g: "\<forall>m\<in>set (handled ls). from_gateway (fst m)" "from_gateway (hd (th_orders s))"
    using ms(1) q by (auto simp: r)
  from run_serves [OF x start_serving [OF start] _ g(1), of "[]"] have "serving (th_ex s) (length (handled ls))"
    using n exchange_start_empty [OF start] transcript.none by simp
  from turn_total [OF this n g(2), of now] show ?thesis by blast
qed

lemma drains:
  assumes start: "exchange_start None = Some ex0"
    and "prun C f (th_start ex0 w0) ls s"
    and "\<forall>m\<in>set (received ls). from_gateway m" "length (received ls) < 2 ^ 64 - 1"
  shows "\<exists>ks t. prun C f s ks t \<and> list_all work ks \<and> idle t"
  using work_wf [of C f] assms(2-)
proof (induction s arbitrary: ls rule: wf_induct_rule)
  case (less s)
  show ?case
  proof (cases "idle s")
    case True
    then show ?thesis using prun.none by (intro exI [of _ "[]"]) auto
  next
    case False
    then obtain l u where l: "work l" "pstep C f s l u"
      using work_possible [of s C f] next_turn [OF start less.prems] by blast
    then have "received (ls @ [l]) = received ls" using work_receives_nothing [of "[l]"] by simp
    with less.IH [of u "ls @ [l]"] l prun.snoc [OF less.prems(1) l(2)] less.prems(2,3)
    obtain ks t where k: "prun C f u ks t" "list_all work ks" "idle t" by auto
    from prun_append [OF k(1) prun.snoc [OF prun.none l(2)]] k(2,3) l(1) show ?thesis
      by (intro exI [of _ "l # ks"]) auto
  qed
qed

text \<open>What is there when everything has been worked off: a turn for every message, the events dispatched, the log
  on disk and synced.\<close>

lemma settled_run:
  assumes "exchange_start None = Some ex0" and "wal_format C"
    and "prun C f (th_start ex0 (WalWriter_new C None)) ls t" and "idle t"
    and ms: "\<forall>m\<in>set (received ls). from_gateway m" "length (received ls) < 2 ^ 64 - 1"
  shows "\<exists>entries. transcript (received ls) (dispatched ls) (map fst entries) \<and>
    read_all C (ww_file (fst (th_wal t))) = Inr (log_records C 1 entries) \<and>
    ww_synced (fst (th_wal t)) = length (ww_file (fst (th_wal t)))"
proof -
  let ?W = "WalWriter_new C None" and ?e = "map fst (written ls)"
  have e0: "ex_wal ex0 = []" "ex_out ex0 = []" using exchange_start_empty [OF assms(1)] by simp_all
  have ok: "received ls = map fst (handled ls)" "exchange_run ex0 (handled ls) = Some (th_ex t)"
    "ex_wal (th_ex t) = ?e" "ex_out (th_ex t) = dispatched ls" "th_wal t = wal_thread C ?W (written ls)"
    "written ls \<noteq> [] \<Longrightarrow> snd (last (written ls))"
    using prun_ok [OF assms(3)] assms(4) e0 by (simp_all add: th_ok_def idle_def)
  from run_serves [OF ok(2) start_serving [OF assms(1)], of "[]"] have "transcript (received ls) (dispatched ls) (map fst ?e)"
    using transcript.none ms by (simp add: ok e0)
  moreover have w: "fst (th_wal t) = fst (wal_thread C ?W (written ls))" by (simp add: ok(5))
  moreover have "read_all C (ww_file (fst (th_wal t))) = Inr (log_records C 1 ?e) \<and>
      ww_synced (fst (th_wal t)) = length (ww_file (fst (th_wal t)))"
  proof (cases "written ls" rule: rev_cases)
    case Nil
    then have "fst (th_wal t) = ?W" by (simp add: w wal_thread_def)
    moreover have "ww_file ?W = preamble C @ log_bytes C 1 []" "ww_synced ?W = length (ww_file ?W)"
      by (simp_all add: WalWriter_new_def preamble_def Let_def)
    ultimately show ?thesis using wal_format.read_all_log [OF assms(2), of 1 "[]"] Nil by simp
  next
    case (snoc ms m)
    then have s: "ww_synced (fst (th_wal t)) = length (ww_file (fst (th_wal t)))"
      using ok(6) wal_format.turn_empty [OF assms(2), of m] by (simp add: w wal_thread_snoc)
    with wal_format.crash_nothing_lost [OF assms(2) w, of "length (ww_file (fst (th_wal t)))"] ok(6) snoc
    show ?thesis by simp
  qed
  ultimately show ?thesis by blast
qed

text \<open>The engine thread's start races with the logger's creation of the log. Whatever part of the new file's header it
  finds, it starts as it would without a log; and on an older log the logger writes nothing before the engine
  has sent it an entry.\<close>

lemma start_race:
  assumes "wal_format C"
  shows "exchange_start (Some (read_all C (take n (ww_file (WalWriter_new C None))))) = exchange_start None"
proof -
  have f: "ww_file (WalWriter_new C None) = preamble C @ log_bytes C 1 []"
    by (simp add: WalWriter_new_def preamble_def Let_def)
  show ?thesis unfolding f wal_format.read_all_prefix [OF assms] by (simp add: exchange_start_def)
qed

section \<open>Guarantees of the pipeline\<close>

text \<open>C7. The pipeline neither loses, nor repeats, nor reorders anything, whatever the schedule: at any moment the
  messages handled are the first ones received; the state of the engine thread is the one it would be in
  had it run alone on them; its log entries are those the logger has written, then the one in its hand, then
  those in its queue, then those still to be sent; its events are those dispatched, those queued and those
  still to be sent; and no queue exceeds its bound.\<close>

theorem pipeline_fifo:
  assumes "exchange_start wal = Some ex0" and "prun C try_send (th_start ex0 w0) ls s"
  shows "received ls = map fst (handled ls) @ th_orders s \<and>
    exchange_run ex0 (handled ls) = Some (th_ex s) \<and>
    ex_wal (th_ex s) = map fst (written ls) @ hand_list (th_hand s) @ th_walq s @ wal_sends (th_sends s) \<and>
    ex_out (th_ex s) = dispatched ls @ th_outq s @ out_sends (th_sends s) \<and>
    th_wal s = wal_thread C w0 (written ls) \<and>
    length (th_orders s) \<le> ORDER_QUEUE \<and> length (th_walq s) \<le> WAL_QUEUE \<and>
    length (th_outq s) \<le> OUTBOUND_QUEUE \<and> length (th_connq s) \<le> CONN_QUEUE"
  using prun_ok [OF assms(2)] exchange_start_empty [OF assms(1)] by (simp add: th_ok_def th_bounded_def)

theorem pipeline_fifo_witness:
  "\<exists>ls s. prun (repr_c Little) (\<lambda>tx m. Some (tx @ [m])) (th_start (the (exchange_start None)) (WalWriter_new (repr_c Little) None)) ls s \<and>
     received ls = [demo_sell] \<and> handled ls = [(demo_sell, 0)] \<and>
     exchange_run (the (exchange_start None)) (handled ls) = Some (th_ex s)"
proof -
  obtain ex where ex: "exchange_start None = Some ex" using exchange_start_eq by blast
  from demo_run [OF ex, of "repr_c Little" "\<lambda>tx m. Some (tx @ [m])" "WalWriter_new (repr_c Little) None"]
  obtain ls s where "prun (repr_c Little) (\<lambda>tx m. Some (tx @ [m])) (th_start ex (WalWriter_new (repr_c Little) None)) ls s"
    "received ls = [demo_sell]" "handled ls = [(demo_sell, 0)]" by blast
  moreover from pipeline_fifo [OF ex this(1)] have "exchange_run ex (handled ls) = Some (th_ex s)" by blast
  ultimately show ?thesis unfolding ex option.sel by (intro exI [of _ ls] exI [of _ s] conjI)
qed

text \<open>C15. The pipeline serves what it has received. Take any schedule from a start without a log, on the
  log file it creates and messages that have passed the gateway's quarantine (any orders at all, fewer than
  \<open>2^64 - 1\<close>), and stop the traffic at any moment.
  Then no schedule lets the process work forever; some schedule works everything off; and whichever does, every message
  received has had its turn, in order: an answer to its sender, followed by the events of that turn, all dispatched,
  and, unless it was rejected, its order in the log under the id it was given, which a reader of the file
  finds, the whole file being synced; and, if no connection was waiting to be registered, the channel of every connected
  client has been fed exactly the messages that the events dispatched meanwhile have for it, until one did not fit.\<close>

theorem pipeline_drains:
  assumes "exchange_start None = Some ex0" and "wal_format C"
    and "prun C try_send (th_start ex0 (WalWriter_new C None)) ls s"
    and "\<forall>m\<in>set (received ls). from_gateway m" and "length (received ls) < 2 ^ 64 - 1"
  shows "(\<nexists>S. S 0 = s \<and> (\<forall>i. \<exists>l. work l \<and> pstep C try_send (S i) l (S (Suc i)))) \<and>
    (\<exists>ks t. prun C try_send s ks t \<and> list_all work ks \<and> idle t) \<and>
    (\<forall>ks t. prun C try_send s ks t \<and> list_all work ks \<and> idle t \<longrightarrow>
       (\<exists>entries. transcript (received ls) (dispatched (ls @ ks)) (map fst entries) \<and>
          read_all C (ww_file (fst (th_wal t))) = Inr (log_records C 1 entries) \<and>
          ww_synced (fst (th_wal t)) = length (ww_file (fst (th_wal t)))) \<and>
       (th_connq s = [] \<longrightarrow>
          (\<forall>c. th_senders t c =
             Option.bind (th_senders s c) (\<lambda>tx. feed try_send tx (concat (map (inbox c) (dispatched ks)))))))"
proof (intro conjI allI impI)
  fix ks t assume k: "prun C try_send s ks t \<and> list_all work ks \<and> idle t"
  then have "received (ls @ ks) = received ls" by (simp add: work_receives_nothing)
  with settled_run [OF assms(1,2) prun_append [OF conjunct1 [OF k] assms(3)]] k assms(4,5)
  show "\<exists>entries. transcript (received ls) (dispatched (ls @ ks)) (map fst entries) \<and>
      read_all C (ww_file (fst (th_wal t))) = Inr (log_records C 1 entries) \<and>
      ww_synced (fst (th_wal t)) = length (ww_file (fst (th_wal t)))" by (simp only:)
  fix c assume "th_connq s = []"
  then have "th_senders t = dispatch_all try_send (dispatched ks) (th_senders s)" using work_feeds k by blast
  then show "th_senders t c =
      Option.bind (th_senders s c) (\<lambda>tx. feed try_send tx (concat (map (inbox c) (dispatched ks))))"
    by (simp add: dispatch_at)
qed (rule no_endless_work drains [OF assms(1,3,4,5)])+

theorem pipeline_drains_witness:
  "\<exists>ls s ks t entries. prun (repr_c Little) (\<lambda>tx m. Some (tx @ [m]))
       (th_start (the (exchange_start None)) (WalWriter_new (repr_c Little) None)) ls s \<and> received ls = [demo_sell] \<and>
     prun (repr_c Little) (\<lambda>tx m. Some (tx @ [m])) s ks t \<and> idle t \<and>
     transcript [demo_sell] (dispatched (ls @ ks)) (map fst entries) \<and>
     read_all (repr_c Little) (ww_file (fst (th_wal t))) = Inr (log_records (repr_c Little) 1 entries)"
proof -
  let ?f = "\<lambda>tx m. Some (tx @ [m])"
  obtain ex where ex: "exchange_start None = Some ex" using exchange_start_eq by blast
  from demo_run [OF ex, of "repr_c Little" ?f "WalWriter_new (repr_c Little) None"]
  obtain ls s where run: "prun (repr_c Little) ?f (th_start ex (WalWriter_new (repr_c Little) None)) ls s"
    "received ls = [demo_sell]" by blast
  have "\<forall>m\<in>set (received ls). from_gateway m" "length (received ls) < 2 ^ 64 - 1"
    using demo_from_gateway by (simp_all add: run(2))
  note drained = pipeline_drains [OF ex wal_layout.wal_format_axioms run(1) this, unfolded run(2)]
  then obtain ks t where k: "prun (repr_c Little) ?f s ks t \<and> list_all work ks \<and> idle t"
    by (elim conjE exE) (rule that, simp)
  with drained obtain entries where "transcript [demo_sell] (dispatched (ls @ ks)) (map fst entries)"
    "read_all (repr_c Little) (ww_file (fst (th_wal t))) = Inr (log_records (repr_c Little) 1 entries)"
    by blast
  with run k show ?thesis unfolding ex option.sel
    by (intro exI [of _ ls] exI [of _ s] exI [of _ ks] exI [of _ t] exI [of _ entries] conjI) simp_all
qed

text \<open>C14. No schedule deadlocks, whatever the clients send: after a start without a log, on any messages that have passed
  the gateway's quarantine (market buys, orders of type \<open>Deposit\<close>, unknown sides and symbols included; fewer than
  \<open>2^64 - 1\<close> of them), some thread can move by itself exactly when anything is queued, in a hand or still to
  be sent, even with every queue full; and no turn of the engine thread panics or diverges.\<close>

theorem pipeline_live:
  assumes "exchange_start None = Some ex0" and "prun C try_send (th_start ex0 w0) ls s"
    and "\<forall>m\<in>set (received ls). from_gateway m" and "length (received ls) < 2 ^ 64 - 1"
  shows "(\<not> idle s \<longleftrightarrow> (\<exists>l t. work l \<and> pstep C try_send s l t)) \<and>
    (\<forall>m q now. th_orders s = m # q \<longrightarrow> (\<exists>ex'. handle_inbound (th_ex s) m now = Some ex'))"
proof (intro conjI allI impI iffI)
  assume "\<not> idle s"
  then show "\<exists>l t. work l \<and> pstep C try_send s l t" by (rule work_possible) (rule next_turn [OF assms])
next
  assume "\<exists>l t. work l \<and> pstep C try_send s l t"
  then show "\<not> idle s" using idle_no_work by blast
next
  fix m q now assume "th_orders s = m # q"
  with next_turn [OF assms, of now] show "\<exists>ex'. handle_inbound (th_ex s) m now = Some ex'" by simp
qed

theorem pipeline_live_witness:
  "\<exists>ls s l t. prun (repr_c Little) (\<lambda>tx m. Some (tx @ [m]))
       (th_start (the (exchange_start None)) (WalWriter_new (repr_c Little) None)) ls s \<and> received ls = [demo_sell] \<and>
     work l \<and> pstep (repr_c Little) (\<lambda>tx m. Some (tx @ [m])) s l t"
proof -
  obtain ex where ex: "exchange_start None = Some ex" using exchange_start_eq by blast
  from demo_run [OF ex, of "repr_c Little" "\<lambda>tx m. Some (tx @ [m])" "WalWriter_new (repr_c Little) None"]
  obtain ls s order where run: "prun (repr_c Little) (\<lambda>tx m. Some (tx @ [m])) (th_start ex (WalWriter_new (repr_c Little) None)) ls s"
    "received ls = [demo_sell]" "written ls = []" "ex_wal (th_ex s) = [(order, 0)]" by blast
  have "\<not> idle s"
  proof
    assume "idle s"
    with prun_ok [OF run(1)] run(3,4) exchange_start_empty [OF ex] show False by (simp add: th_ok_def idle_def)
  qed
  with pipeline_live [OF ex run(1), unfolded run(2)] demo_from_gateway obtain l t where
    "work l" "pstep (repr_c Little) (\<lambda>tx m. Some (tx @ [m])) s l t" by auto
  with run(1,2) show ?thesis unfolding ex option.sel
    by (intro exI [of _ ls] exI [of _ s] exI [of _ l] exI [of _ t] conjI)
qed

text \<open>C8. What a crash of the running pipeline leaves, when the log file is one this run has created and the engine
  thread, from a start without a log, has taken only cancels, limit orders and market sales with a valid side
  and no exchange id, none of them refused by a full book (\<open>recoverable\<close>; not market buys, orders of type \<open>Deposit\<close> or
  with an invalid side): at any moment of any such schedule, with the file cut anywhere after its synced part, recovery
  reads a prefix of the engine thread's log entries, in order; once the logger has nothing in its queue or hand, it
  reads every entry the engine thread has sent to it; and the next start succeeds and rebuilds the accounts and the
  books (client ids aside) of the state that had this log.\<close>

theorem pipeline_durable:
  assumes "exchange_start wal = Some ex0" and "wal_format C"
    and "prun C try_send (th_start ex0 (WalWriter_new C None)) ls s" and "ww_synced (fst (th_wal s)) \<le> n"
    and "recoverable (th_ex s)"
  shows "\<exists>k ex1 ex2 Bs. read_all C (take n (ww_file (fst (th_wal s)))) = Inr (log_records C 1 (take k (ex_wal (th_ex s)))) \<and>
    (th_hand s = None \<and> th_walq s = [] \<longrightarrow> take k (ex_wal (th_ex s)) @ wal_sends (th_sends s) = ex_wal (th_ex s)) \<and>
    recoverable ex1 \<and> ex_wal ex1 = take k (ex_wal (th_ex s)) \<and>
    exchange_start (Some (read_all C (take n (ww_file (fst (th_wal s)))))) = Some ex2 \<and>
    ex_risk ex2 = ex_risk ex1 \<and> engine_rel True (ex_engine ex1) Bs \<and>
    (\<forall>s<NUM_SYMBOLS. book_rel True (vfun (me_books (ex_engine ex2)) s) (anon (Bs s)))"
proof -
  obtain k where k: "read_all C (take n (ww_file (fst (th_wal s)))) = Inr (log_records C 1 (take k (ex_wal (th_ex s))))"
    "th_hand s = None \<and> th_walq s = [] \<longrightarrow> take k (ex_wal (th_ex s)) @ wal_sends (th_sends s) = ex_wal (th_ex s)"
    using crash_reads [OF assms(1-4)] by blast
  with restart_prefix [OF assms(5), of k C] show ?thesis unfolding k(1) by blast
qed

theorem pipeline_durable_witness:
  "\<exists>ls s ex2. prun (repr_c Big) (\<lambda>tx m. Some (tx @ [m]))
       (th_start (the (exchange_start None)) (WalWriter_new (repr_c Big) None)) ls s \<and> received ls = [demo_sell] \<and>
     exchange_start (Some (read_all (repr_c Big) (take (ww_synced (fst (th_wal s))) (ww_file (fst (th_wal s)))))) = Some ex2"
proof -
  obtain ex where ex: "exchange_start None = Some ex" using exchange_start_eq by blast
  from demo_run [OF ex, of "repr_c Big" "\<lambda>tx m. Some (tx @ [m])" "WalWriter_new (repr_c Big) None"]
  obtain ls s where run: "prun (repr_c Big) (\<lambda>tx m. Some (tx @ [m])) (th_start ex (WalWriter_new (repr_c Big) None)) ls s"
    "received ls = [demo_sell]" "handled ls = [(demo_sell, 0)]" by blast
  then have "handle_inbound ex demo_sell 0 = Some (th_ex s)" using prun_ok [OF run(1)] by (simp add: th_ok_def)
  then have "recoverable (th_ex s)" using demo_recoverable ex by auto
  from pipeline_durable [OF ex wal_layout.wal_format_axioms run(1) order.refl this] run(1,2) ex show ?thesis
    by (simp only: option.sel) blast
qed

text \<open>C36. The log is not written ahead of the answers: there is a schedule in which a client's order has been accepted
  and the acknowledgement dispatched to it while the log holds no entry, so that a crash at this moment
  forgets an order its owner was told is in.\<close>

theorem ack_before_log:
  assumes "exchange_start None = Some ex"
  shows "\<exists>ls s order. prun (repr_c h) try_send (th_start ex (WalWriter_new (repr_c h) None)) ls s \<and>
    ack_event 3 order \<in> set (dispatched ls) \<and> ex_wal (th_ex s) = [(order, 0)] \<and>
    read_all (repr_c h) (ww_file (fst (th_wal s))) = Inr []"
proof -
  let ?w = "WalWriter_new (repr_c h) None"
  obtain ls s order where run: "prun (repr_c h) try_send (th_start ex ?w) ls s" "written ls = []"
    "dispatched ls = [ack_event 3 order]" "ex_wal (th_ex s) = [(order, 0)]" using demo_run [OF assms] by blast
  then have "fst (th_wal s) = fst (wal_thread (repr_c h) ?w [])" using prun_ok [OF run(1)] by (simp add: th_ok_def)
  from wal_format.crash_prefix [OF wal_layout.wal_format_axioms this, of "max (ww_synced (fst (th_wal s))) (length (ww_file (fst (th_wal s))))"]
  have "read_all (repr_c h) (ww_file (fst (th_wal s))) = Inr []" by simp
  with run show ?thesis by (intro exI [of _ ls] exI [of _ s] exI [of _ order] conjI) simp_all
qed

theorem ack_before_log_witness:
  "\<exists>ls s order. prun (repr_c Little) (\<lambda>tx m. Some (tx @ [m]))
       (th_start (the (exchange_start None)) (WalWriter_new (repr_c Little) None)) ls s \<and>
     ack_event 3 order \<in> set (dispatched ls) \<and> read_all (repr_c Little) (ww_file (fst (th_wal s))) = Inr []"
proof -
  obtain ex where ex: "exchange_start None = Some ex" using exchange_start_eq by blast
  from ack_before_log [OF ex, of Little "\<lambda>tx m. Some (tx @ [m])"] ex show ?thesis by auto
qed

end
