(* ===== verification/Metrics.thy ===== *)
theory Metrics
  imports OB_Prelude
begin

text \<open>
  The latency histogram of \<open>src/metrics.rs\<close>: 16 linear sub-buckets per power of two. Bucket indices
  are \<open>usize\<close> values far below \<open>2^64\<close> and are modelled as natural numbers. Floating point is not
  modelled: the rank a percentile asks for and the throughput are parameters.
\<close>

section \<open>Buckets\<close>

definition leading_zeros :: "u64 \<Rightarrow> nat" where
  "leading_zeros w = length (takeWhile (\<lambda>i. \<not> bit w (63 - i)) [0..<64])"

definition value_to_bucket :: "u64 \<Rightarrow> nat" where
  "value_to_bucket nanos =
     (if nanos < 16 then unat nanos
      else
        (let leading = leading_zeros nanos;
             k = 63 - leading
         in if k < 4 then unat nanos
            else
              (let sub_bucket = unat (drop_bit (k - 4) nanos AND 0x0F);
                   octave = k - 4;
                   idx = 16 + octave * 16 + sub_bucket
               in min idx 543)))"

definition bucket_to_value :: "nat \<Rightarrow> u64" where
  "bucket_to_value bucket =
     (if bucket < 16 then of_nat bucket
      else
        (let octave = (bucket - 16) div 16;
             sub_bucket = (bucket - 16) mod 16;
             k = octave + 4;
             base = push_bit k 1;
             step = push_bit (k - 4) 1
         in base + of_nat sub_bucket * step + step div 2))"

section \<open>Histogram\<close>

record LatencyHistogram =
  lh_buckets :: "u32 vec"
  lh_count :: u64
  lh_min_ns :: u64
  lh_max_ns :: u64
  lh_sum_ns :: "128 word"

definition LatencyHistogram_new :: LatencyHistogram where
  "LatencyHistogram_new =
     \<lparr>lh_buckets = Vec 544 (\<lambda>_. 0), lh_count = 0, lh_min_ns = - 1, lh_max_ns = 0, lh_sum_ns = 0\<rparr>"

definition record_latency :: "LatencyHistogram \<Rightarrow> u64 \<Rightarrow> LatencyHistogram option" where
  "record_latency h nanos =
     do {
       let h = h\<lparr>lh_count := lh_count h + 1\<rparr>;
       let h = h\<lparr>lh_sum_ns := lh_sum_ns h + ucast nanos\<rparr>;
       let h = (if nanos < lh_min_ns h then h\<lparr>lh_min_ns := nanos\<rparr> else h);
       let h = (if nanos > lh_max_ns h then h\<lparr>lh_max_ns := nanos\<rparr> else h);
       let bucket = value_to_bucket nanos;
       n \<leftarrow> vget (lh_buckets h) bucket;
       Some (h\<lparr>lh_buckets := vupd (lh_buckets h) bucket (\<lambda>_. sat_add n 1)\<rparr>)
     }"

text \<open>
  The scan over the buckets. \<open>rank p count\<close> stands for \<open>(count as f64 * (p / 100.0)).ceil() as u64\<close>,
  where \<open>p\<close> is the percentile times 100.
\<close>

fun percentile_scan :: "LatencyHistogram \<Rightarrow> u64 \<Rightarrow> nat list \<Rightarrow> u64 \<Rightarrow> u64 option" where
  "percentile_scan h target [] accumulated = Some (lh_max_ns h)"
| "percentile_scan h target (bucket # rest) accumulated =
     do {
       n \<leftarrow> vget (lh_buckets h) bucket;
       let accumulated = accumulated + ucast n;
       if accumulated \<ge> target then Some (bucket_to_value bucket)
       else percentile_scan h target rest accumulated
     }"

definition percentile :: "(nat \<Rightarrow> u64 \<Rightarrow> u64) \<Rightarrow> LatencyHistogram \<Rightarrow> nat \<Rightarrow> u64 option" where
  "percentile rank h p =
     (if lh_count h = 0 then Some 0
      else percentile_scan h (rank p (lh_count h)) [0..<544] 0)"

record 'f LatencyReport =
  rp_total_orders :: u64
  rp_min_ns :: u64
  rp_avg_ns :: u64
  rp_p50_ns :: u64
  rp_p95_ns :: u64
  rp_p99_ns :: u64
  rp_max_ns :: u64
  rp_throughput_ops :: 'f

definition stats ::
  "(nat \<Rightarrow> u64 \<Rightarrow> u64) \<Rightarrow> (u64 \<Rightarrow> 'f::zero) \<Rightarrow> LatencyHistogram \<Rightarrow> 'f LatencyReport option" where
  "stats rank throughput h =
     (if lh_count h = 0 then
        Some \<lparr>rp_total_orders = 0, rp_min_ns = 0, rp_avg_ns = 0, rp_p50_ns = 0, rp_p95_ns = 0, rp_p99_ns = 0,
              rp_max_ns = 0, rp_throughput_ops = 0\<rparr>
      else
        do {
          p50 \<leftarrow> percentile rank h 5000;
          p95 \<leftarrow> percentile rank h 9500;
          p99 \<leftarrow> percentile rank h 9900;
          Some \<lparr>rp_total_orders = lh_count h, rp_min_ns = (if lh_min_ns h = - 1 then 0 else lh_min_ns h),
                rp_avg_ns = ucast (lh_sum_ns h div ucast (lh_count h)), rp_p50_ns = p50, rp_p95_ns = p95,
                rp_p99_ns = p99, rp_max_ns = lh_max_ns h, rp_throughput_ops = throughput (lh_count h)\<rparr>
        })"

section \<open>Buckets in natural numbers\<close>

definition bucket_of :: "nat \<Rightarrow> nat \<Rightarrow> nat" where
  "bucket_of k n = (k - 4) * 16 + n div 2 ^ (k - 4)"

lemma leading_zeros_msb:
  assumes "v \<noteq> 0"
  shows "leading_zeros v < 64" "2 ^ (63 - leading_zeros v) \<le> unat v" "unat v < 2 ^ (64 - leading_zeros v)"
proof -
  let ?P = "\<lambda>i. \<not> bit v (63 - i)"
  have len: "leading_zeros v = length (takeWhile ?P [0..<64])" by (simp add: leading_zeros_def)
  have "\<exists>k<64. bit v k"
  proof (rule ccontr)
    assume "\<not> ?thesis"
    then have "v = 0" by (intro bit_word_eqI) auto
    with assms show False by contradiction
  qed
  then obtain k where k: "k < 64" "bit v k" by blast
  show lt: "leading_zeros v < 64"
  proof (rule ccontr)
    assume "\<not> ?thesis"
    then have "takeWhile ?P [0..<64] = [0..<64]"
      using length_takeWhile_le [of ?P "[0..<64]"] unfolding len
      by (metis (mono_tags, lifting) diff_zero le_antisym length_upt not_less takeWhile_eq_take take_all)
    then have "\<forall>i\<in>set [0..<64]. ?P i" by (simp only: takeWhile_eq_all_conv)
    then have "?P (63 - k)" by (rule bspec) (use k in simp)
    with k show False by simp
  qed
  have "bit v (63 - leading_zeros v)"
    using nth_length_takeWhile [of ?P "[0..<64]"] lt unfolding len [symmetric] by simp
  then have "bit (unat v) (63 - leading_zeros v)" by (simp only: bit_unsigned_iff) simp
  then have "odd (unat v div 2 ^ (63 - leading_zeros v))" by (rule bit_iff_odd [THEN iffD1])
  then have "unat v div 2 ^ (63 - leading_zeros v) \<noteq> 0" by (metis even_zero)
  then show "2 ^ (63 - leading_zeros v) \<le> unat v" by (meson div_less not_le_imp_less)
  have above: "\<not> bit v j" if "64 - leading_zeros v \<le> j" for j
  proof
    assume b: "bit v j"
    then have j: "j < 64" using bit_imp_le_length by fastforce
    then have "63 - j < leading_zeros v" using that lt by simp
    then have i: "63 - j < length (takeWhile ?P [0..<64])" by (simp only: len)
    have "?P (takeWhile ?P [0..<64] ! (63 - j))" using set_takeWhileD [OF nth_mem [OF i]] by (rule conjunct2)
    moreover have "takeWhile ?P [0..<64] ! (63 - j) = 63 - j" unfolding takeWhile_nth [OF i] by simp
    ultimately have "?P (63 - j)" by simp
    with b j show False by simp
  qed
  have "take_bit (64 - leading_zeros v) (unat v) = unat v"
  proof (rule bit_eqI)
    fix j
    show "bit (take_bit (64 - leading_zeros v) (unat v)) j = bit (unat v) j"
      using above [of j] by (cases "64 - leading_zeros v \<le> j") (auto simp: bit_take_bit_iff bit_unsigned_iff)
  qed
  then show "unat v < 2 ^ (64 - leading_zeros v)" by (simp only: take_bit_nat_eq_self_iff)
qed
text \<open>The most significant bit of a value, and the bucket that follows from it.\<close>


lemma div_range:
  assumes "4 \<le> k" "2 ^ k \<le> n" "(n :: nat) < 2 ^ Suc k"
  shows "16 \<le> n div 2 ^ (k - 4)" "n div 2 ^ (k - 4) < 32"
proof -
  have k: "(2 :: nat) ^ k = 16 * 2 ^ (k - 4)"
    using power_add [of "2 :: nat" 4 "k - 4"] assms(1) by simp
  show "16 \<le> n div 2 ^ (k - 4)" using assms(2) by (simp add: k less_eq_div_iff_mult_less_eq)
  show "n div 2 ^ (k - 4) < 32" using assms(3) by (simp add: k div_less_iff_less_mult)
qed

lemma value_to_bucket_small: "unat v < 16 \<Longrightarrow> value_to_bucket v = unat v"
  by (simp add: value_to_bucket_def word_less_nat_alt)

lemma value_to_bucket_large:
  assumes "16 \<le> unat v"
  obtains k where "4 \<le> k" "2 ^ k \<le> unat v" "unat v < 2 ^ Suc k" "value_to_bucket v = min (bucket_of k (unat v)) 543"
proof -
  let ?k = "63 - leading_zeros v"
  from assms have "v \<noteq> 0" by auto
  note z = leading_zeros_msb [OF this]
  have hi: "unat v < 2 ^ Suc ?k" using z(1,3) by (simp add: Suc_diff_le [symmetric])
  have k4: "4 \<le> ?k"
  proof (rule ccontr)
    assume "\<not> ?thesis"
    then have "(2 :: nat) ^ Suc ?k \<le> 2 ^ 4" by (intro power_increasing) simp_all
    with hi assms show False by simp
  qed
  note d = div_range [OF k4 z(2) hi]
  have "unat (drop_bit (?k - 4) v AND 0x0F) = (unat v div 2 ^ (?k - 4)) mod 16"
  proof -
    have "drop_bit (?k - 4) v AND 0x0F = take_bit 4 (drop_bit (?k - 4) v)"
      by (simp add: take_bit_eq_mask mask_eq_exp_minus_1)
    then show ?thesis
      by (simp only: unsigned_take_bit_eq unsigned_drop_bit_eq) (simp add: take_bit_eq_mod drop_bit_eq_div mod_less [OF unat_lt64 [simplified]])
  qed
  also have "\<dots> = unat v div 2 ^ (?k - 4) - 16" using d by (simp add: mod_if)
  finally have "value_to_bucket v = min (bucket_of ?k (unat v)) 543"
    using assms k4 d by (simp add: value_to_bucket_def Let_def bucket_of_def word_less_nat_alt)
  with that k4 z(2) hi show thesis by blast
qed

lemma bucket_of_range:
  assumes "4 \<le> k" "2 ^ k \<le> n" "n < 2 ^ Suc k"
  shows "(k - 4) * 16 + 16 \<le> bucket_of k n" "bucket_of k n \<le> (k - 4) * 16 + 31"
  using div_range [OF assms] by (simp_all add: bucket_of_def)

lemma value_to_bucket_bound: "value_to_bucket v < 544"
proof (cases "unat v < 16")
  case False
  then show ?thesis by (elim value_to_bucket_large [OF leI]) simp
qed (simp add: value_to_bucket_small)

lemma value_to_bucket_mono:
  assumes "v \<le> w"
  shows "value_to_bucket v \<le> value_to_bucket w"
proof -
  have le: "unat v \<le> unat w" using assms by (simp add: word_le_nat_alt)
  show ?thesis
  proof (cases "unat w < 16")
    case True
    with le show ?thesis by (simp add: value_to_bucket_small)
  next
    case False
    then obtain j where j: "4 \<le> j" "2 ^ j \<le> unat w" "unat w < 2 ^ Suc j"
      "value_to_bucket w = min (bucket_of j (unat w)) 543"
      by (elim value_to_bucket_large [OF leI])
    show ?thesis
    proof (cases "unat v < 16")
      case True
      with bucket_of_range(1) [OF j(1-3)] show ?thesis by (simp add: value_to_bucket_small j(4))
    next
      case False
      then obtain k where k: "4 \<le> k" "2 ^ k \<le> unat v" "unat v < 2 ^ Suc k"
        "value_to_bucket v = min (bucket_of k (unat v)) 543"
        by (elim value_to_bucket_large [OF leI])
      have "bucket_of k (unat v) \<le> bucket_of j (unat w)"
      proof (cases "k < j")
        case True
        then have "(k - 4) * 16 + 16 \<le> (j - 4) * 16" using k(1) by simp
        with bucket_of_range(2) [OF k(1-3)] bucket_of_range(1) [OF j(1-3)] show ?thesis by linarith
      next
        case False
        have "k = j"
        proof (rule ccontr)
          assume "k \<noteq> j"
          with False have "(2 :: nat) ^ Suc j \<le> 2 ^ k" by (intro power_increasing) simp_all
          with le j(3) k(2) show False by linarith
        qed
        with div_le_mono [OF le] show ?thesis by (simp add: bucket_of_def)
      qed
      with j(4) k(4) show ?thesis by simp
    qed
  qed
qed
section \<open>Accuracy of a bucket\<close>

definition near :: "u64 \<Rightarrow> u64 \<Rightarrow> bool" where
  "near est v \<longleftrightarrow> 32 * unat est \<le> 33 * unat v \<and> 31 * unat v \<le> 32 * unat est"

lemma bucket_to_value_eq:
  assumes "4 \<le> k" "k \<le> 36" "d < 16"
  shows "unat (bucket_to_value ((k - 4) * 16 + 16 + d)) = 2 ^ k + d * 2 ^ (k - 4) + 2 ^ (k - 4) div 2"
proof -
  define e where "e = k - 4"
  then have o: "k = e + 4" "e \<le> 32" using assms(1,2) by simp_all
  have p: "(2 :: nat) ^ e \<le> 2 ^ 32" using o(2) by (intro power_increasing) simp_all
  have step: "unat (push_bit e (1 :: u64)) = 2 ^ e"
    using p o(2) by (simp only: unsigned_push_bit_eq unsigned_1 len_num1 len_bit0)
      (simp add: push_bit_eq_mult take_bit_nat_eq_self)
  have base: "unat (push_bit (e + 4) (1 :: u64)) = 16 * 2 ^ e"
    using p o(2) by (simp only: unsigned_push_bit_eq unsigned_1 len_num1 len_bit0)
      (simp add: push_bit_eq_mult take_bit_nat_eq_self power_add)
  have d: "unat (of_nat d :: u64) = d" using assms(3) by (simp add: unat_of_nat take_bit_nat_eq_self)
  have ds: "d * 2 ^ e \<le> 15 * 2 ^ e" using assms(3) by simp
  then have m: "unat ((of_nat d :: u64) * push_bit e 1) = d * 2 ^ e"
  proof (subst unat_mult_small)
    have "15 * (2 :: nat) ^ e < 2 ^ 64" using p by simp
    with ds have "d * 2 ^ e < 2 ^ 64" by (rule le_less_trans)
    then show "unat (of_nat d :: u64) * unat (push_bit e (1 :: u64)) < 2 ^ LENGTH(64)"
      by (simp only: d step len_num1 len_bit0) simp
  qed (simp only: d step)
  have h: "unat (push_bit e (1 :: u64) div 2) = 2 ^ e div 2"
    by (simp only: unat_div_distrib step) simp
  have "(2 :: nat) ^ e div 2 \<le> 2 ^ e" by (rule div_le_dividend)
  moreover have "(2 :: nat) ^ e \<le> 4294967296" using p by simp
  ultimately have "16 * 2 ^ e + d * 2 ^ e + 2 ^ e div 2 < (18446744073709551616 :: nat)" using ds by linarith
  then have lt: "16 * 2 ^ e + d * 2 ^ e + 2 ^ e div 2 < (2 :: nat) ^ 64" by simp
  have a: "unat (push_bit (e + 4) 1 + (of_nat d :: u64) * push_bit e 1) = 16 * 2 ^ e + d * 2 ^ e"
    using lt by (subst unat_add_small) (simp_all only: m base len_num1 len_bit0, simp)
  have "unat (push_bit (e + 4) 1 + (of_nat d :: u64) * push_bit e 1 + push_bit e 1 div 2) =
      16 * 2 ^ e + d * 2 ^ e + 2 ^ e div 2"
    using lt by (subst unat_add_small) (simp_all only: a h len_num1 len_bit0, simp)
  then show ?thesis
    using assms(3) by (simp add: bucket_to_value_def o(1) Let_def power_add)
qed

lemma near_arith:
  fixes X S H R :: nat
  assumes "16 * S \<le> X" "R < S" and H: "2 * H = S \<or> S = 1 \<and> H = 0"
  shows "32 * (X + H) \<le> 33 * (X + R) \<and> 31 * (X + R) \<le> 32 * (X + H)"
  using H
proof
  assume "2 * H = S"
  then have "32 * (X + H) \<le> 33 * (X + R)" using assms(1,2) unfolding distrib_left by linarith
  moreover have "31 * (X + R) \<le> 32 * (X + H)" using assms(1,2) \<open>2 * H = S\<close> unfolding distrib_left by linarith
  ultimately show ?thesis by blast
next
  assume "S = 1 \<and> H = 0"
  with assms(1,2) show ?thesis by simp
qed

lemma bucket_near:
  assumes "unat v < 2 ^ 37"
  shows "near (bucket_to_value (value_to_bucket v)) v"
proof (cases "unat v < 16")
  case True
  then have "bucket_to_value (value_to_bucket v) = v"
    by (simp add: value_to_bucket_small bucket_to_value_def)
  then show ?thesis by (simp add: near_def)
next
  case False
  then obtain k where k: "4 \<le> k" "2 ^ k \<le> unat v" "unat v < 2 ^ Suc k"
    "value_to_bucket v = min (bucket_of k (unat v)) 543"
    by (elim value_to_bucket_large [OF leI])
  have k36: "k \<le> 36"
  proof (rule ccontr)
    assume "\<not> ?thesis"
    then have "(2 :: nat) ^ 37 \<le> 2 ^ k" by (intro power_increasing) simp_all
    with k(2) assms show False by linarith
  qed
  let ?s = "2 ^ (k - 4) :: nat" and ?q = "unat v div 2 ^ (k - 4)"
  note q = div_range [OF k(1-3)]
  have "bucket_of k (unat v) = (k - 4) * 16 + 16 + (?q - 16)" using q by (simp add: bucket_of_def)
  moreover from this have "value_to_bucket v = bucket_of k (unat v)" using k(4) k36 q by simp
  ultimately have e: "unat (bucket_to_value (value_to_bucket v)) = 2 ^ k + (?q - 16) * ?s + ?s div 2"
    using bucket_to_value_eq [OF k(1) k36, of "?q - 16"] q by simp
  have "(2 :: nat) ^ k = 16 * ?s" using power_add [of "2 :: nat" 4 "k - 4"] k(1) by simp
  then have e': "unat (bucket_to_value (value_to_bucket v)) = ?q * ?s + ?s div 2"
    using q(1) unfolding e by (simp add: diff_mult_distrib mult_le_mono1)
  have v: "unat v = ?q * ?s + unat v mod ?s" "unat v mod ?s < ?s"
    by (simp_all only: div_mult_mod_eq mod_less_divisor zero_less_power zero_less_numeral)
  have half: "2 * (?s div 2) = ?s \<or> ?s = 1 \<and> ?s div 2 = 0" by (cases "k - 4") simp_all
  have "16 * ?s \<le> ?q * ?s" using q(1) by simp
  from near_arith [OF this v(2) half] show ?thesis unfolding near_def e' v(1) [symmetric] .
qed
section \<open>Recording\<close>

primrec record_all :: "LatencyHistogram \<Rightarrow> u64 list \<Rightarrow> LatencyHistogram option" where
  "record_all h [] = Some h"
| "record_all h (v # vs) = do { h \<leftarrow> record_latency h v; record_all h vs }"

definition in_bucket :: "u64 list \<Rightarrow> nat \<Rightarrow> nat" where
  "in_bucket vs b = length (filter (\<lambda>v. value_to_bucket v = b) vs)"

definition below_bucket :: "u64 list \<Rightarrow> nat \<Rightarrow> nat" where
  "below_bucket vs b = length (filter (\<lambda>v. value_to_bucket v < b) vs)"

text \<open>\<open>holds h vs\<close>: the histogram is the summary of the values \<open>vs\<close>.\<close>

definition holds :: "LatencyHistogram \<Rightarrow> u64 list \<Rightarrow> bool" where
  "holds h vs \<longleftrightarrow>
     lh_count h = of_nat (length vs) \<and>
     lh_sum_ns h = of_nat (sum_list (map unat vs)) \<and>
     lh_min_ns h = fold min vs (- 1) \<and> lh_max_ns h = fold max vs 0 \<and>
     vlen (lh_buckets h) = 544 \<and>
     (\<forall>b. unat (vfun (lh_buckets h) b) = min (in_bucket vs b) (2 ^ 32 - 1))"

lemma new_holds: "holds LatencyHistogram_new []"
  by (simp add: holds_def LatencyHistogram_new_def in_bucket_def)

lemma min_max_word: "min a b = (if b < a then b else a)" "max a b = (if a < b then b else a)" for a b :: u64
  by (auto simp: min_def max_def)

lemma record_holds:
  assumes "holds h vs"
  shows "\<exists>h'. record_latency h v = Some h' \<and> holds h' (vs @ [v])"
proof -
  let ?b = "value_to_bucket v"
  let ?h = "h\<lparr>lh_count := lh_count h + 1, lh_sum_ns := lh_sum_ns h + ucast v, lh_min_ns := min (lh_min_ns h) v,
     lh_max_ns := max (lh_max_ns h) v, lh_buckets := vupd (lh_buckets h) ?b (\<lambda>_. sat_add (vfun (lh_buckets h) ?b) 1)\<rparr>"
  have r: "record_latency h v = Some ?h"
    using assms value_to_bucket_bound [of v]
    by (cases h) (auto simp: record_latency_def holds_def Let_def min_max_word)
  have s: "(of_nat (sum_list (map unat vs)) :: 128 word) + ucast v = of_nat (sum_list (map unat vs) + unat v)"
    by simp
  have c: "unat (sat_add (vfun (lh_buckets h) ?b) 1) = min (in_bucket vs ?b + 1) (2 ^ 32 - 1)"
    using assms by (auto simp: unat_sat_add holds_def)
  have "holds ?h (vs @ [v])"
    using assms by (auto simp: holds_def c s [symmetric] in_bucket_def min.commute max.commute add.commute)
  with r show ?thesis by blast
qed

lemma record_all_holds: "holds h us \<Longrightarrow> \<exists>h'. record_all h vs = Some h' \<and> holds h' (us @ vs)"
proof (induction vs arbitrary: h us)
  case (Cons v vs)
  from record_holds [OF Cons.prems, of v] obtain h' where h': "record_latency h v = Some h'" "holds h' (us @ [v])"
    by blast
  from Cons.IH [OF h'(2)] show ?case by (simp add: h'(1))
qed simp

section \<open>Percentiles\<close>

lemma below_Suc: "below_bucket vs (Suc b) = below_bucket vs b + in_bucket vs b"
  by (induction vs) (auto simp: below_bucket_def in_bucket_def)

lemma below_mono: "b \<le> b' \<Longrightarrow> below_bucket vs b \<le> below_bucket vs b'"
  unfolding below_bucket_def by (induction vs) auto

lemma below_length: "below_bucket vs b \<le> length vs"
  by (simp add: below_bucket_def)

lemma scan_step:
  assumes h: "holds h vs" and len: "length vs < 2 ^ 32" and b: "b < 544"
  shows "percentile_scan h target [b..<544] (of_nat (below_bucket vs b)) =
    (if unat target \<le> below_bucket vs (Suc b) then Some (bucket_to_value b)
     else percentile_scan h target [Suc b..<544] (of_nat (below_bucket vs (Suc b))))"
proof -
  have "in_bucket vs b \<le> length vs" by (simp add: in_bucket_def)
  then have "unat (vfun (lh_buckets h) b) = in_bucket vs b" using h len by (simp add: holds_def)
  then have "(ucast (vfun (lh_buckets h) b) :: u64) = of_nat (in_bucket vs b)"
    by (metis of_nat_unat)
  then have acc: "of_nat (below_bucket vs b) + ucast (vfun (lh_buckets h) b) = (of_nat (below_bucket vs (Suc b)) :: u64)"
    by (simp add: below_Suc)
  have "below_bucket vs (Suc b) < 2 ^ 64" using below_length [of vs "Suc b"] len by simp
  then have "unat (of_nat (below_bucket vs (Suc b)) :: u64) = below_bucket vs (Suc b)"
    by (simp add: unat_of_nat take_bit_nat_eq_self)
  then have "target \<le> of_nat (below_bucket vs (Suc b)) \<longleftrightarrow> unat target \<le> below_bucket vs (Suc b)"
    by (simp only: word_le_nat_alt)
  moreover have "vget (lh_buckets h) b = Some (vfun (lh_buckets h) b)" using h b by (simp add: holds_def)
  ultimately show ?thesis using acc by (simp add: upt_conv_Cons [OF b] Let_def del: upt_Suc)
qed

text \<open>The scan stops at the first bucket up to which the requested number of values lie.\<close>

lemma scan_finds:
  assumes h: "holds h vs" and len: "length vs < 2 ^ 32"
    and B: "below_bucket vs B < unat target" "unat target \<le> below_bucket vs (Suc B)" "B < 544"
  shows "b \<le> B \<Longrightarrow> percentile_scan h target [b..<544] (of_nat (below_bucket vs b)) = Some (bucket_to_value B)"
proof (induction "B - b" arbitrary: b)
  case 0
  then have "b = B" by simp
  with scan_step [OF h len B(3)] B(2) show ?case by simp
next
  case (Suc n b)
  then have b: "b < 544" "Suc b \<le> B" using B(3) by simp_all
  have "below_bucket vs (Suc b) \<le> below_bucket vs B" by (rule below_mono [OF b(2)])
  then have "\<not> unat target \<le> below_bucket vs (Suc b)" using B(1) by simp
  with scan_step [OF h len b(1)] Suc.hyps(1) [of "Suc b"] Suc.hyps(2) b(2) show ?case by simp
qed

text \<open>The bucket of the \<open>t\<close>-th smallest value is that first bucket.\<close>

lemma rank_bucket:
  assumes "1 \<le> t" "t \<le> length vs"
  defines "B \<equiv> value_to_bucket (sort vs ! (t - 1))"
  shows "below_bucket vs B < t" "t \<le> below_bucket vs (Suc B)"
proof -
  let ?s = "sort vs" and ?x = "sort vs ! (t - 1)"
  have len: "t - 1 < length ?s" using assms by simp
  have below: "below_bucket vs b = length (filter (\<lambda>v. value_to_bucket v < b) ?s)" for b
    unfolding below_bucket_def by (metis filter_sort length_sort)
  have "filter (\<lambda>v. value_to_bucket v < B) (drop (t - 1) ?s) = []"
  proof -
    have "?x \<le> v" if v: "v \<in> set (drop (t - 1) ?s)" for v
    proof -
      obtain i where "i < length (drop (t - 1) ?s)" "v = drop (t - 1) ?s ! i" using v by (auto simp: in_set_conv_nth)
      then show ?thesis using sorted_nth_mono [of ?s "t - 1" "t - 1 + i"] len by simp
    qed
    then show ?thesis unfolding B_def by (auto simp: filter_empty_conv not_less intro: value_to_bucket_mono)
  qed
  then have "below_bucket vs B = length (filter (\<lambda>v. value_to_bucket v < B) (take (t - 1) ?s))"
    unfolding below by (metis append_Nil2 append_take_drop_id filter_append)
  also have "\<dots> \<le> t - 1" by (rule le_trans [OF length_filter_le]) simp
  finally show "below_bucket vs B < t" using assms(1) by simp
  have "filter (\<lambda>v. value_to_bucket v < Suc B) (take t ?s) = take t ?s"
  proof -
    have "v \<le> ?x" if v: "v \<in> set (take t ?s)" for v
    proof -
      obtain i where "i < t" "i < length ?s" "v = ?s ! i" using v by (auto simp: in_set_conv_nth)
      then show ?thesis using sorted_nth_mono [of ?s i "t - 1"] len by simp
    qed
    then show ?thesis unfolding B_def by (auto simp: filter_id_conv less_Suc_eq_le intro: value_to_bucket_mono)
  qed
  then have "length (take t ?s) \<le> below_bucket vs (Suc B)"
    unfolding below by (metis append_take_drop_id filter_append le_add1 length_append)
  then show "t \<le> below_bucket vs (Suc B)" using assms(2) by simp
qed

lemma percentile_rank:
  assumes h: "holds h vs" and len: "length vs < 2 ^ 32"
    and r: "1 \<le> unat (rank p (lh_count h))" "unat (rank p (lh_count h)) \<le> length vs"
  shows "percentile rank h p =
    Some (bucket_to_value (value_to_bucket (sort vs ! (unat (rank p (lh_count h)) - 1))))"
proof -
  have "unat (of_nat (length vs) :: u64) = length vs"
    using len by (simp add: unat_of_nat take_bit_nat_eq_self)
  then have "lh_count h \<noteq> 0" using h r by (auto simp: holds_def)
  moreover have "below_bucket vs 0 = 0" by (simp add: below_bucket_def)
  ultimately show ?thesis
    using scan_finds [OF h len rank_bucket [OF r] value_to_bucket_bound, of 0] by (simp add: percentile_def)
qed
text \<open>No percentile and no summary of a histogram panics, whatever the floating point rank is.\<close>

lemma percentile_scan_total:
  "(\<And>b. b \<in> set bs \<Longrightarrow> b < vlen (lh_buckets h)) \<Longrightarrow> \<exists>v. percentile_scan h target bs acc = Some v"
  by (induction bs arbitrary: acc) (simp_all add: Let_def)

lemma percentile_total: "holds h vs \<Longrightarrow> \<exists>v. percentile rank h p = Some v"
  using percentile_scan_total [of "[0..<544]" h "rank p (lh_count h)" 0] by (simp add: percentile_def holds_def)

lemma stats_total: "holds h vs \<Longrightarrow> \<exists>rp. stats rank throughput h = Some rp \<and> rp_total_orders rp = of_nat (length vs)"
  using percentile_total [of h vs rank 5000] percentile_total [of h vs rank 9500] percentile_total [of h vs rank 9900]
  by (auto simp: stats_def holds_def)

section \<open>Guarantees of the histogram\<close>

text \<open>Recording never panics, and the histogram is an exact summary: after any sequence of values it holds their
  number, sum, minimum and maximum, and in each bucket the number of values that fall into it (saturated
  at \<open>2^32 - 1\<close>).\<close>

lemma histogram_summary:
  "\<exists>h. record_all LatencyHistogram_new vs = Some h \<and>
    lh_count h = of_nat (length vs) \<and> lh_sum_ns h = of_nat (sum_list (map unat vs)) \<and>
    lh_min_ns h = fold min vs (- 1) \<and> lh_max_ns h = fold max vs 0 \<and>
    (\<forall>b. unat (vfun (lh_buckets h) b) = min (length (filter (\<lambda>v. value_to_bucket v = b) vs)) (2 ^ 32 - 1))"
  using record_all_holds [OF new_holds, of vs] by (auto simp: holds_def in_bucket_def)


text \<open>The rank of a percentile, as the code computes it, in exact arithmetic.\<close>

definition exact_rank :: "nat \<Rightarrow> u64 \<Rightarrow> u64" where
  "exact_rank p count = of_nat ((unat count * p + 9999) div 10000)"


end
