(* ===== verification/Bench.thy ===== *)
theory Bench
  imports Engine Metrics
begin

text \<open>
  The benchmark of \<open>src/bin/bench.rs\<close>: its pseudo-random generator, the stream of orders it makes, the
  funding of its accounts, and the loops that run the stream through the risk engine and the matching
  engine. The clock is a parameter: the loop takes the latency of each order. \<open>usize\<close> is 64 bits wide.
\<close>

section \<open>Pseudo-random numbers\<close>

definition FastRng_new :: "u64 \<Rightarrow> u64" where
  "FastRng_new seed = (if seed = 0 then 0xdeadbeefcafebabe else seed)"

definition next_u64 :: "u64 \<Rightarrow> u64 \<times> u64" where
  "next_u64 rng =
     (let x = rng;
          x = x XOR push_bit 13 x;
          x = x XOR drop_bit 7 x;
          x = x XOR push_bit 17 x
      in (x, x))"

text \<open>\<open>gen_range\<close> on \<open>usize\<close> and \<open>gen_range_u64\<close> are the same function of 64-bit words; an empty range
  panics.\<close>

definition gen_range :: "u64 \<Rightarrow> u64 \<Rightarrow> u64 \<Rightarrow> (u64 \<times> u64) option" where
  "gen_range rng start end' =
     (let (r, rng) = next_u64 rng in
      if end' - start = 0 then None else Some (start + r mod (end' - start), rng))"

definition gen_bool :: "u64 \<Rightarrow> bool \<times> u64" where
  "gen_bool rng = (let (r, rng) = next_u64 rng in (r AND 1 = 1, rng))"

section \<open>The order stream\<close>

record stream_state =
  ss_rng :: u64
  ss_orders :: "Order list"
  ss_active_quotes :: "(u64 \<times> Symbol \<times> u64) list"
  ss_next_order_id :: u64

definition swap_remove :: "'a list \<Rightarrow> nat \<Rightarrow> ('a \<times> 'a list) option" where
  "swap_remove xs i =
     (if i < length xs then Some (xs ! i, butlast (xs[i := last xs])) else None)"

definition symbols :: "Symbol list" where
  "symbols = [Btc, Eth, Sol]"

definition base_prices :: "u64 list" where
  "base_prices = [6500000, 350000, 15000]"

text \<open>The limit quote of a maker (60 percent of the orders).\<close>

definition gen_quote :: "stream_state \<Rightarrow> Symbol \<Rightarrow> u64 \<Rightarrow> stream_state option" where
  "gen_quote s symbol base_price =
     do {
       let (b, rng) = gen_bool (ss_rng s);
       let user_id = (if b then 1 else 2);
       let (b, rng) = gen_bool rng;
       let side = (if b then Buy else Sell);
       (spread_offset, rng) \<leftarrow> gen_range rng 5 100;
       let price = (if side = Buy then sat_sub base_price spread_offset else sat_add base_price spread_offset);
       (qty, rng) \<leftarrow> gen_range rng 1 10;
       let ord = new_limit (ss_next_order_id s) user_id symbol side price qty;
       Some \<lparr>ss_rng = rng, ss_orders = ss_orders s @ [ord],
             ss_active_quotes = ss_active_quotes s @ [(ss_next_order_id s, symbol, user_id)],
             ss_next_order_id = ss_next_order_id s + 1\<rparr>
     }"

text \<open>The cancellation of an active quote (20 percent).\<close>

definition gen_cancel :: "stream_state \<Rightarrow> stream_state option" where
  "gen_cancel s =
     do {
       (idx, rng) \<leftarrow> gen_range (ss_rng s) 0 (of_nat (length (ss_active_quotes s)));
       ((target_id, target_symbol, user_id), active_quotes) \<leftarrow> swap_remove (ss_active_quotes s) (unat idx);
       Some (s\<lparr>ss_rng := rng, ss_active_quotes := active_quotes,
               ss_orders := ss_orders s @ [new_cancel target_id user_id target_symbol]\<rparr>)
     }"

text \<open>An aggressive crossing order (15 percent), and a quote that may meet the user's own (5 percent).\<close>

definition gen_taker :: "stream_state \<Rightarrow> Symbol \<Rightarrow> u64 \<Rightarrow> stream_state option" where
  "gen_taker s symbol base_price =
     do {
       let user_id = 3;
       let (b, rng) = gen_bool (ss_rng s);
       let side = (if b then Buy else Sell);
       (qty, rng) \<leftarrow> gen_range rng 1 5;
       let price = (if side = Buy then base_price + 200 else sat_sub base_price 200);
       let ord = new_limit (ss_next_order_id s) user_id symbol side price qty;
       Some (s\<lparr>ss_rng := rng, ss_next_order_id := ss_next_order_id s + 1, ss_orders := ss_orders s @ [ord]\<rparr>)
     }"

definition gen_stp :: "stream_state \<Rightarrow> Symbol \<Rightarrow> u64 \<Rightarrow> stream_state" where
  "gen_stp s symbol base_price =
     (let ord = new_limit (ss_next_order_id s) 1 symbol Buy (base_price + 50) 2
      in s\<lparr>ss_next_order_id := ss_next_order_id s + 1, ss_orders := ss_orders s @ [ord]\<rparr>)"

definition gen_order :: "stream_state \<Rightarrow> stream_state option" where
  "gen_order s =
     do {
       (sym_idx, rng) \<leftarrow> gen_range (ss_rng s) 0 3;
       symbol \<leftarrow> (if unat sym_idx < length symbols then Some (symbols ! unat sym_idx) else None);
       base_price \<leftarrow> (if unat sym_idx < length base_prices then Some (base_prices ! unat sym_idx) else None);
       (action, rng) \<leftarrow> gen_range rng 0 100;
       let s = s\<lparr>ss_rng := rng\<rparr>;
       if action < 60 then gen_quote s symbol base_price
       else if action < 80 \<and> ss_active_quotes s \<noteq> [] then gen_cancel s
       else if action < 95 then gen_taker s symbol base_price
       else Some (gen_stp s symbol base_price)
     }"

primrec gen_orders :: "nat \<Rightarrow> stream_state \<Rightarrow> stream_state option" where
  "gen_orders 0 s = Some s"
| "gen_orders (Suc n) s = do { s \<leftarrow> gen_order s; gen_orders n s }"

definition generate_order_stream :: "nat \<Rightarrow> Order list option" where
  "generate_order_stream n =
     map_option ss_orders
       (gen_orders n \<lparr>ss_rng = FastRng_new 42, ss_orders = [], ss_active_quotes = [], ss_next_order_id = 1\<rparr>)"

section \<open>The benchmark loops\<close>

definition prefund_bench :: "RiskEngine \<Rightarrow> RiskEngine" where
  "prefund_bench risk =
     fold (\<lambda>uid risk.
             (let risk = deposit risk (of_nat uid) 100000000000 (Symbol_as Btc) 1000000;
                  risk = deposit risk (of_nat uid) 0 (Symbol_as Eth) 1000000
              in deposit risk (of_nat uid) 0 (Symbol_as Sol) 10000000))
       [1..<11] risk"

definition warmup_step :: "MultiAssetEngine \<times> RiskEngine \<Rightarrow> Order \<Rightarrow> (MultiAssetEngine \<times> RiskEngine) option" where
  "warmup_step s order =
     (let (engine, risk) = s in
      if order_type_of order = Cancel then
        do {
          (engine, _) \<leftarrow> me_cancel_order engine (ord_symbol_id order) (ord_user_id order) (ord_id order);
          Some (engine, risk)
        }
      else
        (case lock_order_funds risk order of
           (risk, Inl _) \<Rightarrow> Some (engine, risk)
         | (risk, Inr _) \<Rightarrow> do {
             (engine, _, _) \<leftarrow> me_process engine order 0 [];
             Some (engine, risk)
           }))"

primrec warmup_run ::
  "MultiAssetEngine \<times> RiskEngine \<Rightarrow> Order list \<Rightarrow> (MultiAssetEngine \<times> RiskEngine) option" where
  "warmup_run s [] = Some s"
| "warmup_run s (order # orders) = do { s \<leftarrow> warmup_step s order; warmup_run s orders }"

record bench_state =
  bs_engine :: MultiAssetEngine
  bs_risk :: RiskEngine
  bs_hist :: LatencyHistogram
  bs_limit_orders :: u64
  bs_cancels :: u64
  bs_total_trades :: u64
  bs_stp_count :: u64

definition bench_cancel :: "bench_state \<Rightarrow> Order \<Rightarrow> bench_state option" where
  "bench_cancel s order =
     do {
       (engine, r) \<leftarrow> me_cancel_order (bs_engine s) (ord_symbol_id order) (ord_user_id order) (ord_id order);
       let s = s\<lparr>bs_engine := engine\<rparr>;
       (case r of
          Inr cancelled \<Rightarrow>
            Some (s\<lparr>bs_risk := unlock_cancelled_order_margin (bs_risk s) cancelled (ord_qty cancelled),
                    bs_cancels := bs_cancels s + 1\<rparr>)
        | Inl _ \<Rightarrow> Some s)
     }"

definition bench_report :: "bench_state \<Rightarrow> Order \<Rightarrow> ExecutionReport \<Rightarrow> Trade list \<Rightarrow> bench_state" where
  "bench_report s order report trades =
     (let s = s\<lparr>bs_limit_orders := bs_limit_orders s + 1\<rparr>;
          s = (if er_stp_triggered report then
                 (let s = s\<lparr>bs_stp_count := bs_stp_count s + 1\<rparr> in
                  if er_remaining_qty report > 0
                  then s\<lparr>bs_risk := unlock_cancelled_order_margin (bs_risk s) order (er_remaining_qty report)\<rparr>
                  else s)
               else s)
      in fold (\<lambda>trade s. s\<lparr>bs_risk := settle_trade (bs_risk s) trade (ord_price order),
                           bs_total_trades := bs_total_trades s + 1\<rparr>) trades s)"

definition bench_order :: "bench_state \<Rightarrow> Order \<Rightarrow> bench_state option" where
  "bench_order s order =
     (case lock_order_funds (bs_risk s) order of
        (risk, Inl _) \<Rightarrow> Some (s\<lparr>bs_risk := risk\<rparr>)
      | (risk, Inr _) \<Rightarrow> do {
          let s = s\<lparr>bs_risk := risk\<rparr>;
          (engine, trades, r) \<leftarrow> me_process (bs_engine s) order 0 [];
          let s = s\<lparr>bs_engine := engine\<rparr>;
          (case r of
             Inr report \<Rightarrow> Some (bench_report s order report trades)
           | Inl _ \<Rightarrow> Some s)
        })"

definition bench_step :: "bench_state \<Rightarrow> Order \<times> u64 \<Rightarrow> bench_state option" where
  "bench_step s input =
     do {
       let (order, lat_ns) = input;
       s \<leftarrow> (if order_type_of order = Cancel then bench_cancel s order else bench_order s order);
       hist \<leftarrow> record_latency (bs_hist s) lat_ns;
       Some (s\<lparr>bs_hist := hist\<rparr>)
     }"

primrec bench_run :: "bench_state \<Rightarrow> (Order \<times> u64) list \<Rightarrow> bench_state option" where
  "bench_run s [] = Some s"
| "bench_run s (x # xs) = do { s \<leftarrow> bench_step s x; bench_run s xs }"

definition bench_start :: bench_state where
  "bench_start =
     \<lparr>bs_engine = MultiAssetEngine_new, bs_risk = prefund_bench RiskEngine_new, bs_hist = LatencyHistogram_new,
      bs_limit_orders = 0, bs_cancels = 0, bs_total_trades = 0, bs_stp_count = 0\<rparr>"

text \<open>
  The whole program: the stream, a warm-up on its first 50000 orders with an engine of its own, the measured
  run, the percentiles and the summary of the latencies.
\<close>

definition bench_main ::
  "(nat \<Rightarrow> u64 \<Rightarrow> u64) \<Rightarrow> (u64 \<Rightarrow> 'f::zero) \<Rightarrow> nat \<Rightarrow> u64 list \<Rightarrow>
     (bench_state \<times> u64 list \<times> 'f LatencyReport) option" where
  "bench_main rank throughput order_count latencies =
     do {
       orders \<leftarrow> generate_order_stream order_count;
       _ \<leftarrow> warmup_run (MultiAssetEngine_new, prefund_bench RiskEngine_new) (take 50000 orders);
       s \<leftarrow> bench_run bench_start (zip orders latencies);
       let hist = bs_hist s;
       p50 \<leftarrow> percentile rank hist 5000;
       p90 \<leftarrow> percentile rank hist 9000;
       p95 \<leftarrow> percentile rank hist 9500;
       p99 \<leftarrow> percentile rank hist 9900;
       p99_9 \<leftarrow> percentile rank hist 9990;
       p99_99 \<leftarrow> percentile rank hist 9999;
       report \<leftarrow> stats rank throughput hist;
       Some (s, [p50, p90, p95, p99, p99_9, p99_99], report)
     }"

section \<open>The generator\<close>

text \<open>Each of the three xor-shifts maps only zero to zero, so the generator never gets stuck at zero.\<close>

lemma xor_zero: "a XOR b = 0 \<Longrightarrow> a = (b :: u64)"
proof -
  assume "a XOR b = 0"
  then have "(a XOR b) XOR b = 0 XOR b" by (rule arg_cong)
  then show ?thesis by (simp only: xor.assoc xor_self_eq xor.right_neutral xor.left_neutral)
qed

lemma shift_left_nonzero:
  assumes "0 < n" "x \<noteq> 0"
  shows "x XOR push_bit n x \<noteq> (0 :: u64)"
proof
  assume "x XOR push_bit n x = 0"
  then have e: "x = push_bit n x" by (rule xor_zero)
  have "\<not> bit x k" for k
  proof (induction k rule: less_induct)
    case (less k)
    have "bit x k \<Longrightarrow> bit (push_bit n x) k" using e by simp
    then have "bit x k \<Longrightarrow> n \<le> k \<and> bit x (k - n)" by (auto simp: bit_push_bit_iff)
    with less [of "k - n"] assms(1) show ?case by auto
  qed
  then have "x = 0" by (intro bit_word_eqI) simp
  with assms(2) show False by contradiction
qed

lemma shift_right_nonzero:
  assumes "0 < n" "x \<noteq> 0"
  shows "x XOR drop_bit n x \<noteq> (0 :: u64)"
proof
  assume "x XOR drop_bit n x = 0"
  then have e: "x = drop_bit n x" by (rule xor_zero)
  have "unat x div 2 ^ n < unat x" using assms one_less_power [of "2 :: nat" n]
    by (intro div_less_dividend) (simp_all add: unat_gt_0)
  moreover have "unat x = unat (drop_bit n x)" using e by (rule arg_cong)
  moreover have "unat (drop_bit n x) = unat x div 2 ^ n"
    by (simp only: unsigned_drop_bit_eq)
      (simp add: drop_bit_eq_div take_bit_eq_mod mod_less [OF unat_lt64 [simplified]])
  ultimately show False by linarith
qed

lemma next_nonzero: "rng \<noteq> 0 \<Longrightarrow> snd (next_u64 rng) \<noteq> 0"
  unfolding next_u64_def Let_def snd_conv
  by (intro shift_left_nonzero shift_right_nonzero) simp_all

lemma gen_range_bounds:
  assumes "gen_range rng a b = Some (r, rng')" "a < b"
  shows "a \<le> r" "r < b"
proof -
  define q where "q = fst (next_u64 rng) mod (b - a)"
  have r: "r = a + q" using assms by (auto simp: gen_range_def q_def split: prod.splits if_splits)
  have ba: "unat (b - a) = unat b - unat a" using assms(2) by (simp add: unat_sub)
  have "unat q < unat b - unat a"
    unfolding q_def unat_mod_distrib ba using assms(2) by (simp add: word_less_nat_alt)
  moreover from this have "unat (a + q) = unat a + unat q"
    using unat_lt64 [of b] by (intro unat_add_small) simp
  ultimately show "a \<le> r" "r < b" unfolding r word_le_nat_alt word_less_nat_alt by simp_all
qed

lemma gen_range_total: "a \<noteq> b \<Longrightarrow> \<exists>r rng'. gen_range rng a b = Some (r, rng')"
  by (auto simp: gen_range_def split: prod.split)

section \<open>The stream\<close>

text \<open>
  What the stream promises: valid limit orders numbered from 1, and cancels, each of an order that was
  issued before it, by the same user in the same symbol.
\<close>

definition valid_limit :: "Order \<Rightarrow> bool" where
  "valid_limit o' \<longleftrightarrow>
     order_type_of o' = Limit \<and> get_side o' \<noteq> None \<and> unat (ord_symbol_id o') < NUM_SYMBOLS \<and>
     ord_user_id o' \<in> {1, 2, 3} \<and> 14800 \<le> ord_price o' \<and> ord_price o' \<le> 6500200 \<and>
     1 \<le> ord_qty o' \<and> ord_qty o' < 10"

definition same_target :: "Order \<Rightarrow> Order \<Rightarrow> bool" where
  "same_target c o' \<longleftrightarrow>
     ord_id o' = ord_id c \<and> ord_user_id o' = ord_user_id c \<and> ord_symbol_id o' = ord_symbol_id c"

definition limits :: "Order list \<Rightarrow> Order list" where
  "limits os = filter (\<lambda>o'. order_type_of o' = Limit) os"

definition stream_ok :: "Order list \<Rightarrow> bool" where
  "stream_ok os \<longleftrightarrow>
     (\<forall>o'\<in>set os. valid_limit o' \<or> order_type_of o' = Cancel) \<and>
     map ord_id (limits os) = map (\<lambda>k. of_nat (Suc k)) [0..<length (limits os)] \<and>
     (\<forall>j<length os. order_type_of (os ! j) = Cancel \<longrightarrow>
        (\<exists>o'\<in>set (take j os). valid_limit o' \<and> same_target (os ! j) o'))"

definition gen_ok :: "stream_state \<Rightarrow> bool" where
  "gen_ok s \<longleftrightarrow>
     stream_ok (ss_orders s) \<and> ss_next_order_id s = of_nat (Suc (length (limits (ss_orders s)))) \<and>
     (\<forall>(i, sy, u)\<in>set (ss_active_quotes s).
        \<exists>o'\<in>set (ss_orders s). valid_limit o' \<and> ord_id o' = i \<and> ord_symbol_id o' = Symbol_as sy \<and> ord_user_id o' = u)"

lemma order_types [simp]:
  "order_type_of (new_limit i u sy d p q) = Limit" "order_type_of (new_cancel i u sy) = Cancel"
  by (simp_all add: ob_simps)

lemma new_limit_sel [simp]:
  "ord_id (new_limit i u sy d p q) = i" "ord_user_id (new_limit i u sy d p q) = u"
  "ord_price (new_limit i u sy d p q) = p" "ord_qty (new_limit i u sy d p q) = q"
  "ord_symbol_id (new_limit i u sy d p q) = Symbol_as sy"
  by (simp_all add: new_limit_def)

lemma valid_new_limit:
  "u \<in> {1, 2, 3} \<Longrightarrow> 14800 \<le> p \<Longrightarrow> p \<le> 6500200 \<Longrightarrow> 1 \<le> q \<Longrightarrow> q < 10 \<Longrightarrow> valid_limit (new_limit i u sy d p q)"
  by (cases sy; cases d)
    (simp_all add: valid_limit_def NUM_SYMBOLS_def ob_simps)

text \<open>Appending a limit order under the next id, or a cancel of an active quote.\<close>

lemma gen_limit_ok:
  assumes "gen_ok s" "valid_limit l" "ord_id l = ss_next_order_id s" "ss_orders s' = ss_orders s @ [l]"
    "ss_next_order_id s' = ss_next_order_id s + 1"
    "\<And>i sy u. (i, sy, u) \<in> set (ss_active_quotes s') \<Longrightarrow> (i, sy, u) \<in> set (ss_active_quotes s) \<or>
       ord_id l = i \<and> ord_symbol_id l = Symbol_as sy \<and> ord_user_id l = u"
  shows "gen_ok s'"
proof -
  have t: "order_type_of l = Limit" using assms(2) by (simp add: valid_limit_def)
  have "stream_ok (ss_orders s @ [l])"
    using assms(1-3) t by (auto simp: gen_ok_def stream_ok_def limits_def nth_append less_Suc_eq)
  moreover have "\<exists>o'\<in>set (ss_orders s'). valid_limit o' \<and> ord_id o' = i \<and> ord_symbol_id o' = Symbol_as sy \<and> ord_user_id o' = u"
    if "(i, sy, u) \<in> set (ss_active_quotes s')" for i sy u
    using assms(6) [OF that] assms(1,2,4) by (fastforce simp: gen_ok_def)
  ultimately show ?thesis
    using assms(1,4,5) t by (auto simp: gen_ok_def limits_def)
qed

lemma gen_cancel_ok:
  assumes "gen_ok s" "(i, sy, u) \<in> set (ss_active_quotes s)" "ss_orders s' = ss_orders s @ [new_cancel i u sy]"
    "ss_next_order_id s' = ss_next_order_id s" "set (ss_active_quotes s') \<subseteq> set (ss_active_quotes s)"
  shows "gen_ok s'"
proof -
  obtain o' where o': "o' \<in> set (ss_orders s)" "valid_limit o'" "ord_id o' = i" "ord_symbol_id o' = Symbol_as sy"
    "ord_user_id o' = u" using assms(1,2) by (fastforce simp: gen_ok_def)
  then have "same_target (new_cancel i u sy) o'" by (simp add: same_target_def new_cancel_def)
  with o' assms(1) have "stream_ok (ss_orders s @ [new_cancel i u sy])"
    by (auto simp: gen_ok_def stream_ok_def limits_def nth_append less_Suc_eq)
  with assms show ?thesis by (fastforce simp: gen_ok_def limits_def)
qed
lemma price_range:
  assumes "base \<in> {6500000, 350000, 15000 :: u64}" "off < 201"
  shows "14800 \<le> sat_sub base off" "sat_sub base off \<le> 6500200" "14800 \<le> sat_add base off" "sat_add base off \<le> 6500200"
    "14800 \<le> base + off" "base + off \<le> 6500200"
proof -
  have o: "unat off < 201" using assms(2) by (simp add: word_less_nat_alt)
  have b: "15000 \<le> unat base" "unat base \<le> 6500000" using assms(1) by auto
  have s: "unat (base + off) = unat base + unat off" using o b by (intro unat_add_small) simp
  show "14800 \<le> sat_sub base off" "sat_sub base off \<le> 6500200" "14800 \<le> sat_add base off" "sat_add base off \<le> 6500200"
    "14800 \<le> base + off" "base + off \<le> 6500200"
    using o b by (simp_all add: word_le_nat_alt unat_sat_sub unat_sat_add s)
qed

definition grows :: "stream_state \<Rightarrow> stream_state \<Rightarrow> bool" where
  "grows s s' \<longleftrightarrow>
     gen_ok s' \<and> length (ss_orders s') = Suc (length (ss_orders s)) \<and>
     length (ss_active_quotes s') \<le> Suc (length (ss_active_quotes s))"

lemma word_below_201: "a < b \<Longrightarrow> b \<le> 201 \<Longrightarrow> a < (201 :: u64)"
  by (rule less_le_trans)

lemma gen_quote_ok:
  assumes s: "gen_ok s" and base: "base \<in> {6500000, 350000, 15000}"
  shows "\<exists>s'. gen_quote s sy base = Some s' \<and> grows s s'"
proof -
  obtain b1 rng1 where 1: "gen_bool (ss_rng s) = (b1, rng1)" by (rule prod.exhaust)
  obtain b2 rng2 where 2: "gen_bool rng1 = (b2, rng2)" by (rule prod.exhaust)
  obtain off rng3 where 3: "gen_range rng2 5 100 = Some (off, rng3)" using gen_range_total [of 5 100 rng2] by auto
  obtain q rng4 where 4: "gen_range rng3 1 10 = Some (q, rng4)" using gen_range_total [of 1 10 rng3] by auto
  let ?u = "if b1 then 1 else 2 :: u64" and ?d = "if b2 then Buy else Sell"
  let ?p = "if ?d = Buy then sat_sub base off else sat_add base off"
  let ?l = "new_limit (ss_next_order_id s) ?u sy ?d ?p q"
  have q: "1 \<le> q" "q < 10" using gen_range_bounds [OF 4] by simp_all
  have "off < 201" using gen_range_bounds(2) [OF 3] by (rule word_below_201) simp_all
  note p = price_range [OF base this]
  have v: "valid_limit ?l" by (rule valid_new_limit) (use p q in auto)
  show ?thesis
    unfolding gen_quote_def 1 2 3 4 Let_def prod.case Option.bind.bind_lunit grows_def
    by (intro exI conjI, rule refl, rule gen_limit_ok [OF s v]) auto
qed

lemma gen_taker_ok:
  assumes s: "gen_ok s" and base: "base \<in> {6500000, 350000, 15000}"
  shows "\<exists>s'. gen_taker s sy base = Some s' \<and> grows s s'"
proof -
  obtain b1 rng1 where 1: "gen_bool (ss_rng s) = (b1, rng1)" by (rule prod.exhaust)
  obtain q rng2 where 2: "gen_range rng1 1 5 = Some (q, rng2)" using gen_range_total [of 1 5 rng1] by auto
  let ?d = "if b1 then Buy else Sell"
  let ?p = "if ?d = Buy then base + 200 else sat_sub base 200"
  let ?l = "new_limit (ss_next_order_id s) 3 sy ?d ?p q"
  have q: "1 \<le> q" "q < 5" using gen_range_bounds [OF 2] by simp_all
  have "q < 10" using q(2) by (rule less_trans) simp
  moreover note p = price_range [OF base, of 200]
  ultimately have v: "valid_limit ?l" by (intro valid_new_limit) (use q in auto)
  show ?thesis
    unfolding gen_taker_def 1 2 Let_def prod.case Option.bind.bind_lunit grows_def
    by (intro exI conjI, rule refl, rule gen_limit_ok [OF s v]) auto
qed

lemma gen_stp_ok:
  assumes s: "gen_ok s" and base: "base \<in> {6500000, 350000, 15000}"
  shows "grows s (gen_stp s sy base)"
proof -
  have v: "valid_limit (new_limit (ss_next_order_id s) 1 sy Buy (base + 50) 2)"
    by (intro valid_new_limit) (use price_range [OF base, of 50] in auto)
  show ?thesis
    unfolding gen_stp_def Let_def grows_def by (intro conjI, rule gen_limit_ok [OF s v]) auto
qed

lemma swap_remove_ok:
  "i < length xs \<Longrightarrow> \<exists>x ys. swap_remove xs i = Some (x, ys) \<and> x \<in> set xs \<and> set ys \<subseteq> set xs \<and> length ys \<le> length xs"
proof -
  assume i: "i < length xs"
  then have "last xs \<in> set xs" by (intro last_in_set) auto
  then have "set (butlast (xs[i := last xs])) \<subseteq> set xs"
    using set_update_subset_insert [of xs i "last xs"] by (auto dest: in_set_butlastD)
  with i show ?thesis by (simp add: swap_remove_def)
qed

lemma gen_cancel_total:
  assumes s: "gen_ok s" and a: "ss_active_quotes s \<noteq> []" "length (ss_active_quotes s) < 2 ^ 64"
  shows "\<exists>s'. gen_cancel s = Some s' \<and> grows s s'"
proof -
  let ?n = "of_nat (length (ss_active_quotes s)) :: u64"
  have n: "unat ?n = length (ss_active_quotes s)" using a(2) by (simp add: unat_of_nat take_bit_nat_eq_self)
  with a(1) have nz: "0 < ?n" by (simp add: word_less_nat_alt)
  obtain idx rng1 where 1: "gen_range (ss_rng s) 0 ?n = Some (idx, rng1)"
    using gen_range_total [OF less_imp_neq [OF nz]] by blast
  have "unat idx < length (ss_active_quotes s)"
    using gen_range_bounds(2) [OF 1 nz] n by (simp add: word_less_nat_alt)
  from swap_remove_ok [OF this] obtain i sy u ys where 2: "swap_remove (ss_active_quotes s) (unat idx) = Some ((i, sy, u), ys)"
    and m: "(i, sy, u) \<in> set (ss_active_quotes s)" "set ys \<subseteq> set (ss_active_quotes s)" "length ys \<le> length (ss_active_quotes s)"
    by (metis prod_cases3)
  show ?thesis
    unfolding gen_cancel_def 1 2 prod.case Option.bind.bind_lunit grows_def
    by (intro exI conjI, rule refl, rule gen_cancel_ok [OF s m(1)]) (use m in auto)
qed

lemma gen_ok_rng: "gen_ok s \<Longrightarrow> gen_ok (s\<lparr>ss_rng := rng\<rparr>)"
  by (simp add: gen_ok_def)

lemma gen_order_ok:
  assumes s: "gen_ok s" and a: "length (ss_active_quotes s) < 2 ^ 64"
  shows "\<exists>s'. gen_order s = Some s' \<and> grows s s'"
proof -
  obtain k rng1 where 1: "gen_range (ss_rng s) 0 3 = Some (k, rng1)" using gen_range_total [of 0 3 "ss_rng s"] by auto
  obtain act rng2 where 2: "gen_range rng1 0 100 = Some (act, rng2)" using gen_range_total [of 0 100 rng1] by auto
  have k: "unat k < 3" using gen_range_bounds(2) [OF 1] by (simp add: word_less_nat_alt)
  let ?sy = "symbols ! unat k" and ?base = "base_prices ! unat k" and ?s = "s\<lparr>ss_rng := rng2\<rparr>"
  have len: "unat k < length symbols" "unat k < length base_prices" using k by (simp_all add: symbols_def base_prices_def)
  then have "?base \<in> set base_prices" by simp
  then have base: "?base \<in> {6500000, 350000, 15000}" by (simp add: base_prices_def)
  have g: "grows ?s s' \<longleftrightarrow> grows s s'" for s' by (simp add: grows_def)
  note q = gen_quote_ok [OF gen_ok_rng [OF s, of rng2] base, of ?sy, unfolded g]
    and t = gen_taker_ok [OF gen_ok_rng [OF s, of rng2] base, of ?sy, unfolded g]
    and p = gen_stp_ok [OF gen_ok_rng [OF s, of rng2] base, of ?sy, unfolded g]
    and c = gen_cancel_total [OF gen_ok_rng [OF s, of rng2], unfolded g]
  have "gen_order s = (if act < 60 then gen_quote ?s ?sy ?base
      else if act < 80 \<and> ss_active_quotes ?s \<noteq> [] then gen_cancel ?s
      else if act < 95 then gen_taker ?s ?sy ?base else Some (gen_stp ?s ?sy ?base))"
    unfolding gen_order_def 1 Option.bind.bind_lunit prod.case if_P [OF len(1)] if_P [OF len(2)] 2 Let_def
    by (rule refl)
  then show ?thesis using q t p c a by simp
qed

lemma gen_orders_ok:
  "gen_ok s \<Longrightarrow> length (ss_active_quotes s) + n < 2 ^ 64 \<Longrightarrow>
     \<exists>s'. gen_orders n s = Some s' \<and> gen_ok s' \<and> length (ss_orders s') = length (ss_orders s) + n"
proof (induction n arbitrary: s)
  case (Suc n)
  from gen_order_ok [OF Suc.prems(1)] Suc.prems(2) obtain s1 where s1: "gen_order s = Some s1" "grows s s1" by auto
  then have "gen_ok s1" "length (ss_active_quotes s1) + n < 2 ^ 64" using Suc.prems(2) by (auto simp: grows_def)
  from Suc.IH [OF this] s1 show ?case by (auto simp: grows_def)
qed simp

text \<open>Whatever the seed and the number of draws, the xor-shift state is not zero, from which it could not recover.\<close>

lemma rng_never_zero: "((\<lambda>rng. snd (next_u64 rng)) ^^ n) (FastRng_new seed) \<noteq> 0"
proof (induction n)
  case 0
  show ?case by (simp add: FastRng_new_def)
next
  case (Suc n)
  then show ?case using next_nonzero by simp
qed

section \<open>The loops\<close>

text \<open>
  What the loops need of their orders: the ids of the orders that are not cancels grow, from \<open>c\<close> on, and
  their symbols exist. No margin and no room in a level is needed, since the books never depend on it.
\<close>

fun increasing :: "u64 \<Rightarrow> Order list \<Rightarrow> bool" where
  "increasing c [] = True"
| "increasing c (order # os) =
     (if order_type_of order = Cancel then increasing c os
      else c \<le> ord_id order \<and> ord_id order \<noteq> 0 \<and> ord_id order \<noteq> - 1 \<and>
        unat (ord_symbol_id order) < NUM_SYMBOLS \<and> increasing (ord_id order + 1) os)"

definition engine_upto :: "u64 \<Rightarrow> MultiAssetEngine \<Rightarrow> bool" where
  "engine_upto c e \<longleftrightarrow> (\<exists>Bs. engine_rel False e Bs) \<and> me_global_order_id_counter e \<le> c"

lemma engine_upto_mono: "engine_upto c e \<Longrightarrow> c \<le> c' \<Longrightarrow> engine_upto c' e"
  by (auto simp: engine_upto_def)

lemma engine_upto_cancel:
  assumes "engine_upto c e"
  shows "\<exists>e' r. me_cancel_order e sy uid oid = Some (e', r) \<and> engine_upto c e'"
proof (cases "unat sy < NUM_SYMBOLS")
  case True
  obtain Bs where "engine_rel False e Bs" using assms by (auto simp: engine_upto_def)
  moreover obtain B' r where "acancel (Bs (unat sy)) uid oid = (B', r)" by (rule prod.exhaust)
  ultimately obtain e' where "me_cancel_order e sy uid oid = Some (e', r)" "engine_rel False e' (Bs(unat sy := B'))"
    "me_global_order_id_counter e' = me_global_order_id_counter e" using me_cancel_rel [OF _ True refl] by blast
  with assms show ?thesis by (auto simp: engine_upto_def)
next
  case False
  with assms show ?thesis by (simp add: me_cancel_order_def)
qed

lemma engine_upto_process:
  assumes "engine_upto c e" and o': "order_type_of order \<noteq> Cancel" "c \<le> ord_id order" "ord_id order \<noteq> 0"
    "ord_id order \<noteq> - 1" "unat (ord_symbol_id order) < NUM_SYMBOLS"
  shows "\<exists>e' ts r. me_process e order cid [] = Some (e', ts, r) \<and> engine_upto (ord_id order + 1) e'"
proof -
  let ?s = "unat (ord_symbol_id order)"
  obtain Bs where E: "engine_rel False e Bs" and c: "me_global_order_id_counter e \<le> ord_id order"
    using assms(1,3) by (auto simp: engine_upto_def)
  obtain B' ts r where A: "aprocess (Bs ?s) order cid = (B', ts, r)" by (rule prod_cases3)
  have "admissible (Bs ?s) order" by (rule ids_below_fresh [OF engine_relD(2) [OF E o'(5)] c o'(3)])
  from me_process_rel [OF E o'(5) refl o'(3,4) this _ o'(1) A, of "[]"] obtain e' where
    "me_process e order cid [] = Some (e', ts, r)" "engine_rel False e' (Bs(?s := B'))"
    "me_global_order_id_counter e' = max (me_global_order_id_counter e) (ord_id order + 1)" by auto
  moreover have "ord_id order < ord_id order + 1" using o'(4) by (rule word_less_add_one)
  ultimately show ?thesis using c by (auto simp: engine_upto_def)
qed

lemma warmup_step_ok:
  assumes "engine_upto c e" "increasing c (order # os)"
  shows "\<exists>e' re' c'. warmup_step (e, re) order = Some (e', re') \<and> engine_upto c' e' \<and> increasing c' os"
proof (cases "order_type_of order = Cancel")
  case True
  with engine_upto_cancel [OF assms(1), of "ord_symbol_id order" "ord_user_id order" "ord_id order"] assms(2)
  show ?thesis by (auto simp: warmup_step_def)
next
  case False
  have i: "c \<le> ord_id order" "ord_id order \<noteq> 0" "ord_id order \<noteq> - 1" "unat (ord_symbol_id order) < NUM_SYMBOLS"
    "increasing (ord_id order + 1) os" using assms(2) False by simp_all
  have "c \<le> ord_id order + 1" using i(1) word_less_add_one [OF i(3)] by simp
  then have "engine_upto (ord_id order + 1) e" by (rule engine_upto_mono [OF assms(1)])
  with engine_upto_process [OF assms(1) False i(1-4), of 0] i(5) False show ?thesis
    by (cases "lock_order_funds re order"; cases "snd (lock_order_funds re order)") (auto simp: warmup_step_def)
qed

lemma warmup_run_ok: "engine_upto c e \<Longrightarrow> increasing c os \<Longrightarrow> \<exists>s. warmup_run (e, re) os = Some s"
proof (induction os arbitrary: c e re)
  case (Cons order os)
  from warmup_step_ok [OF Cons.prems, of re] Cons.IH show ?case by fastforce
qed simp

lemma bench_report_sel [simp]:
  "bs_engine (bench_report s order rep ts) = bs_engine s" "bs_hist (bench_report s order rep ts) = bs_hist s"
proof -
  have "bs_engine (fold (\<lambda>trade s. s\<lparr>bs_risk := settle_trade (bs_risk s) trade p, bs_total_trades := bs_total_trades s + 1\<rparr>) ts s) = bs_engine s"
    "bs_hist (fold (\<lambda>trade s. s\<lparr>bs_risk := settle_trade (bs_risk s) trade p, bs_total_trades := bs_total_trades s + 1\<rparr>) ts s) = bs_hist s"
    for p and s :: bench_state
    by (induction ts arbitrary: s) simp_all
  then show "bs_engine (bench_report s order rep ts) = bs_engine s" "bs_hist (bench_report s order rep ts) = bs_hist s"
    by (simp_all add: bench_report_def Let_def)
qed

lemma bench_step_ok:
  assumes "engine_upto c (bs_engine s)" "increasing c (order # os)" "holds (bs_hist s) vs"
  shows "\<exists>s' c'. bench_step s (order, v) = Some s' \<and> engine_upto c' (bs_engine s') \<and> increasing c' os \<and>
    holds (bs_hist s') (vs @ [v])"
proof -
  have "\<exists>s1 c'. (if order_type_of order = Cancel then bench_cancel s order else bench_order s order) = Some s1 \<and>
    engine_upto c' (bs_engine s1) \<and> increasing c' os \<and> bs_hist s1 = bs_hist s"
  proof (cases "order_type_of order = Cancel")
    case True
    from engine_upto_cancel [OF assms(1), of "ord_symbol_id order" "ord_user_id order" "ord_id order"] obtain e' r where
      "me_cancel_order (bs_engine s) (ord_symbol_id order) (ord_user_id order) (ord_id order) = Some (e', r)"
      "engine_upto c e'" by blast
    with True assms(2) show ?thesis by (cases r) (auto simp: bench_cancel_def)
  next
    case False
    have i: "c \<le> ord_id order" "ord_id order \<noteq> 0" "ord_id order \<noteq> - 1" "unat (ord_symbol_id order) < NUM_SYMBOLS"
      "increasing (ord_id order + 1) os" using assms(2) False by simp_all
    have "c \<le> ord_id order + 1" using i(1) word_less_add_one [OF i(3)] by simp
    then have up: "engine_upto (ord_id order + 1) (bs_engine s)" by (rule engine_upto_mono [OF assms(1)])
    obtain re l where L: "lock_order_funds (bs_risk s) order = (re, l)" by (rule prod.exhaust)
    from engine_upto_process [OF assms(1) False i(1-4), of 0] obtain e' ts r where
      "me_process (bs_engine s) order 0 [] = Some (e', ts, r)" "engine_upto (ord_id order + 1) e'" by blast
    with L up i(5) False show ?thesis
      by (cases l; cases r) (auto simp: bench_order_def)
  qed
  then obtain s1 c' where s1: "(if order_type_of order = Cancel then bench_cancel s order else bench_order s order) = Some s1"
    "engine_upto c' (bs_engine s1)" "increasing c' os" "bs_hist s1 = bs_hist s" by blast
  from record_holds [OF assms(3), of v] obtain h where "record_latency (bs_hist s) v = Some h" "holds h (vs @ [v])" by blast
  with s1 show ?thesis by (auto simp: bench_step_def simp del: if_split)
qed

lemma bench_run_ok:
  "engine_upto c (bs_engine s) \<Longrightarrow> increasing c os \<Longrightarrow> holds (bs_hist s) us \<Longrightarrow> length vs = length os \<Longrightarrow>
     \<exists>s'. bench_run s (zip os vs) = Some s' \<and> holds (bs_hist s') (us @ vs)"
proof (induction os arbitrary: c s us vs)
  case (Cons order os)
  then obtain v vs' where vs: "vs = v # vs'" "length vs' = length os" by (cases vs) auto
  from bench_step_ok [OF Cons.prems(1-3), of v] obtain s1 c1 where s1: "bench_step s (order, v) = Some s1"
    "engine_upto c1 (bs_engine s1)" "increasing c1 os" "holds (bs_hist s1) (us @ [v])" by blast
  from Cons.IH [OF s1(2-4) vs(2)] s1(1) vs(1) show ?case by simp
qed simp

text \<open>The generated stream is such a stream.\<close>

lemma stream_increasing:
  "\<forall>o'\<in>set os. valid_limit o' \<or> order_type_of o' = Cancel \<Longrightarrow>
   map ord_id (limits os) = map (\<lambda>k. of_nat (Suc (m + k))) [0..<length (limits os)] \<Longrightarrow>
   m + length (limits os) < 2 ^ 64 - 1 \<Longrightarrow> increasing (of_nat (Suc m)) os"
proof (induction os arbitrary: m)
  case (Cons order os)
  show ?case
  proof (cases "order_type_of order = Cancel")
    case True
    with Cons show ?thesis by (simp add: limits_def)
  next
    case False
    then have v: "valid_limit order" using Cons.prems(1) by simp
    then have l: "limits (order # os) = order # limits os" by (simp add: limits_def valid_limit_def)
    have upt: "[0..<Suc n] = 0 # map Suc [0..<n]" for n by (simp add: map_Suc_upt upt_conv_Cons)
    have ids: "ord_id order = of_nat (Suc m)"
      "map ord_id (limits os) = map (\<lambda>k. of_nat (Suc (Suc m + k))) [0..<length (limits os)]"
      using Cons.prems(2) unfolding l by (simp_all add: upt comp_def del: upt_Suc of_nat_Suc)
    have u: "unat (ord_id order) = Suc m"
      using Cons.prems(3) unfolding l ids(1) by (simp add: unat_of_nat take_bit_nat_eq_self del: of_nat_Suc)
    have "Suc m + length (limits os) < 2 ^ 64 - 1" using Cons.prems(3) by (simp add: l)
    with Cons.IH [of "Suc m"] Cons.prems(1) ids(2) have "increasing (of_nat (Suc (Suc m))) os" by simp
    moreover have "ord_id order \<noteq> 0" "ord_id order \<noteq> - 1"
      using u Cons.prems(3) by (auto simp: unat_minus_one l)
    ultimately show ?thesis using v ids(1) False by (simp add: valid_limit_def add.commute)
  qed
qed simp

lemma increasing_take: "increasing c os \<Longrightarrow> increasing c (take k os)"
proof (induction os arbitrary: c k)
  case (Cons order os)
  then show ?case by (cases k) auto
qed simp

section \<open>Guarantees of the benchmark\<close>

text \<open>The benchmark's stream is valid, for any length: it is generated without a panic, every limit order has
  a valid side, symbol, price and quantity and the next id from 1 on, and every cancel names an order
  issued earlier in the stream by the same user in the same symbol.\<close>

lemma stream_valid:
  assumes "n < 2 ^ 64"
  shows "\<exists>os. generate_order_stream n = Some os \<and> length os = n \<and>
    (\<forall>o'\<in>set os. valid_limit o' \<or> order_type_of o' = Cancel) \<and>
    map ord_id (limits os) = map (\<lambda>k. of_nat (Suc k)) [0..<length (limits os)] \<and>
    (\<forall>j<length os. order_type_of (os ! j) = Cancel \<longrightarrow>
       (\<exists>o'\<in>set (take j os). valid_limit o' \<and> same_target (os ! j) o'))"
proof -
  let ?s = "\<lparr>ss_rng = FastRng_new 42, ss_orders = [], ss_active_quotes = [], ss_next_order_id = 1\<rparr>"
  have "gen_ok ?s" by (simp add: gen_ok_def stream_ok_def limits_def)
  from gen_orders_ok [OF this, of n] assms obtain s' where "gen_orders n ?s = Some s'" "gen_ok s'" "length (ss_orders s') = n"
    by auto
  then show ?thesis by (auto simp: generate_order_stream_def gen_ok_def stream_ok_def)
qed

lemma stream_valid_witness:
  "\<exists>os. generate_order_stream 1000000 = Some os \<and> length os = 1000000"
  using stream_valid [of 1000000] by auto

text \<open>C33. The benchmark completes: for any number of orders below \<open>2^64 - 1\<close> and any latencies, its stream is
  generated and both loops run over it without a panic or an endless loop, whatever the margin checks refuse
  and however the books overflow; and what it reports is the summary of exactly the latencies measured.\<close>

theorem benchmark_completes:
  fixes throughput :: "u64 \<Rightarrow> 'f::zero"
  assumes "n < 2 ^ 64 - 1" and "length latencies = n"
  shows "\<exists>s ps report. bench_main rank throughput n latencies = Some (s, ps, report) \<and>
    holds (bs_hist s) latencies \<and> rp_total_orders report = of_nat n \<and>
    map Some ps = map (percentile rank (bs_hist s)) [5000, 9000, 9500, 9900, 9990, 9999]"
proof -
  let ?s = "\<lparr>ss_rng = FastRng_new 42, ss_orders = [], ss_active_quotes = [], ss_next_order_id = 1\<rparr>"
  have "gen_ok ?s" by (simp add: gen_ok_def stream_ok_def limits_def)
  from gen_orders_ok [OF this, of n] assms(1) obtain s' where
    g: "gen_orders n ?s = Some s'" "gen_ok s'" "length (ss_orders s') = n" by auto
  let ?os = "ss_orders s'"
  have "length (limits ?os) \<le> n" using g(3) by (simp add: limits_def length_filter_le [THEN order_trans])
  with stream_increasing [of ?os 0] g(2) assms(1) have i: "increasing 1 ?os"
    by (simp add: gen_ok_def stream_ok_def)
  have e: "engine_upto 1 MultiAssetEngine_new"
    using engine_new_rel by (auto simp: engine_upto_def MultiAssetEngine_new_def)
  from warmup_run_ok [OF e increasing_take [OF i]] obtain w where
    w: "warmup_run (MultiAssetEngine_new, prefund_bench RiskEngine_new) (take 50000 ?os) = Some w" by blast
  from bench_run_ok [of 1 bench_start ?os "[]" latencies] e i new_holds g(3) assms(2) obtain s where
    s: "bench_run bench_start (zip ?os latencies) = Some s" "holds (bs_hist s) latencies" by (auto simp: bench_start_def)
  have os: "generate_order_stream n = Some ?os" using g(1) by (simp add: generate_order_stream_def)
  obtain report where "stats rank throughput (bs_hist s) = Some report" "rp_total_orders report = of_nat n"
    using stats_total [OF s(2), of rank throughput] assms(2) by auto
  moreover obtain v where "\<And>p. percentile rank (bs_hist s) p = Some (v p)"
    using percentile_total [OF s(2), of rank] by metis
  ultimately show ?thesis
    using os w s by (intro exI [of _ s] exI [of _ "map v [5000, 9000, 9500, 9900, 9990, 9999]"] exI [of _ report])
      (simp add: bench_main_def Let_def)
qed

theorem benchmark_completes_witness:
  "\<exists>s ps report. bench_main exact_rank (\<lambda>n. unat n) 1000000 (replicate 1000000 75) = Some (s, ps, report) \<and>
     holds (bs_hist s) (replicate 1000000 75)"
  using benchmark_completes [of 1000000 "replicate 1000000 75" exact_rank "\<lambda>n. unat n"]
  by (simp only: length_replicate) auto

end
