(* ===== verification/Market_Maker.thy ===== *)
theory Market_Maker
  imports Bench Pipeline "HOL-Library.Multiset"
begin

text \<open>
  The market-making client of \<open>src/bin/market_maker.rs\<close>: the orders it makes, the listener that counts
  the messages of the exchange, and the two ends of the wire between them. The random numbers of the
  \<open>rand\<close> crate are a parameter, a generator state with its two drawing functions; \<open>random_source\<close> states
  what the client relies on. The connection, the pauses and the printed lines are not modelled.
\<close>

section \<open>Orders\<close>

text \<open>\<open>gen_range(a..b)\<close> draws from a non-empty range.\<close>

locale random_source =
  fixes draw :: "'rng \<Rightarrow> u64 \<Rightarrow> u64 \<Rightarrow> u64 \<times> 'rng"
  assumes drawn: "a < b \<Longrightarrow> draw rng a b = (v, rng') \<Longrightarrow> a \<le> v \<and> v < b"

record 'rng mm_state =
  mm_rng :: 'rng
  mm_order_id :: u64
  mm_active_quotes :: "(u64 \<times> Symbol \<times> u64) list"

definition mm_symbols :: "(Symbol \<times> u64) list" where
  "mm_symbols = [(Btc, 6500000), (Eth, 350000), (Sol, 15000)]"

text \<open>A limit quote of user 1 (70 percent).\<close>

definition mm_quote ::
  "('rng \<Rightarrow> u64 \<Rightarrow> u64 \<Rightarrow> u64 \<times> 'rng) \<Rightarrow> ('rng \<Rightarrow> bool \<times> 'rng) \<Rightarrow> Symbol \<Rightarrow> u64 \<Rightarrow>
     'rng mm_state \<Rightarrow> Order \<times> 'rng mm_state" where
  "mm_quote draw coin symbol base_price s =
     (let (b, rng) = coin (mm_rng s);
          side = (if b then Buy else Sell);
          (spread_offset, rng) = draw rng 1 50;
          price = (if side = Buy then sat_sub base_price spread_offset else sat_add base_price spread_offset);
          (qty, rng) = draw rng 1 5
      in (new_limit (mm_order_id s) 1 symbol side price qty,
          \<lparr>mm_rng = rng, mm_order_id = mm_order_id s + 1,
           mm_active_quotes = mm_active_quotes s @ [(mm_order_id s, symbol, 1)]\<rparr>))"

text \<open>The cancellation of a quote (20 percent).\<close>

definition mm_cancel ::
  "('rng \<Rightarrow> u64 \<Rightarrow> u64 \<Rightarrow> u64 \<times> 'rng) \<Rightarrow> 'rng mm_state \<Rightarrow> (Order \<times> 'rng mm_state) option" where
  "mm_cancel draw s =
     do {
       let (cancel_idx, rng) = draw (mm_rng s) 0 (of_nat (length (mm_active_quotes s)));
       ((target_id, target_symbol, user_id), active_quotes) \<leftarrow> swap_remove (mm_active_quotes s) (unat cancel_idx);
       Some (new_cancel target_id user_id target_symbol, s\<lparr>mm_rng := rng, mm_active_quotes := active_quotes\<rparr>)
     }"

text \<open>A market order of user 2 (10 percent).\<close>

definition mm_taker ::
  "('rng \<Rightarrow> bool \<times> 'rng) \<Rightarrow> Symbol \<Rightarrow> u64 \<Rightarrow> 'rng mm_state \<Rightarrow> Order \<times> 'rng mm_state" where
  "mm_taker coin symbol base_price s =
     (let (b, rng) = coin (mm_rng s);
          side = (if b then Buy else Sell)
      in (new_market (mm_order_id s) 2 symbol side 1 (base_price + 100),
          s\<lparr>mm_rng := rng, mm_order_id := mm_order_id s + 1\<rparr>))"

definition mm_order ::
  "('rng \<Rightarrow> u64 \<Rightarrow> u64 \<Rightarrow> u64 \<times> 'rng) \<Rightarrow> ('rng \<Rightarrow> bool \<times> 'rng) \<Rightarrow> 'rng mm_state \<Rightarrow>
     (Order \<times> 'rng mm_state) option" where
  "mm_order draw coin s =
     do {
       let (k, rng) = draw (mm_rng s) 0 (of_nat (length mm_symbols));
       (symbol, base_price) \<leftarrow> (if unat k < length mm_symbols then Some (mm_symbols ! unat k) else None);
       let (action, rng) = draw rng 0 10;
       let s = s\<lparr>mm_rng := rng\<rparr>;
       if action < 7 then Some (mm_quote draw coin symbol base_price s)
       else if action < 9 \<and> mm_active_quotes s \<noteq> [] then mm_cancel draw s
       else Some (mm_taker coin symbol base_price s)
     }"

text \<open>The first \<open>n\<close> orders of the trading loop.\<close>

primrec mm_orders ::
  "('rng \<Rightarrow> u64 \<Rightarrow> u64 \<Rightarrow> u64 \<times> 'rng) \<Rightarrow> ('rng \<Rightarrow> bool \<times> 'rng) \<Rightarrow> nat \<Rightarrow> 'rng mm_state \<Rightarrow>
     (Order list \<times> 'rng mm_state) option" where
  "mm_orders draw coin 0 s = Some ([], s)"
| "mm_orders draw coin (Suc n) s =
     do {
       (order, s) \<leftarrow> mm_order draw coin s;
       (orders, s) \<leftarrow> mm_orders draw coin n s;
       Some (order # orders, s)
     }"

definition mm_start :: "'rng \<Rightarrow> 'rng mm_state" where
  "mm_start rng = \<lparr>mm_rng = rng, mm_order_id = 1, mm_active_quotes = []\<rparr>"

section \<open>The listener\<close>

record tally =
  total_acks :: u64
  total_fills :: u64
  total_cancels :: u64
  total_rejects :: u64

definition new_tally :: tally where
  "new_tally = \<lparr>total_acks = 0, total_fills = 0, total_cancels = 0, total_rejects = 0\<rparr>"

definition on_server_msg :: "tally \<Rightarrow> ServerMessage \<Rightarrow> tally" where
  "on_server_msg t msg =
     (if sm_msg_type msg = ServerMsgType_as Accepted then t\<lparr>total_acks := total_acks t + 1\<rparr>
      else if sm_msg_type msg = ServerMsgType_as Filled then t\<lparr>total_fills := total_fills t + 1\<rparr>
      else if sm_msg_type msg = ServerMsgType_as Cancelled then t\<lparr>total_cancels := total_cancels t + 1\<rparr>
      else if sm_msg_type msg = ServerMsgType_as Rejected then t\<lparr>total_rejects := total_rejects t + 1\<rparr>
      else t)"

definition server_size :: nat where
  "server_size = 64"

function listen :: "(u8 list \<Rightarrow> ServerMessage) \<Rightarrow> endian \<Rightarrow> u8 list \<Rightarrow> tally \<Rightarrow> tally" where
  "listen from_bytes h bytes t =
     (if length bytes < server_size then t
      else
        (let msg = ServerMessage_from_le h (from_bytes (take server_size bytes)) in
         if sm_magic msg \<noteq> ORDER_MAGIC then t
         else listen from_bytes h (drop server_size bytes) (on_server_msg t msg)))"
  by pat_completeness auto
termination
  by (relation "measure (\<lambda>(_, _, bytes, _). length bytes)") (auto simp: server_size_def)

declare listen.simps [simp del]

text \<open>The memory image of a \<open>ServerMessage\<close>: \<open>#[repr(C)]\<close>, fields in order, no padding between them.\<close>

definition server_bytes :: "endian \<Rightarrow> ServerMessage \<Rightarrow> u8 list" where
  "server_bytes h m =
     [sm_msg_type m, sm_symbol_id m, sm_reject_code m, sm_is_maker m] @ mem_bytes h (sm_magic m) @
     [fst (sm_padding m), snd (sm_padding m)] @ mem_bytes h (sm_order_id m) @ mem_bytes h (sm_user_id m) @
     mem_bytes h (sm_match_id m) @ mem_bytes h (sm_price m) @ mem_bytes h (sm_qty m) @
     mem_bytes h (sm_extra_price m) @ mem_bytes h (sm_extra_qty m)"

definition server_of_bytes :: "endian \<Rightarrow> u8 list \<Rightarrow> ServerMessage" where
  "server_of_bytes h bs =
     \<lparr>sm_msg_type = bs ! 0, sm_symbol_id = bs ! 1, sm_reject_code = bs ! 2, sm_is_maker = bs ! 3,
      sm_magic = mem_word h (take 2 (drop 4 bs)), sm_padding = (bs ! 6, bs ! 7),
      sm_order_id = mem_word h (take 8 (drop 8 bs)), sm_user_id = mem_word h (take 8 (drop 16 bs)),
      sm_match_id = mem_word h (take 8 (drop 24 bs)), sm_price = mem_word h (take 8 (drop 32 bs)),
      sm_qty = mem_word h (take 8 (drop 40 bs)), sm_extra_price = mem_word h (take 8 (drop 48 bs)),
      sm_extra_qty = mem_word h (take 8 (drop 56 bs))\<rparr>"

interpretation server_wire:
  wire_codec server_bytes server_of_bytes ServerMessage_to_le ServerMessage_from_le server_size
  by unfold_locales
    (simp_all add: server_bytes_def server_of_bytes_def server_size_def ServerMessage_to_le_def
      ServerMessage_from_le_def nth_append)
section \<open>The orders are valid\<close>

definition mm_valid :: "Order \<Rightarrow> bool" where
  "mm_valid order \<longleftrightarrow>
     ord_magic order = ORDER_MAGIC \<and>
     (case order_type_of order of
        Limit \<Rightarrow> valid_limit order \<and> ord_user_id order = 1 \<and> ord_qty order < 5
      | Market \<Rightarrow> get_side order \<noteq> None \<and> unat (ord_symbol_id order) < NUM_SYMBOLS \<and> ord_user_id order = 2 \<and>
          ord_qty order = 1 \<and> 15100 \<le> ord_price order \<and> ord_price order \<le> 6500100
      | Cancel \<Rightarrow> ord_user_id order = 1
      | Deposit \<Rightarrow> False)"

definition placed :: "Order list \<Rightarrow> Order list" where
  "placed os = filter (\<lambda>order. order_type_of order \<noteq> Cancel) os"

definition cancels :: "Order list \<Rightarrow> Order list" where
  "cancels os = filter (\<lambda>order. order_type_of order = Cancel) os"

definition numbered :: "Order list \<Rightarrow> bool" where
  "numbered os \<longleftrightarrow> map ord_id (placed os) = map (\<lambda>k. of_nat (Suc k)) [0..<length (placed os)]"

definition own_cancels :: "Order list \<Rightarrow> bool" where
  "own_cancels os \<longleftrightarrow>
     (\<forall>j<length os. order_type_of (os ! j) = Cancel \<longrightarrow>
        (\<exists>quote\<in>set (take j os). valid_limit quote \<and> same_target (os ! j) quote)) \<and>
     distinct (map ord_id (cancels os))"

definition quoted :: "Order list \<Rightarrow> u64 \<times> Symbol \<times> u64 \<Rightarrow> bool" where
  "quoted os q \<longleftrightarrow>
     (case q of (i, sy, u) \<Rightarrow>
        u = 1 \<and> (\<exists>quote\<in>set os. valid_limit quote \<and> ord_id quote = i \<and> ord_symbol_id quote = Symbol_as sy \<and>
          ord_user_id quote = u))"

definition mm_ok :: "Order list \<Rightarrow> 'rng mm_state \<Rightarrow> bool" where
  "mm_ok os s \<longleftrightarrow>
     list_all mm_valid os \<and> numbered os \<and> own_cancels os \<and>
     mm_order_id s = of_nat (Suc (length (placed os))) \<and> list_all (quoted os) (mm_active_quotes s) \<and>
     distinct (map fst (mm_active_quotes s) @ map ord_id (cancels os)) \<and>
     length (mm_active_quotes s) \<le> length os"

lemma magics [simp]:
  "ord_magic (new_limit i u sy d p q) = ORDER_MAGIC" "ord_magic (new_cancel i u sy) = ORDER_MAGIC"
  by (simp_all add: ob_simps)

lemma order_lists [simp]:
  "placed [] = []" "cancels [] = []" "placed (xs @ ys) = placed xs @ placed ys" "cancels (xs @ ys) = cancels xs @ cancels ys"
  "order_type_of x \<noteq> Cancel \<Longrightarrow> placed [x] = [x] \<and> cancels [x] = []"
  "order_type_of x = Cancel \<Longrightarrow> placed [x] = [] \<and> cancels [x] = [x]"
  by (simp_all add: placed_def cancels_def)

lemma quoted_mono: "quoted os q \<Longrightarrow> quoted (os @ os') q"
  by (auto simp: quoted_def)

text \<open>Every id in use, of an active or of a cancelled quote, is one of the numbers given out.\<close>

lemma quote_placed: "valid_limit quote \<Longrightarrow> quote \<in> set os \<Longrightarrow> ord_id quote \<in> ord_id ` set (placed os)"
  by (auto simp: placed_def valid_limit_def)

lemma ids_used:
  assumes "mm_ok os s"
  shows "set (map fst (mm_active_quotes s) @ map ord_id (cancels os)) \<subseteq> set (map ord_id (placed os))"
proof
  fix i assume "i \<in> set (map fst (mm_active_quotes s) @ map ord_id (cancels os))"
  then consider sy u where "(i, sy, u) \<in> set (mm_active_quotes s)"
    | c where "c \<in> set os" "order_type_of c = Cancel" "ord_id c = i" by (auto simp: cancels_def)
  then show "i \<in> set (map ord_id (placed os))"
  proof cases
    case 1
    with assms have "quoted os (i, sy, u)" by (auto simp: mm_ok_def list_all_iff)
    then show ?thesis using quote_placed by (auto simp: quoted_def)
  next
    case 2
    then obtain j where "j < length os" "os ! j = c" by (auto simp: in_set_conv_nth)
    with 2 assms obtain quote where "quote \<in> set (take j os)" "valid_limit quote" "ord_id quote = i"
      by (auto simp: mm_ok_def own_cancels_def same_target_def)
    with quote_placed [of quote os] show ?thesis by (auto dest: in_set_takeD)
  qed
qed

lemma placed_short: "length (placed os) \<le> length os"
  by (simp add: placed_def)

lemma next_id_unused:
  assumes "mm_ok os s" "Suc (length os) < 2 ^ 64"
  shows "mm_order_id s \<notin> set (map ord_id (placed os))"
proof
  let ?n = "length (placed os)"
  assume "mm_order_id s \<in> set (map ord_id (placed os))"
  with assms(1) obtain k where k: "k < ?n" "(of_nat (Suc ?n) :: u64) = of_nat (Suc k)"
    unfolding mm_ok_def numbered_def by auto
  then have "unat (of_nat (Suc ?n) :: u64) = unat (of_nat (Suc k) :: u64)" by simp
  then have "Suc ?n = Suc k"
    using k(1) placed_short [of os] assms(2) by (simp only: unat_of_nat) (simp add: take_bit_nat_eq_self)
  with k(1) show False by simp
qed

lemma own_cancels_snoc:
  assumes "own_cancels os" "order_type_of c = Cancel \<longrightarrow> (\<exists>quote\<in>set os. valid_limit quote \<and> same_target c quote) \<and>
    ord_id c \<notin> set (map ord_id (cancels os))"
  shows "own_cancels (os @ [c])"
  using assms by (cases "order_type_of c = Cancel") (auto simp: own_cancels_def nth_append less_Suc_eq)

lemma distinct_mid: "distinct (xs @ ys) \<Longrightarrow> x \<notin> set (xs @ ys) \<Longrightarrow> distinct ((xs @ [x]) @ ys)"
  by auto

lemma mm_place_ok:
  assumes s: "mm_ok os s" and l: "mm_valid l" "order_type_of l \<noteq> Cancel" "ord_id l = mm_order_id s"
    and n: "Suc (length os) < 2 ^ 64" and id': "mm_order_id s' = mm_order_id s + 1"
    and q: "mm_active_quotes s' = mm_active_quotes s \<or>
      (\<exists>sy. mm_active_quotes s' = mm_active_quotes s @ [(mm_order_id s, sy, 1)] \<and> quoted [l] (mm_order_id s, sy, 1))"
  shows "mm_ok (os @ [l]) s'"
proof -
  have nc: "numbered (os @ [l])" "own_cancels (os @ [l])"
    using s l(2,3) by (simp_all add: numbered_def mm_ok_def own_cancels_snoc)
  have "distinct (map fst (mm_active_quotes s) @ map ord_id (cancels os))" using s by (simp add: mm_ok_def)
  moreover from this have "distinct ((map fst (mm_active_quotes s) @ [mm_order_id s]) @ map ord_id (cancels os))"
    by (rule distinct_mid) (use ids_used [OF s] next_id_unused [OF s n] in blast)
  ultimately have d: "distinct (map fst (mm_active_quotes s') @ map ord_id (cancels (os @ [l])))"
    using q l(2) by (elim disjE exE conjE) simp_all
  have "list_all (quoted (os @ [l])) (mm_active_quotes s)"
    using s quoted_mono by (auto simp: mm_ok_def list_all_iff)
  moreover have "quoted [l] x \<Longrightarrow> quoted (os @ [l]) x" for x by (auto simp: quoted_def)
  ultimately have "list_all (quoted (os @ [l])) (mm_active_quotes s')" using q by (elim disjE exE conjE) simp_all
  moreover have "length (mm_active_quotes s') \<le> length (os @ [l])"
    using q s by (elim disjE exE conjE) (simp_all add: mm_ok_def)
  ultimately show ?thesis using s l(1,2) id' d nc by (simp add: mm_ok_def)
qed

lemma swap_remove_mset:
  assumes "i < length xs"
  shows "\<exists>x ys. swap_remove xs i = Some (x, ys) \<and> mset xs = add_mset x (mset ys)"
proof -
  let ?ys = "xs[i := last xs]"
  have ne: "xs \<noteq> []" using assms by auto
  have "last ?ys = last xs" using assms ne by (cases "i = length xs - 1") (auto simp: last_conv_nth)
  moreover have "mset ?ys = add_mset (last ?ys) (mset (butlast ?ys))"
    using ne append_butlast_last_id [of ?ys] by (metis list_update_nonempty mset_append mset.simps union_mset_add_mset_right
      add.right_neutral)
  moreover have "mset ?ys = add_mset (last xs) (mset xs - {#xs ! i#})" using assms by (rule mset_update)
  ultimately have "mset (butlast ?ys) = mset xs - {#xs ! i#}" by simp
  with assms show ?thesis by (simp add: swap_remove_def)
qed
lemma mm_cancel_ok:
  assumes s: "mm_ok os s" and m: "mset (mm_active_quotes s) = add_mset (i, sy, u) (mset (mm_active_quotes s'))"
    and id': "mm_order_id s' = mm_order_id s"
  shows "mm_ok (os @ [new_cancel i u sy]) s'"
proof -
  let ?c = "new_cancel i u sy"
  have c: "order_type_of ?c = Cancel" "ord_id ?c = i" "ord_user_id ?c = u" "ord_symbol_id ?c = Symbol_as sy"
    by (simp_all add: new_cancel_def ob_simps)
  have set: "set (mm_active_quotes s) = insert (i, sy, u) (set (mm_active_quotes s'))"
    using m by (metis set_mset_add_mset_insert set_mset_mset)
  then have q: "quoted os (i, sy, u)" using s by (simp add: mm_ok_def list_all_iff)
  have "mset (map fst (mm_active_quotes s)) = add_mset i (mset (map fst (mm_active_quotes s')))"
    using m by simp
  then have "mset (map fst (mm_active_quotes s) @ map ord_id (cancels os)) =
      mset (map fst (mm_active_quotes s') @ map ord_id (cancels (os @ [?c])))" using c by simp
  then have d: "distinct (map fst (mm_active_quotes s') @ map ord_id (cancels (os @ [?c])))"
    using s mset_eq_imp_distinct_iff unfolding mm_ok_def by blast
  then have "i \<notin> set (map ord_id (cancels os))" using c by simp
  moreover have "\<exists>quote\<in>set os. valid_limit quote \<and> same_target ?c quote"
    using q c by (auto simp: quoted_def same_target_def)
  ultimately have "own_cancels (os @ [?c])" using s c by (intro own_cancels_snoc) (auto simp: mm_ok_def)
  moreover have "numbered (os @ [?c])" using s c by (simp add: mm_ok_def numbered_def)
  moreover have "mm_valid ?c" using q c by (simp add: mm_valid_def quoted_def)
  moreover have "list_all (quoted (os @ [?c])) (mm_active_quotes s')"
    using s set quoted_mono by (auto simp: mm_ok_def list_all_iff)
  moreover have "length (mm_active_quotes s') \<le> length (os @ [?c])"
    using s arg_cong [OF m, of size] by (simp add: mm_ok_def)
  ultimately show ?thesis using s c id' d by (simp add: mm_ok_def)
qed

definition issued :: "Order list \<Rightarrow> (Order \<times> 'rng mm_state) option \<Rightarrow> bool" where
  "issued os r \<longleftrightarrow> (\<exists>order s'. r = Some (order, s') \<and> mm_ok (os @ [order]) s')"

lemma mm_base: "(sy, base) \<in> set mm_symbols \<Longrightarrow> base \<in> {6500000, 350000, 15000}"
  by (auto simp: mm_symbols_def)

lemma mm_taker_ok:
  assumes s: "mm_ok os s" and base: "(sy, base) \<in> set mm_symbols" and n: "Suc (length os) < 2 ^ 64"
  shows "issued os (Some (mm_taker coin sy base s))"
proof -
  obtain b rng where 1: "coin (mm_rng s) = (b, rng)" by (rule prod.exhaust)
  let ?l = "new_market (mm_order_id s) 2 sy (if b then Buy else Sell) 1 (base + 100)"
  have "15100 \<le> base + 100" "base + 100 \<le> 6500100" using mm_base [OF base] by auto
  then have v: "mm_valid ?l"
    by (cases sy) (simp_all add: mm_valid_def NUM_SYMBOLS_def ob_simps)
  have l: "order_type_of ?l \<noteq> Cancel" "ord_id ?l = mm_order_id s" by (simp_all add: ob_simps)
  show ?thesis
    unfolding issued_def mm_taker_def 1 Let_def prod.case
    by (intro exI conjI, rule refl, rule mm_place_ok [OF s v l n]) simp_all
qed

context random_source
begin

lemma mm_quote_ok:
  assumes s: "mm_ok os s" and base: "(sy, base) \<in> set mm_symbols" and n: "Suc (length os) < 2 ^ 64"
  shows "issued os (Some (mm_quote draw coin sy base s))"
proof -
  obtain b rng where 1: "coin (mm_rng s) = (b, rng)" by (rule prod.exhaust)
  obtain off rng2 where 2: "draw rng 1 50 = (off, rng2)" by (rule prod.exhaust)
  obtain q rng3 where 3: "draw rng2 1 5 = (q, rng3)" by (rule prod.exhaust)
  let ?d = "if b then Buy else Sell"
  let ?p = "if ?d = Buy then sat_sub base off else sat_add base off"
  let ?l = "new_limit (mm_order_id s) 1 sy ?d ?p q"
  have q: "1 \<le> q" "q < 5" using drawn [OF _ 3] by simp_all
  have "q < 10" using q(2) by (rule less_trans) simp
  moreover have "off < 201" using drawn [OF _ 2] by (auto intro: word_below_201)
  note p = price_range [OF mm_base [OF base] this]
  ultimately have v: "valid_limit ?l" by (intro valid_new_limit) (use p q in auto)
  then have l: "mm_valid ?l" "order_type_of ?l \<noteq> Cancel" "ord_id ?l = mm_order_id s"
    and qd: "quoted [?l] (mm_order_id s, sy, 1)" using q by (simp_all add: mm_valid_def quoted_def)
  show ?thesis
    unfolding issued_def mm_quote_def 1 2 3 Let_def prod.case
    by (intro exI conjI, rule refl, rule mm_place_ok [OF s l n]) (use qd in auto)
qed

lemma mm_cancel_issued:
  assumes s: "mm_ok os s" and a: "mm_active_quotes s \<noteq> []" and n: "Suc (length os) < 2 ^ 64"
  shows "issued os (mm_cancel draw s)"
proof -
  let ?n = "of_nat (length (mm_active_quotes s)) :: u64"
  obtain idx rng where 1: "draw (mm_rng s) 0 ?n = (idx, rng)" by (rule prod.exhaust)
  have "length (mm_active_quotes s) < 2 ^ 64" using s n by (simp add: mm_ok_def)
  then have un: "unat ?n = length (mm_active_quotes s)" by (simp add: unat_of_nat take_bit_nat_eq_self)
  with a have "0 < ?n" by (simp add: word_less_nat_alt)
  with drawn [OF _ 1] un have "unat idx < length (mm_active_quotes s)" by (simp add: word_less_nat_alt)
  from swap_remove_mset [OF this] obtain i sy u ys where 2: "swap_remove (mm_active_quotes s) (unat idx) = Some ((i, sy, u), ys)"
    and m: "mset (mm_active_quotes s) = add_mset (i, sy, u) (mset ys)" by (metis prod_cases3)
  show ?thesis
    unfolding issued_def mm_cancel_def 1 2 Let_def prod.case Option.bind.bind_lunit
    by (intro exI conjI, rule refl, rule mm_cancel_ok [OF s]) (simp_all add: m)
qed

lemma mm_order_issued:
  assumes s: "mm_ok os s" and n: "Suc (length os) < 2 ^ 64"
  shows "issued os (mm_order draw coin s)"
proof -
  obtain k rng where 1: "draw (mm_rng s) 0 (of_nat (length mm_symbols)) = (k, rng)" by (rule prod.exhaust)
  obtain action rng2 where 2: "draw rng 0 10 = (action, rng2)" by (rule prod.exhaust)
  obtain sy base where b: "mm_symbols ! unat k = (sy, base)" by (rule prod.exhaust)
  let ?s = "s\<lparr>mm_rng := rng2\<rparr>"
  have k: "unat k < length mm_symbols" using drawn [OF _ 1] by (simp add: mm_symbols_def word_less_nat_alt)
  with b have base: "(sy, base) \<in> set mm_symbols" by (metis nth_mem)
  have s2: "mm_ok os ?s" using s by (simp add: mm_ok_def)
  note q = mm_quote_ok [OF s2 base n, of coin] and t = mm_taker_ok [OF s2 base n, of coin]
    and c = mm_cancel_issued [OF s2 _ n]
  have "mm_order draw coin s = (if action < 7 then Some (mm_quote draw coin sy base ?s)
      else if action < 9 \<and> mm_active_quotes ?s \<noteq> [] then mm_cancel draw ?s
      else Some (mm_taker coin sy base ?s))"
    unfolding mm_order_def 1 Let_def prod.case if_P [OF k] b 2 Option.bind.bind_lunit by (rule refl)
  then show ?thesis using q t c by simp
qed

lemma mm_orders_issued:
  "mm_ok os s \<Longrightarrow> length os + n < 2 ^ 64 \<Longrightarrow>
     \<exists>os' s'. mm_orders draw coin n s = Some (os', s') \<and> length os' = n \<and> mm_ok (os @ os') s'"
proof (induction n arbitrary: os s)
  case (Suc n)
  from mm_order_issued [OF Suc.prems(1), of coin] Suc.prems(2) obtain order s1 where
    1: "mm_order draw coin s = Some (order, s1)" "mm_ok (os @ [order]) s1" by (auto simp: issued_def)
  from Suc.IH [OF 1(2)] Suc.prems(2) 1(1) show ?case by fastforce
qed simp

lemma mm_session:
  assumes "n < 2 ^ 64"
  shows "\<exists>os s. mm_orders draw coin n (mm_start rng) = Some (os, s) \<and> length os = n \<and> mm_ok os s"
  using mm_orders_issued [of "[]" "mm_start rng" n coin] assms
  by (simp add: mm_ok_def mm_start_def numbered_def own_cancels_def)

end

section \<open>What the listener counts\<close>

lemma exchange_run_typed: "exchange_run ex ms = Some ex' \<Longrightarrow> list_all event_typed (ex_out ex) \<Longrightarrow> list_all event_typed (ex_out ex')"
proof (induction ms arbitrary: ex)
  case (Cons m ms)
  then obtain ex1 where 1: "handle_inbound ex (fst m) (snd m) = Some ex1" "exchange_run ex1 ms = Some ex'"
    by (auto simp: bind_eq_Some_conv)
  then have "list_all event_typed (ex_out ex1)"
    using turn_appends [OF 1(1)] Cons.prems(2) by (auto simp: appends_def)
  then show ?case using Cons.IH [OF 1(2)] by simp
qed simp

text \<open>The listener on the bytes of the writer task.\<close>

lemma listen_short: "length bytes < server_size \<Longrightarrow> listen from_bytes h bytes t = t"
  by (subst listen.simps) simp

lemma listen_all:
  assumes W: "wire_codec bytes_of from_bytes ServerMessage_to_le ServerMessage_from_le server_size"
    and rest: "length rest < server_size"
  shows "\<forall>m\<in>set msgs. sm_magic m = ORDER_MAGIC \<Longrightarrow>
    listen (from_bytes h') h' (writer_bytes (bytes_of h) h msgs @ rest) t = fold (\<lambda>m t. on_server_msg t m) msgs t"
proof (induction msgs arbitrary: t)
  case Nil
  show ?case using rest by (simp add: writer_bytes_def listen_short)
next
  case (Cons m msgs)
  then show ?case
    by (subst listen.simps)
      (simp add: writer_bytes_def wire_codec.wire_front [OF W] wire_codec.read_wire [OF W]
        wire_codec.length_wire [OF W] Let_def)
qed

definition acks_for :: "u64 \<Rightarrow> OutboundEvent list \<Rightarrow> nat" where
  "acks_for c es = length (filter (\<lambda>e. case e of ClientAck c' _ \<Rightarrow> c' = c | _ \<Rightarrow> False) es)"

definition cancels_for :: "u64 \<Rightarrow> OutboundEvent list \<Rightarrow> nat" where
  "cancels_for c es = length (filter (\<lambda>e. case e of ClientCancelOk c' _ \<Rightarrow> c' = c | _ \<Rightarrow> False) es)"

definition rejects_for :: "u64 \<Rightarrow> OutboundEvent list \<Rightarrow> nat" where
  "rejects_for c es = length (filter (\<lambda>e. case e of ClientReject c' _ \<Rightarrow> c' = c | _ \<Rightarrow> False) es)"

definition fills_for :: "u64 \<Rightarrow> OutboundEvent list \<Rightarrow> nat" where
  "fills_for c es =
     length (filter (\<lambda>e. case e of TradeFill tc _ _ _ \<Rightarrow> tc = c | _ \<Rightarrow> False) es) +
     length (filter (\<lambda>e. case e of TradeFill _ mc _ _ \<Rightarrow> mc = c | _ \<Rightarrow> False) es)"

lemmas for_defs = acks_for_def cancels_for_def rejects_for_def fills_for_def

lemma tally_of_events:
  "list_all event_typed es \<Longrightarrow>
     fold (\<lambda>m t. on_server_msg t m) (concat (map (inbox c) es)) t =
       \<lparr>total_acks = total_acks t + of_nat (acks_for c es), total_fills = total_fills t + of_nat (fills_for c es),
        total_cancels = total_cancels t + of_nat (cancels_for c es),
        total_rejects = total_rejects t + of_nat (rejects_for c es)\<rparr>"
proof (induction es arbitrary: t)
  case Nil
  show ?case by (simp add: for_defs)
next
  case (Cons e es)
  then show ?case by (cases e) (simp_all add: for_defs on_server_msg_def typed_def)
qed

lemma inbox_magic: "list_all event_typed es \<Longrightarrow> m \<in> set (concat (map (inbox c) es)) \<Longrightarrow> sm_magic m = ORDER_MAGIC"
proof -
  have "event_typed e \<Longrightarrow> m \<in> set (inbox c e) \<Longrightarrow> sm_magic m = ORDER_MAGIC" for e
    by (cases e) (auto simp: typed_def split: if_splits)
  then show "list_all event_typed es \<Longrightarrow> m \<in> set (concat (map (inbox c) es)) \<Longrightarrow> sm_magic m = ORDER_MAGIC"
    by (auto simp: list_all_iff)
qed

section \<open>Guarantees of the client\<close>

definition fast_draw :: "u64 \<Rightarrow> u64 \<Rightarrow> u64 \<Rightarrow> u64 \<times> u64" where
  "fast_draw rng a b = (case gen_range rng a b of Some r \<Rightarrow> r | None \<Rightarrow> (a, rng))"

interpretation fast_random: random_source fast_draw
  by unfold_locales (use gen_range_bounds in \<open>fastforce simp: fast_draw_def gen_range_def split: prod.splits if_splits option.splits\<close>)

text \<open>C34. The market maker sends valid orders only, and the exchange gets them: for any random numbers within the
  ranges asked for the loop never panics, every order is a limit order of user 1 or a market order of user 2
  with a valid side, symbol, price and quantity, numbered from 1, or a cancel, and each cancel names an own
  quote placed earlier, in its symbol, that was not cancelled before; and the gateway's reader loop, on a
  host of either byte order, takes every order of the session from the bytes on the wire.\<close>

theorem market_maker_valid:
  assumes "random_source draw" and "n < 2 ^ 64"
    and "wire_codec bytes_of from_bytes Order_to_le Order_from_le order_size"
  shows "\<exists>os s. mm_orders draw coin n (mm_start rng) = Some (os, s) \<and> length os = n \<and>
    list_all mm_valid os \<and> numbered os \<and> own_cancels os \<and>
    reader_loop (from_bytes h') h' cid (concat (map (\<lambda>order. bytes_of h (Order_to_le h order)) os)) =
      map (\<lambda>order. \<lparr>im_order = quarantine order, im_client_id = cid\<rparr>) os"
proof -
  obtain os s where 1: "mm_orders draw coin n (mm_start rng) = Some (os, s)" "length os = n" "mm_ok os s"
    using random_source.mm_session [OF assms(1,2), of coin rng] by blast
  then have "takeWhile (\<lambda>order. ord_magic order = ORDER_MAGIC) os = os"
    by (auto simp: takeWhile_eq_all_conv mm_ok_def list_all_iff mm_valid_def)
  with 1 reader_loop_frames [OF assms(3), of "[]" h' cid h os] show ?thesis
    by (auto simp: order_size_def mm_ok_def)
qed

theorem market_maker_valid_witness:
  "\<exists>os s. mm_orders fast_draw gen_bool 1000 (mm_start 42) = Some (os, s) \<and> length os = 1000 \<and> own_cancels os \<and>
     length (reader_loop (order_of_bytes Little) Little 1
       (concat (map (\<lambda>order. order_bytes Big (Order_to_le Big order)) os))) = 1000"
  using market_maker_valid [OF fast_random.random_source_axioms _ order_wire.wire_codec_axioms, of 1000 gen_bool 42 Little 1 Big]
  by auto

text \<open>C16. The client counts what the exchange reported: after any run of the exchange from any start, a client that
  is sent all messages addressed to it, over hosts of either byte order and with the stream cut anywhere in
  the next frame, has counted exactly the acknowledgements, executions, cancellations and rejections that
  the engine thread sent to it.\<close>

theorem client_tally_exact:
  assumes "wire_codec bytes_of from_bytes ServerMessage_to_le ServerMessage_from_le server_size"
    and "exchange_start wal = Some ex0" and "exchange_run ex0 ms = Some ex" and "length rest < server_size"
  shows "listen (from_bytes h') h' (writer_bytes (bytes_of h) h (concat (map (inbox c) (ex_out ex))) @ rest) new_tally =
    \<lparr>total_acks = of_nat (acks_for c (ex_out ex)), total_fills = of_nat (fills_for c (ex_out ex)),
     total_cancels = of_nat (cancels_for c (ex_out ex)), total_rejects = of_nat (rejects_for c (ex_out ex))\<rparr>"
proof -
  have T: "list_all event_typed (ex_out ex)"
    using exchange_run_typed [OF assms(3)] exchange_start_empty [OF assms(2)] by simp
  with listen_all [OF assms(1,4)] inbox_magic show ?thesis by (simp add: tally_of_events new_tally_def)
qed

theorem client_tally_exact_witness:
  "\<exists>ex ex'. exchange_start None = Some ex \<and> handle_inbound ex demo_sell 0 = Some ex' \<and>
     total_acks (listen (server_of_bytes Big) Big
       (writer_bytes (server_bytes Little) Little (concat (map (inbox 3) (ex_out ex')))) new_tally) =
     of_nat (acks_for 3 (ex_out ex'))"
proof -
  obtain ex ex' where 1: "exchange_start None = Some ex" "handle_inbound ex demo_sell 0 = Some ex'" using demo_turn by blast
  then have "exchange_run ex [(demo_sell, 0)] = Some ex'" by simp
  from client_tally_exact [OF server_wire.wire_codec_axioms 1(1) this, of "[]" Big Little 3] 1 show ?thesis
    by (auto simp: server_size_def)
qed

end
