(* ===== verification/Telemetry.thy ===== *)
theory Telemetry
  imports Exchange Metrics
begin

text \<open>
  The engine thread of \<open>src/bin/exchange.rs\<close> with its telemetry: after every turn the execution time and
  the time since the arrival of the message go to two histograms, and every 10000 turns both are summarised.
  The clock readings of a turn are inputs, and the printed summaries are outputs.
\<close>

section \<open>The loop\<close>

record telemetry =
  te_exec_hist :: LatencyHistogram
  te_e2e_hist :: LatencyHistogram
  te_processed_count :: u64

definition telemetry_new :: telemetry where
  "telemetry_new =
     \<lparr>te_exec_hist = LatencyHistogram_new, te_e2e_hist = LatencyHistogram_new, te_processed_count = 0\<rparr>"

definition telemetry_step ::
  "(nat \<Rightarrow> u64 \<Rightarrow> u64) \<Rightarrow> (u64 \<Rightarrow> 'f::zero) \<Rightarrow> telemetry \<Rightarrow> u64 \<Rightarrow> u64 \<Rightarrow>
     (telemetry \<times> ('f LatencyReport \<times> 'f LatencyReport) list) option" where
  "telemetry_step rank throughput te exec_ns e2e_ns =
     do {
       exec_hist \<leftarrow> record_latency (te_exec_hist te) exec_ns;
       e2e_hist \<leftarrow> record_latency (te_e2e_hist te) e2e_ns;
       let processed_count = te_processed_count te + 1;
       let te = \<lparr>te_exec_hist = exec_hist, te_e2e_hist = e2e_hist, te_processed_count = processed_count\<rparr>;
       if processed_count mod 10000 = 0 then
         do {
           engine_report \<leftarrow> stats rank throughput exec_hist;
           e2e_report \<leftarrow> stats rank throughput e2e_hist;
           Some (te, [(engine_report, e2e_report)])
         }
       else Some (te, [])
     }"

text \<open>A message with the clock readings of its turn: the time of the log entry and the two latencies.\<close>

record timed_message =
  tm_message :: InboundMessage
  tm_now_ns :: u64
  tm_exec_ns :: u64
  tm_e2e_ns :: u64

primrec engine_thread ::
  "(nat \<Rightarrow> u64 \<Rightarrow> u64) \<Rightarrow> (u64 \<Rightarrow> 'f::zero) \<Rightarrow> exchange \<Rightarrow> telemetry \<Rightarrow> timed_message list \<Rightarrow>
     (exchange \<times> telemetry \<times> ('f LatencyReport \<times> 'f LatencyReport) list) option" where
  "engine_thread rank throughput ex te [] = Some (ex, te, [])"
| "engine_thread rank throughput ex te (input # inputs) =
     do {
       ex \<leftarrow> handle_inbound ex (tm_message input) (tm_now_ns input);
       (te, printed) \<leftarrow> telemetry_step rank throughput te (tm_exec_ns input) (tm_e2e_ns input);
       (ex, te, reports) \<leftarrow> engine_thread rank throughput ex te inputs;
       Some (ex, te, printed @ reports)
     }"

section \<open>What it measures\<close>

text \<open>The state of the telemetry after the latencies \<open>vs\<close> and \<open>ws\<close>.\<close>

definition measured :: "telemetry \<Rightarrow> u64 list \<Rightarrow> u64 list \<Rightarrow> bool" where
  "measured te vs ws \<longleftrightarrow>
     holds (te_exec_hist te) vs \<and> holds (te_e2e_hist te) ws \<and> length ws = length vs \<and>
     te_processed_count te = of_nat (length vs)"

definition totals :: "('f LatencyReport \<times> 'f LatencyReport) list \<Rightarrow> (u64 \<times> u64) list" where
  "totals reports = map (\<lambda>(a, b). (rp_total_orders a, rp_total_orders b)) reports"

lemma telemetry_step_ok:
  assumes M: "measured te vs ws" and len: "Suc (length vs) < 2 ^ 64"
  shows "\<exists>te' printed. telemetry_step rank throughput te v w = Some (te', printed) \<and>
    measured te' (vs @ [v]) (ws @ [w]) \<and>
    totals printed = (if Suc (length vs) mod 10000 = 0 then [(of_nat (Suc (length vs)), of_nat (Suc (length vs)))] else [])"
proof -
  obtain h where h: "record_latency (te_exec_hist te) v = Some h" "holds h (vs @ [v])"
    using record_holds [of "te_exec_hist te" vs v] M by (auto simp: measured_def)
  obtain g where g: "record_latency (te_e2e_hist te) w = Some g" "holds g (ws @ [w])"
    using record_holds [of "te_e2e_hist te" ws w] M by (auto simp: measured_def)
  obtain r q where "stats rank throughput h = Some r" "rp_total_orders r = of_nat (Suc (length vs))"
    "stats rank throughput g = Some q" "rp_total_orders q = of_nat (Suc (length vs))"
    using stats_total [OF h(2), of rank throughput] stats_total [OF g(2), of rank throughput] M by (auto simp: measured_def)
  moreover have "te_processed_count te + 1 = of_nat (Suc (length vs))" using M by (simp add: measured_def)
  moreover have "(of_nat (Suc (length vs)) :: u64) mod 10000 = 0 \<longleftrightarrow> Suc (length vs) mod 10000 = 0"
  proof -
    have "unat ((of_nat (Suc (length vs)) :: u64) mod 10000) = Suc (length vs) mod 10000"
      using len by (simp add: unat_mod unat_of_nat take_bit_nat_eq_self del: of_nat_Suc)
    then show ?thesis by (metis unat_0 unat_eq_zero)
  qed
  ultimately show ?thesis
    using h g M by (auto simp: telemetry_step_def measured_def totals_def Let_def simp del: of_nat_Suc)
qed

lemma totals_simps [simp]: "totals [] = []" "totals (r @ q) = totals r @ totals q"
  by (simp_all add: totals_def)

text \<open>Every 10000th of the turns \<open>a + 1, \<dots>, a + n\<close>.\<close>

definition report_turns :: "nat \<Rightarrow> nat \<Rightarrow> nat list" where
  "report_turns a n = filter (\<lambda>k. k mod 10000 = 0) [Suc a..<Suc (a + n)]"

lemma report_turns_Suc: "report_turns a (Suc n) = (if Suc a mod 10000 = 0 then [Suc a] else []) @ report_turns (Suc a) n"
  by (simp add: report_turns_def upt_conv_Cons del: upt_Suc)

lemma engine_thread_ok:
  fixes throughput :: "u64 \<Rightarrow> 'f::zero"
  assumes "measured te vs ws" and "length vs + length inputs < 2 ^ 64"
  shows "\<exists>te' reports. engine_thread rank throughput ex te inputs =
      map_option (\<lambda>ex'. (ex', te', reports)) (exchange_run ex (map (\<lambda>i. (tm_message i, tm_now_ns i)) inputs)) \<and>
    measured te' (vs @ map tm_exec_ns inputs) (ws @ map tm_e2e_ns inputs) \<and>
    totals reports = map (\<lambda>k. (of_nat k, of_nat k)) (report_turns (length vs) (length inputs))"
  using assms
proof (induction inputs arbitrary: ex te vs ws)
  case Nil
  then show ?case
    by (intro exI [of _ te] exI [of _ "[] :: ('f LatencyReport \<times> 'f LatencyReport) list"]) (simp add: report_turns_def)
next
  case (Cons input inputs)
  obtain m now v w where i: "input = \<lparr>tm_message = m, tm_now_ns = now, tm_exec_ns = v, tm_e2e_ns = w\<rparr>" by (cases input)
  obtain te1 printed where T: "telemetry_step rank throughput te v w = Some (te1, printed)"
    and M: "measured te1 (vs @ [v]) (ws @ [w])"
    and p: "totals printed = (if Suc (length vs) mod 10000 = 0 then [(of_nat (Suc (length vs)), of_nat (Suc (length vs)))] else [])"
    using telemetry_step_ok [OF Cons.prems(1), of rank throughput v w] Cons.prems(2) by auto
  show ?case
  proof (cases "handle_inbound ex m now")
    case None
    obtain te' reports where "measured te' (vs @ v # map tm_exec_ns inputs) (ws @ w # map tm_e2e_ns inputs)"
      "totals (reports :: ('f LatencyReport \<times> 'f LatencyReport) list) =
         map (\<lambda>k. (of_nat k, of_nat k)) (report_turns (Suc (length vs)) (length inputs))"
      using Cons.IH [OF M, of ex] Cons.prems(2) by auto
    with None i p show ?thesis
      by (intro exI [of _ te'] exI [of _ "printed @ reports"]) (simp add: report_turns_Suc)
  next
    case (Some ex1)
    obtain te' reports where "engine_thread rank throughput ex1 te1 inputs =
        map_option (\<lambda>ex'. (ex', te', reports)) (exchange_run ex1 (map (\<lambda>i. (tm_message i, tm_now_ns i)) inputs))"
      "measured te' (vs @ v # map tm_exec_ns inputs) (ws @ w # map tm_e2e_ns inputs)"
      "totals reports = map (\<lambda>k. (of_nat k, of_nat k)) (report_turns (Suc (length vs)) (length inputs))"
      using Cons.IH [OF M, of ex1] Cons.prems(2) by auto
    with Some i p T show ?thesis
      by (intro exI [of _ te'] exI [of _ "printed @ reports"])
        (cases "exchange_run ex1 (map (\<lambda>i. (tm_message i, tm_now_ns i)) inputs)"; simp add: report_turns_Suc)
  qed
qed

section \<open>Guarantees of the telemetry\<close>

text \<open>C35. Measuring is transparent and exact: whatever the messages and the clock readings, the engine thread with its
  telemetry stops exactly where the turns alone would and ends in the same state; its histograms hold exactly the
  latencies of the turns, and the summaries are those of every 10000th turn, each over all turns so far.\<close>

theorem telemetry_transparent:
  assumes "length inputs < 2 ^ 64"
  shows "\<exists>te reports. engine_thread rank throughput ex telemetry_new inputs =
      map_option (\<lambda>ex'. (ex', te, reports)) (exchange_run ex (map (\<lambda>i. (tm_message i, tm_now_ns i)) inputs)) \<and>
    holds (te_exec_hist te) (map tm_exec_ns inputs) \<and> holds (te_e2e_hist te) (map tm_e2e_ns inputs) \<and>
    totals reports = map (\<lambda>k. (of_nat k, of_nat k)) (filter (\<lambda>k. k mod 10000 = 0) [1..<Suc (length inputs)])"
proof -
  have "measured telemetry_new [] []"
    by (simp add: measured_def telemetry_new_def new_holds)
  from engine_thread_ok [OF this, of inputs rank throughput ex] assms show ?thesis
    unfolding measured_def report_turns_def One_nat_def by (simp del: upt_Suc) blast
qed

theorem telemetry_transparent_witness:
  "\<forall>ex m. \<exists>te reports. engine_thread exact_rank (\<lambda>n. unat n) ex telemetry_new
      (replicate 10000 \<lparr>tm_message = m, tm_now_ns = 0, tm_exec_ns = 80, tm_e2e_ns = 900\<rparr>) =
      map_option (\<lambda>ex'. (ex', te, reports)) (exchange_run ex (replicate 10000 (m, 0))) \<and>
    totals reports = [(10000, 10000)]"
proof (intro allI)
  fix ex m
  have "[1..<Suc 10000] = [1..<10000] @ [10000 :: nat]" by (rule upt_Suc_append) simp
  moreover have "filter (\<lambda>k. k mod 10000 = 0) [1..<10000] = ([] :: nat list)" by (auto simp: filter_empty_conv)
  ultimately have "filter (\<lambda>k. k mod 10000 = 0) [1..<Suc 10000] = [10000 :: nat]" by (simp only: filter_append) simp
  with telemetry_transparent [of "replicate 10000 \<lparr>tm_message = m, tm_now_ns = 0, tm_exec_ns = 80, tm_e2e_ns = 900\<rparr>"
      exact_rank "\<lambda>n. unat n" ex]
  show "\<exists>te reports. engine_thread exact_rank (\<lambda>n. unat n) ex telemetry_new
      (replicate 10000 \<lparr>tm_message = m, tm_now_ns = 0, tm_exec_ns = 80, tm_e2e_ns = 900\<rparr>) =
      map_option (\<lambda>ex'. (ex', te, reports)) (exchange_run ex (replicate 10000 (m, 0))) \<and>
    totals reports = [(10000, 10000)]"
    by (simp del: upt_Suc) blast
qed

end
