(* ===== verification/Defects.thy ===== *)
theory Defects
  imports Recovery Quotes
begin

text \<open>
  Messages outside the scope of the invariant, and what the code does with them: an order whose side
  byte is neither a purchase nor a sale, an order of the type that the log reserves for deposits, and
  an order that a full book refuses. Each is followed through the exchange from its start, by the
  refinement of the books and the evaluation of the accounts.
\<close>

section \<open>A side byte that is neither\<close>

text \<open>User 1 offers 5 units at 100; then an order of user 2 with the side byte 2 arrives.\<close>

definition rogue_side :: InboundMessage where
  "rogue_side = \<lparr>im_order = (new_client_limit 8 2 Btc Buy 100 5)\<lparr>ord_side := 2\<rparr>, im_client_id = 4\<rparr>"

lemma rogue_lock:
  "lock_order_funds offer_accounts (im_order rogue_side) = (offer_accounts\<lparr>re_accounts := (re_accounts offer_accounts)(2 \<mapsto>
     \<lparr>ac_user_id = 2, ac_usd_available = 10000000000, ac_usd_locked = 0,
       ac_asset_available = Vec 3 ((\<lambda>_. 0)(0 := 995, 1 := 10000, 2 := 100000)),
       ac_asset_locked = Vec 3 ((\<lambda>_. 0)(0 := 5))\<rparr>)\<rparr>, Inr ())"
  by (simp add: offer_accounts_eq rogue_side_def lock_order_funds_def NUM_SYMBOLS_def ob_simps vupd_def fun_upd_twist Let_def)

lemma rogue_match:
  "aprocess offer_book ((im_order rogue_side)\<lparr>ord_id := 2\<rparr>) 4 =
     (offer_book\<lparr>ab_asks := [], ab_clients := Map.empty, ab_free_orders := 131072, ab_free_levels := 4096,
        ab_trade_ctr := 2, ab_order_ctr := 3\<rparr>,
      [mk_trade ((im_order rogue_side)\<lparr>ord_id := 2\<rparr>) 4 ((im_order demo_sell)\<lparr>ord_id := 1\<rparr>) 3 1 5],
      Inr \<lparr>er_executed_qty = 5, er_remaining_qty = 0, er_stp_triggered = False\<rparr>)"
  by (simp add: offer_book_eq rogue_side_def demo_sell_def abook_run ob_simps restrict_map_def fun_eq_iff)

text \<open>The margin is checked as for a sale, the book matches a purchase, and the trade names the maker, who
  sells, as the buyer.\<close>

lemma rogue_accounts:
  "settled (fst (lock_order_funds offer_accounts (im_order rogue_side))) ((im_order rogue_side)\<lparr>ord_id := 2\<rparr>)
     [mk_trade ((im_order rogue_side)\<lparr>ord_id := 2\<rparr>) 4 ((im_order demo_sell)\<lparr>ord_id := 1\<rparr>) 3 1 5]
     (Inr \<lparr>er_executed_qty = 5, er_remaining_qty = 0, er_stp_triggered = False\<rparr>) =
   \<lparr>re_accounts = [
     1 \<mapsto> \<lparr>ac_user_id = 1, ac_usd_available = 10000000000, ac_usd_locked = 0,
           ac_asset_available = Vec 3 ((\<lambda>_. 0)(0 := 1000, 1 := 10000, 2 := 100000)),
           ac_asset_locked = Vec 3 ((\<lambda>_. 0)(0 := 5))\<rparr>,
     2 \<mapsto> \<lparr>ac_user_id = 2, ac_usd_available = 10000000500, ac_usd_locked = 0,
           ac_asset_available = Vec 3 ((\<lambda>_. 0)(0 := 995, 1 := 10000, 2 := 100000)),
           ac_asset_locked = Vec 3 ((\<lambda>_. 0)(0 := 0))\<rparr>]\<rparr>"
  unfolding rogue_lock fst_conv offer_accounts_eq
  by (simp add: rogue_side_def demo_sell_def mk_trade_def risk_run ob_simps fun_upd_twist Let_def)

text \<open>C39. The side byte is trusted: an order with the side byte 2 passes the margin check as a sale, is matched as a
  purchase, and its trade is settled with the roles exchanged. Two turns after the start, nothing rests, the
  seller's 5 units stay locked, and 500 cents that nobody paid are credited.\<close>

theorem side_byte_mints:
  "\<exists>ex ex1 ex2. exchange_start None = Some ex \<and> handle_inbound ex demo_sell 0 = Some ex1 \<and> reachable ex1 \<and>
     handle_inbound ex1 rogue_side 1 = Some ex2 \<and>
     (\<exists>Bs. engine_rel True (ex_engine ex2) Bs \<and> (\<Union>s<NUM_SYMBOLS. set (resting_orders (Bs s))) = {}) \<and>
     asset_held (ex_risk ex2) 0 1 = 5 \<and> usd_supply (ex_risk ex2) = start_usd + 500"
proof -
  obtain ex ex1 where ex: "exchange_start None = Some ex" "handle_inbound ex demo_sell 0 = Some ex1" "reachable ex1"
    and e1: "engine_rel True (ex_engine ex1) ((\<lambda>_. abook_new)(0 := offer_book))" "ex_risk ex1 = offer_accounts"
      "me_global_order_id_counter (ex_engine ex1) = 2"
    using offer_turn by blast
  let ?m = rogue_side
  have m: "im_client_id ?m = 4" "ord_symbol_id (im_order ?m) = 0" "ord_id (im_order ?m) = 0" "order_type_of (im_order ?m) \<noteq> Cancel"
    by (simp_all add: rogue_side_def ob_simps)
  have room: "level_room offer_book (im_order ?m)" by (simp add: rogue_side_def offer_book_eq abook_check ob_simps)
  have L: "lock_order_funds (ex_risk ex1) (im_order ?m) = (fst (lock_order_funds offer_accounts (im_order ?m)), Inr ())"
    unfolding e1(2) rogue_lock by simp
  from accepted_turn [OF e1(1,3) _ _ m(3,4) _ _ L, of _ _ _ 1] obtain ex2 where ex2: "handle_inbound ex1 ?m 1 = Some ex2"
    "ex_risk ex2 = settled (fst (lock_order_funds offer_accounts (im_order ?m))) ((im_order ?m)\<lparr>ord_id := 2\<rparr>)
      [mk_trade ((im_order ?m)\<lparr>ord_id := 2\<rparr>) 4 ((im_order demo_sell)\<lparr>ord_id := 1\<rparr>) 3 1 5]
      (Inr \<lparr>er_executed_qty = 5, er_remaining_qty = 0, er_stp_triggered = False\<rparr>)"
    "engine_rel True (ex_engine ex2) ((\<lambda>_. abook_new)(0 := offer_book\<lparr>ab_asks := [], ab_clients := Map.empty,
       ab_free_orders := 131072, ab_free_levels := 4096, ab_trade_ctr := 2, ab_order_ctr := 3\<rparr>))"
    using m(1,2) room rogue_match by (auto simp: NUM_SYMBOLS_def)
  have "(\<Union>s<NUM_SYMBOLS. set (resting_orders (((\<lambda>_. abook_new)(0 := offer_book\<lparr>ab_asks := [], ab_clients := Map.empty,
       ab_free_orders := 131072, ab_free_levels := 4096, ab_trade_ctr := 2, ab_order_ctr := 3\<rparr>)) s))) = {}"
    by (simp add: resting_orders_def abook_new_def offer_book_eq)
  moreover have "asset_held (ex_risk ex2) 0 1 = 5" "usd_supply (ex_risk ex2) = start_usd + 500"
    unfolding ex2(2) rogue_accounts by (simp_all add: supply_run start_usd_def)
  ultimately show ?thesis using ex ex2(1,3) by blast
qed

section \<open>A deposit from the network\<close>

text \<open>An order of user 1 to buy 5 units at 100, with the type byte of a deposit.\<close>

definition rogue_deposit :: InboundMessage where
  "rogue_deposit = \<lparr>im_order = (new_client_limit 8 1 Btc Buy 100 5)\<lparr>ord_order_type := OrderType_as Deposit\<rparr>, im_client_id = 4\<rparr>"

definition deposit_accounts :: RiskEngine where
  "deposit_accounts = fst (lock_order_funds prefunded (im_order rogue_deposit))"

lemma deposit_lock: "lock_order_funds prefunded (im_order rogue_deposit) = (deposit_accounts, Inr ())"
  by (simp add: deposit_accounts_def prefunded_accounts rogue_deposit_def lock_order_funds_def NUM_SYMBOLS_def
      checked_mul_def ob_simps Let_def)

lemma deposit_match:
  "aprocess abook_new ((im_order rogue_deposit)\<lparr>ord_id := 1\<rparr>) 4 =
     (abook_new\<lparr>ab_order_ctr := 2\<rparr>, [], Inr \<lparr>er_executed_qty = 0, er_remaining_qty = 5, er_stp_triggered = False\<rparr>)"
  by (simp add: rogue_deposit_def abook_new_def abook_run ob_simps restrict_map_def fun_eq_iff)

lemma deposit_replay:
  "replay_all [(im_order rogue_deposit)\<lparr>ord_id := 1\<rparr>] MultiAssetEngine_new [] prefunded =
     Some (MultiAssetEngine_new, deposit prefunded 1 100 0 5)"
proof -
  have r: "me_replay_order MultiAssetEngine_new ((im_order rogue_deposit)\<lparr>ord_id := 1\<rparr>) [] prefunded =
      Some (MultiAssetEngine_new, [], deposit prefunded 1 100 0 5, Inr ())"
    unfolding me_replay_order_def by (simp add: rogue_deposit_def order_type_of_def ob_simps)
  show ?thesis unfolding replay_all.simps r by simp
qed

text \<open>A client can send an order of the type that only the log should contain. Live, it locks margin that nothing
  ever releases, since its remainder neither rests nor is released, and the supply stays; a recovery from the log
  reads the same entry as a deposit and credits dollars and units that nobody brought in.\<close>

lemma replayed_deposit_mints:
  "\<exists>ex ex1 e risk. exchange_start None = Some ex \<and> handle_inbound ex rogue_deposit 0 = Some ex1 \<and>
     (\<exists>Bs. engine_rel True (ex_engine ex1) Bs \<and> (\<forall>s<NUM_SYMBOLS. resting_orders (Bs s) = [])) \<and>
     usd_held (ex_risk ex1) 1 = 500 \<and> usd_supply (ex_risk ex1) = start_usd \<and>
     replay_all (map fst (ex_wal ex1)) MultiAssetEngine_new [] prefunded = Some (e, risk) \<and>
     usd_supply risk = start_usd + 100 \<and> asset_supply risk 0 = start_assets 0 + 5"
proof -
  obtain ex where ex: "exchange_start None = Some ex" using exchange_start_eq by blast
  have e: "ex_risk ex = prefunded" "me_global_order_id_counter (ex_engine ex) = 1" "ex_wal ex = []"
    "engine_rel True (ex_engine ex) (\<lambda>_. abook_new)"
    using start_solvent [OF ex] ex by (auto simp: exchange_start_eq MultiAssetEngine_new_def solvent_def)
  let ?m = rogue_deposit
  have m: "im_client_id ?m = 4" "ord_symbol_id (im_order ?m) = 0" "ord_id (im_order ?m) = 0" "order_type_of (im_order ?m) \<noteq> Cancel"
    by (simp_all add: rogue_deposit_def ob_simps)
  have room: "level_room abook_new (im_order ?m)" by (simp add: rogue_deposit_def abook_new_def abook_check ob_simps)
  from accepted_turn [OF e(4,2) _ _ m(3,4), of deposit_accounts _ _ _ 0] obtain ex1 where ex1: "handle_inbound ex ?m 0 = Some ex1"
    "ex_risk ex1 = settled deposit_accounts ((im_order ?m)\<lparr>ord_id := 1\<rparr>) []
      (Inr \<lparr>er_executed_qty = 0, er_remaining_qty = 5, er_stp_triggered = False\<rparr>)"
    "ex_wal ex1 = [((im_order ?m)\<lparr>ord_id := 1\<rparr>, 0)]"
    "engine_rel True (ex_engine ex1) ((\<lambda>_. abook_new)(0 := abook_new\<lparr>ab_order_ctr := 2\<rparr>))"
    using m(1,2) room deposit_match deposit_lock by (auto simp: e NUM_SYMBOLS_def)
  have risk1: "ex_risk ex1 = deposit_accounts"
    by (simp add: ex1(2) risk_run rogue_deposit_def ob_simps)
  have "usd_held (ex_risk ex1) 1 = 500" "usd_supply (ex_risk ex1) = start_usd"
    unfolding risk1 deposit_accounts_def
    by (simp_all add: prefunded_accounts rogue_deposit_def lock_order_funds_def checked_mul_def ob_simps Let_def supply_run
        NUM_SYMBOLS_def start_usd_def)
  moreover have "replay_all (map fst (ex_wal ex1)) MultiAssetEngine_new [] prefunded =
      Some (MultiAssetEngine_new, deposit prefunded 1 100 0 5)"
    by (simp add: ex1(3) deposit_replay del: replay_all.simps)
  moreover have "usd_supply (deposit prefunded 1 100 0 5) = start_usd + 100"
    "asset_supply (deposit prefunded 1 100 0 5) 0 = start_assets 0 + 5"
    by (simp_all add: prefunded_accounts deposit_def supply_run NUM_SYMBOLS_def start_usd_def start_assets_def Let_def)
  moreover have "\<forall>s<NUM_SYMBOLS. resting_orders (((\<lambda>_. abook_new)(0 := abook_new\<lparr>ab_order_ctr := 2\<rparr>)) s) = []"
    by (simp add: resting_orders_def abook_new_def)
  ultimately show ?thesis using ex ex1(1,4) by blast
qed

section \<open>Orders that a full book refuses\<close>

text \<open>
  A book has room for 131072 orders and 4096 price levels. The orders that fill it are all purchases, so
  nothing is matched.
\<close>

text \<open>A purchase of one unit by user 1, at the price \<open>p\<close>.\<close>

definition bid :: "u64 \<Rightarrow> InboundMessage" where
  "bid p = \<lparr>im_order = new_client_limit 7 1 Btc Buy p 1, im_client_id = 3\<rparr>"

lemma bid_sel:
  "im_client_id (bid p) = 3" "ord_id (im_order (bid p)) = 0" "order_type_of (im_order (bid p)) = Limit"
  "ord_symbol_id (im_order (bid p)) = 0" "ord_side (im_order (bid p)) = Side_as Buy" "ord_qty (im_order (bid p)) = 1"
  "ord_price (im_order (bid p)) = p" "ord_user_id (im_order (bid p)) = 1" "get_order_type (im_order (bid p)) \<noteq> Some Cancel"
  by (simp_all add: bid_def ob_simps)

lemma bid_wf: "well_formed (im_order (bid p))"
  by (simp add: bid_def well_formed_def ob_simps)

lemma bid_lock:
  assumes "1 \<in> dom (re_accounts re)" "p \<noteq> 0" "unat p \<le> usd_free re 1"
  shows "\<exists>re'. lock_order_funds re (im_order (bid p)) = (re', Inr ()) \<and>
    1 \<in> dom (re_accounts re') \<and> usd_free re' 1 = usd_free re 1 - unat p \<and>
    (let re'' = unlock_cancelled_order_margin re' ((im_order (bid p))\<lparr>ord_id := c\<rparr>) 1 in
       1 \<in> dom (re_accounts re'') \<and> usd_free re'' 1 = usd_free re 1)"
proof -
  obtain a where a: "re_accounts re 1 = Some a" using assms(1) by auto
  have le: "p \<le> ac_usd_available a" using assms(3) a by (simp add: usd_free_def word_le_nat_alt)
  have m: "checked_mul p 1 = Some p" using unat_lt64 [of p] by (simp add: checked_mul_def)
  have "lock_order_funds re (im_order (bid p)) =
      (set_account re 1 (a\<lparr>ac_usd_available := ac_usd_available a - p, ac_usd_locked := ac_usd_locked a + p\<rparr>), Inr ())"
    using a le assms(2) m by (auto simp: lock_order_funds_def bid_def ob_simps Let_def NUM_SYMBOLS_def)
  with le checked_mul_sat_mul [OF m] a show ?thesis
    by (simp add: usd_free_def unat_sub unlock_cancelled_order_margin_def unlock_order_funds_def with_account_def bid_def
        ob_simps NUM_SYMBOLS_def)
qed

text \<open>With no asks a bid rests, if it can.\<close>

lemma aprocess_no_asks:
  assumes "ab_asks B = []" "order_type_of order = Limit" "ord_side order = Side_as Buy" "ord_qty order \<noteq> 0" "ord_id order \<noteq> 0"
  shows "aprocess B order cid =
    (case arest (B\<lparr>ab_order_ctr := max (ab_order_ctr B) (ord_id order + 1)\<rparr>) order cid False of
       (B', Inl e) \<Rightarrow> (B', [], Inl e)
     | (B', Inr _) \<Rightarrow> (B', [], Inr \<lparr>er_executed_qty = 0, er_remaining_qty = ord_qty order, er_stp_triggered = False\<rparr>))"
proof -
  have "asweep False Limit cid B' order = (B', order, [], False)" if "ab_asks B' = []" for B'
    using that by (cases B') (simp add: asweep_def aside_def set_aside_def restrict_map_def)
  with assms show ?thesis
    by (simp add: aprocess_def astamp_def sat_sub_def word_gt_0 split: prod.split sum.split)
qed

lemma arest_bid_eqs:
  "ab_free_orders B = 0 \<Longrightarrow> arest B order cid False = (B, Inl EngineFull)"
  "ab_free_orders B \<noteq> 0 \<Longrightarrow> ord_price order \<in> fst ` set (ab_bids B) \<Longrightarrow>
     arest B order cid False =
       (B\<lparr>ab_free_orders := ab_free_orders B - 1, ab_bids := append_level (ord_price order) (order, cid) (ab_bids B),
          ab_clients := (ab_clients B)((ord_user_id order, ord_client_order_id order) \<mapsto> ord_id order)\<rparr>, Inr ())"
  "ab_free_orders B \<noteq> 0 \<Longrightarrow> ord_price order \<notin> fst ` set (ab_bids B) \<Longrightarrow> ab_free_levels B \<noteq> 0 \<Longrightarrow>
     arest B order cid False =
       (B\<lparr>ab_free_orders := ab_free_orders B - 1, ab_bids := insert_level False (ord_price order) (order, cid) (ab_bids B),
          ab_clients := (ab_clients B)((ord_user_id order, ord_client_order_id order) \<mapsto> ord_id order),
          ab_free_levels := ab_free_levels B - 1\<rparr>, Inr ())"
  "ab_free_orders B \<noteq> 0 \<Longrightarrow> ord_price order \<notin> fst ` set (ab_bids B) \<Longrightarrow> ab_free_levels B = 0 \<Longrightarrow>
     arest B order cid False = (B\<lparr>ab_free_orders := ab_free_orders B - 1\<rparr>, Inl EngineFull)"
  by (simp_all add: arest_def Let_def aside_def set_aside_def)

lemma arest_bid:
  assumes "arest B order cid False = (B', r)" and free: "ab_free_orders B \<noteq> 0"
    and room: "ab_free_levels B \<noteq> 0 \<or> ord_price order \<in> fst ` set (ab_bids B)" and B: "abook_ok B"
  shows "r = Inr () \<and> ab_asks B' = ab_asks B \<and> length (flat (ab_bids B')) = Suc (length (flat (ab_bids B))) \<and>
    fst ` set (ab_bids B') = insert (ord_price order) (fst ` set (ab_bids B)) \<and>
    ab_free_orders B' = ab_free_orders B - 1 \<and>
    ab_free_levels B' = ab_free_levels B - (if ord_price order \<in> fst ` set (ab_bids B) then 0 else 1)"
proof (cases "ord_price order \<in> fst ` set (ab_bids B)")
  case True
  have "distinct (map fst (ab_bids B))"
    using B ladder_prices_distinct [of False "ab_bids B"] by (simp add: abook_ok_def all_bool_eq aside_def)
  from mset_append_level [OF this True, of "(order, cid)"]
  have "length (flat (append_level (ord_price order) (order, cid) (ab_bids B))) = Suc (length (flat (ab_bids B)))"
    by (metis size_add_mset size_mset)
  with arest_bid_eqs(2) [OF free True, of cid] assms(1) True show ?thesis by (auto simp: insert_absorb)
next
  case False
  have "length (flat (insert_level False (ord_price order) (order, cid) (ab_bids B))) = Suc (length (flat (ab_bids B)))"
    using mset_insert_level [of False "ord_price order" "(order, cid)" "ab_bids B"] by (metis size_add_mset size_mset)
  with arest_bid_eqs(3) [OF free False, of cid] assms(1) False room show ?thesis
    by (auto simp: set_insert_level_prices)
qed

lemma bid_turn:
  assumes S: "solvent ex Bs U A" and c: "me_global_order_id_counter (ex_engine ex) = c" "c \<noteq> - 1"
    and asks: "ab_asks (Bs 0) = []" and u: "1 \<in> dom (re_accounts (ex_risk ex))"
    and p: "p \<noteq> 0" "unat p \<le> usd_free (ex_risk ex) 1"
  obtains re ex' B' r where
    "lock_order_funds (ex_risk ex) (im_order (bid p)) = (re, Inr ())"
    "arest ((Bs 0)\<lparr>ab_order_ctr := max (ab_order_ctr (Bs 0)) (c + 1)\<rparr>) ((im_order (bid p))\<lparr>ord_id := c\<rparr>) 3 False = (B', r)"
    "handle_inbound ex (bid p) now = Some ex'" "admitted ex (bid p)" "books_after ex Bs (bid p) = Bs(0 := B')"
    "refused ex (im_order (bid p)) 3 \<longleftrightarrow> isl r" "me_global_order_id_counter (ex_engine ex') = c + 1"
    "ex_wal ex' = ex_wal ex @ [((im_order (bid p))\<lparr>ord_id := c\<rparr>, now)]"
    "1 \<in> dom (re_accounts (ex_risk ex'))"
    "usd_free (ex_risk ex') 1 = usd_free (ex_risk ex) 1 - (if isl r then 0 else unat p)"
proof -
  let ?o = "(im_order (bid p))\<lparr>ord_id := c\<rparr>"
  obtain re where L: "lock_order_funds (ex_risk ex) (im_order (bid p)) = (re, Inr ())"
    and re: "1 \<in> dom (re_accounts re)" "usd_free re 1 = usd_free (ex_risk ex) 1 - unat p"
      "1 \<in> dom (re_accounts (unlock_cancelled_order_margin re ?o 1))"
      "usd_free (unlock_cancelled_order_margin re ?o 1) 1 = usd_free (ex_risk ex) 1"
    using bid_lock [OF u p, of c] by (auto simp: Let_def)
  have c0: "c \<noteq> 0" using S c by (simp add: solvent_def)
  have nc: "order_type_of (im_order (bid p)) \<noteq> Cancel" by (simp add: bid_sel)
  have t: "order_type_of ?o = Limit" by (simp add: bid_def ob_simps)
  obtain B' r where R: "arest ((Bs 0)\<lparr>ab_order_ctr := max (ab_order_ctr (Bs 0)) (c + 1)\<rparr>) ?o 3 False = (B', r)"
    by (rule prod.exhaust)
  define r' where "r' = (case r of Inl e \<Rightarrow> Inl e | Inr _ \<Rightarrow> Inr \<lparr>er_executed_qty = 0, er_remaining_qty = 1, er_stp_triggered = False\<rparr>)"
  have o: "with_next_id ex (im_order (bid p)) = ?o" by (simp add: with_next_id_def c(1))
  have "aprocess (Bs 0) ?o 3 = (B', [], r')"
    using aprocess_no_asks [OF asks t, of 3] R c0 by (cases r) (simp_all add: bid_sel r'_def)
  then have A: "aprocess (Bs (unat (ord_symbol_id (im_order (bid p))))) (with_next_id ex (im_order (bid p))) 3 = (B', [], r')"
    by (simp add: bid_sel o)
  note run = order_run [OF S bid_wf nc _ L A]
  obtain ex' where H: "handle_inbound ex (bid p) now = Some ex'" "ex_risk ex' = settled re ?o [] r'"
    "me_global_order_id_counter (ex_engine ex') = c + 1" "ex_wal ex' = ex_wal ex @ [(?o, now)]"
    using run(1) [of now] c nc by (auto simp: handle_inbound_def bid_sel o)
  have "refused (ex\<lparr>ex_risk := re\<rparr>) (im_order (bid p)) 3 = refused ex (im_order (bid p)) 3"
    by (simp add: refused_def assign_id_def me_next_order_id_def)
  then have "refused ex (im_order (bid p)) 3 \<longleftrightarrow> isl r"
    using run(2) c by (cases r) (simp_all add: r'_def)
  moreover have "books_after ex Bs (bid p) = Bs(0 := B')"
    using A L by (simp add: books_after_def bid_sel order_books_def)
  moreover have "ex_risk ex' = (if isl r then unlock_cancelled_order_margin re ?o 1 else re)"
    by (cases r) (simp_all add: H(2) r'_def settled_def settle_all_def release_after_def bid_sel t)
  moreover have "admitted ex (bid p)" using c bid_wf by (simp add: admitted_def)
  ultimately show thesis using that [OF L R H(1)] H(3,4) re by (cases r) auto
qed

lemma of_nat_not_max: "n < 2 ^ 63 \<Longrightarrow> (of_nat n :: u64) \<noteq> - 1"
proof
  assume "n < 2 ^ 63" and "(of_nat n :: u64) = - 1"
  then have "(of_nat (Suc n) :: u64) = 0" by simp
  then have "2 ^ 64 dvd Suc n" by (simp only: word_of_nat_eq_0_iff) simp
  with \<open>n < 2 ^ 63\<close> show False by (auto dest: dvd_imp_le)
qed

text \<open>The exchange after \<open>n\<close> bids of one unit, at the prices \<open>p 0, \<dots>, p (n - 1)\<close>, none of them refused.\<close>

definition filled_with :: "(nat \<Rightarrow> u64) \<Rightarrow> nat \<Rightarrow> exchange \<Rightarrow> (nat \<Rightarrow> abook) \<Rightarrow> bool" where
  "filled_with p n ex Bs \<longleftrightarrow>
     recoverable ex \<and> solvent ex Bs start_usd start_assets \<and> recovers ex Bs \<and>
     me_global_order_id_counter (ex_engine ex) = of_nat (Suc n) \<and>
     ab_asks (Bs 0) = [] \<and> length (flat (ab_bids (Bs 0))) = n \<and> fst ` set (ab_bids (Bs 0)) = p ` {..<n} \<and>
     ab_free_orders (Bs 0) + n = MAX_ARENA_ORDERS \<and>
     ab_free_levels (Bs 0) + card (p ` {..<n}) = MAX_PRICE_LEVELS \<and>
     1 \<in> dom (re_accounts (ex_risk ex)) \<and> usd_free (ex_risk ex) 1 + (\<Sum>i<n. unat (p i)) = 10000000000"

lemma filled_step:
  assumes F: "filled_with p n ex Bs" and n: "Suc n \<le> MAX_ARENA_ORDERS"
    and lv: "card (p ` {..<Suc n}) \<le> MAX_PRICE_LEVELS" and p: "p n \<noteq> 0"
    and usd: "(\<Sum>i<Suc n. unat (p i)) \<le> 10000000000"
  shows "\<exists>ex' Bs'. filled_with p (Suc n) ex' Bs'"
proof -
  have S: "solvent ex Bs start_usd start_assets" and R: "recovers ex Bs" and rec: "recoverable ex"
    and c: "me_global_order_id_counter (ex_engine ex) = of_nat (Suc n)"
    and B: "ab_asks (Bs 0) = []" "fst ` set (ab_bids (Bs 0)) = p ` {..<n}" "length (flat (ab_bids (Bs 0))) = n"
    and free: "ab_free_orders (Bs 0) + n = MAX_ARENA_ORDERS" "ab_free_levels (Bs 0) + card (p ` {..<n}) = MAX_PRICE_LEVELS"
    and u: "1 \<in> dom (re_accounts (ex_risk ex))" "usd_free (ex_risk ex) 1 + (\<Sum>i<n. unat (p i)) = 10000000000"
    using F by (simp_all add: filled_with_def)
  have c1: "(of_nat (Suc n) :: u64) \<noteq> - 1" using n by (intro of_nat_not_max) (simp add: MAX_ARENA_ORDERS_def)
  have "unat (p n) \<le> usd_free (ex_risk ex) 1" using usd u(2) by simp
  then obtain re ex' B' r where
    A: "arest ((Bs 0)\<lparr>ab_order_ctr := max (ab_order_ctr (Bs 0)) (of_nat (Suc n) + 1)\<rparr>)
        ((im_order (bid (p n)))\<lparr>ord_id := of_nat (Suc n)\<rparr>) 3 False = (B', r)"
    and H: "handle_inbound ex (bid (p n)) 0 = Some ex'" and ad: "admitted ex (bid (p n))"
    and bs: "books_after ex Bs (bid (p n)) = Bs(0 := B')"
    and rf: "refused ex (im_order (bid (p n))) 3 \<longleftrightarrow> isl r"
    and c': "me_global_order_id_counter (ex_engine ex') = of_nat (Suc n) + 1"
    and u': "1 \<in> dom (re_accounts (ex_risk ex'))"
      "usd_free (ex_risk ex') 1 = usd_free (ex_risk ex) 1 - (if isl r then 0 else unat (p n))"
    by (rule bid_turn [OF S c c1 B(1) u(1) p])
  have new: "p n \<notin> p ` {..<n} \<Longrightarrow> card (p ` {..<Suc n}) = Suc (card (p ` {..<n}))" by (simp add: lessThan_Suc)
  then have "ab_free_levels (Bs 0) \<noteq> 0 \<or> p n \<in> p ` {..<n}" using lv free(2) by auto
  moreover have "abook_ok (Bs 0)" using S engine_relD(3) [of True "ex_engine ex" Bs 0] by (simp add: solvent_def NUM_SYMBOLS_def)
  ultimately have r: "r = Inr ()" "ab_asks B' = []" "fst ` set (ab_bids B') = p ` {..<Suc n}"
    and len: "length (flat (ab_bids B')) = Suc n" and r':
    "ab_free_orders B' = ab_free_orders (Bs 0) - 1"
    "ab_free_levels B' = ab_free_levels (Bs 0) - (if p n \<in> p ` {..<n} then 0 else 1)"
    using arest_bid [OF A] B free(1) n by (simp_all add: bid_sel lessThan_Suc)
  have nr: "\<not> refused ex (im_order (bid (p n))) (im_client_id (bid (p n)))" using rf r(1) by (simp add: bid_sel)
  have "solvent ex' (Bs(0 := B')) start_usd start_assets" using turn_solvent [OF S ad, of 0] H bs by simp
  moreover have "recovers ex' (Bs(0 := B'))" using turn_recovers [OF S R ad H] nr bs by simp
  moreover have "recoverable ex'" by (rule recoverable.turn [OF rec ad H]) (use nr in blast)
  moreover have "ab_free_levels B' + card (p ` {..<Suc n}) = MAX_PRICE_LEVELS"
    using r'(2) free(2) new lv by (cases "p n \<in> p ` {..<n}") (auto simp: lessThan_Suc insert_absorb)
  moreover have "ab_free_orders B' + Suc n = MAX_ARENA_ORDERS" using r'(1) free(1) n by simp
  moreover have "usd_free (ex_risk ex') 1 + (\<Sum>i<Suc n. unat (p i)) = 10000000000" using u(2) u'(2) r(1) usd by simp
  ultimately show ?thesis using c' r(2,3) u'(1) len unfolding filled_with_def by (intro exI [of _ ex'] exI [of _ "Bs(0 := B')"]) simp
qed

lemma fill_book:
  "n \<le> MAX_ARENA_ORDERS \<Longrightarrow> card (p ` {..<n}) \<le> MAX_PRICE_LEVELS \<Longrightarrow> (\<forall>i<n. p i \<noteq> 0) \<Longrightarrow>
     (\<Sum>i<n. unat (p i)) \<le> 10000000000 \<Longrightarrow> \<exists>ex Bs. filled_with p n ex Bs"
proof (induction n)
  case 0
  obtain ex where ex: "exchange_start None = Some ex" using exchange_start_eq by blast
  have "recovers ex (\<lambda>_. abook_new)"
    using ex engine_new_rel by (auto simp: exchange_start_eq recovers_def)
  with start_solvent [OF ex] recoverable.start [OF ex] ex have "filled_with p 0 ex (\<lambda>_. abook_new)"
    by (auto simp: filled_with_def abook_new_def exchange_start_eq MultiAssetEngine_new_def prefunded_accounts usd_free_def)
  then show ?case by blast
next
  case (Suc n)
  have "card (p ` {..<n}) \<le> card (p ` {..<Suc n})" by (intro card_mono) (auto simp: lessThan_Suc)
  with Suc.IH Suc.prems obtain ex Bs where "filled_with p n ex Bs" by fastforce
  from filled_step [OF this] Suc.prems show ?case by blast
qed

text \<open>C40. Refused orders and the log: live, the margin of an order that a full book refuses is released, but a
  recovery from the log, in which the order stands, locks it again and keeps it. There is such a state of the
  exchange, reached by orders within the scope of the invariant.\<close>

theorem refused_margin_lost:
  "\<exists>ex ex' e risk. recoverable ex \<and> admitted ex (bid 1) \<and> handle_inbound ex (bid 1) 0 = Some ex' \<and>
     usd_held (ex_risk ex') 1 = usd_held (ex_risk ex) 1 \<and>
     replay_all (map fst (ex_wal ex')) MultiAssetEngine_new [] prefunded = Some (e, risk) \<and>
     usd_held risk 1 = usd_held (ex_risk ex') 1 + 1"
proof -
  let ?n = MAX_ARENA_ORDERS and ?p = "\<lambda>_. 1 :: u64"
  have "?p ` {..<?n} = {1}" unfolding image_constant_conv lessThan_empty_iff by (simp add: MAX_ARENA_ORDERS_def bot_nat_def)
  then obtain ex Bs where F: "filled_with ?p ?n ex Bs"
    using fill_book [of ?n ?p] by (auto simp: MAX_ARENA_ORDERS_def MAX_PRICE_LEVELS_def)
  then have S: "solvent ex Bs start_usd start_assets" and R: "recovers ex Bs" and rec: "recoverable ex"
    and c: "me_global_order_id_counter (ex_engine ex) = of_nat (Suc ?n)"
    and B: "ab_asks (Bs 0) = []" "ab_free_orders (Bs 0) = 0"
    and u: "1 \<in> dom (re_accounts (ex_risk ex))" "unat (1 :: u64) \<le> usd_free (ex_risk ex) 1"
    by (simp_all add: filled_with_def MAX_ARENA_ORDERS_def)
  let ?o = "(im_order (bid 1))\<lparr>ord_id := of_nat (Suc ?n)\<rparr>"
  have c1: "(of_nat (Suc ?n) :: u64) \<noteq> - 1" by (rule of_nat_not_max) (simp add: MAX_ARENA_ORDERS_def)
  obtain re ex' B' r where L: "lock_order_funds (ex_risk ex) (im_order (bid 1)) = (re, Inr ())"
    and A: "arest ((Bs 0)\<lparr>ab_order_ctr := max (ab_order_ctr (Bs 0)) (of_nat (Suc ?n) + 1)\<rparr>) ?o 3 False = (B', r)"
    and H: "handle_inbound ex (bid 1) 0 = Some ex'" and ad: "admitted ex (bid 1)"
    and bs: "books_after ex Bs (bid 1) = Bs(0 := B')" and wal: "ex_wal ex' = ex_wal ex @ [(?o, 0)]"
    by (rule bid_turn [OF S c c1 B(1) u(1) one_neq_zero u(2)])
  have r: "r = Inl EngineFull" "B' = (Bs 0)\<lparr>ab_order_ctr := max (ab_order_ctr (Bs 0)) (of_nat (Suc ?n) + 1)\<rparr>"
    using arest_bid_eqs(1) [of "(Bs 0)\<lparr>ab_order_ctr := max (ab_order_ctr (Bs 0)) (of_nat (Suc ?n) + 1)\<rparr>" ?o 3] A B(2) by simp_all
  have nc: "order_type_of (im_order (bid 1)) \<noteq> Cancel" "ord_id ?o \<noteq> 0" using c S by (simp_all add: bid_sel solvent_def)
  have t: "order_type_of ?o = Limit" by (simp add: bid_def ob_simps)
  have "aprocess (Bs 0) ?o 3 = (B', [], Inl EngineFull)"
    using aprocess_no_asks [OF B(1) t _ _ nc(2), of 3] A r(1) by (simp add: bid_sel)
  then have A': "aprocess (Bs (unat (ord_symbol_id (im_order (bid 1))))) (with_next_id ex (im_order (bid 1))) 3 = (B', [], Inl EngineFull)"
    by (simp add: bid_sel with_next_id_def c)
  obtain e0 where e0: "replay_all (map fst (ex_wal ex)) MultiAssetEngine_new [] prefunded = Some (e0, ex_risk ex)"
    "engine_rel True e0 (\<lambda>s. anon (Bs s))" "me_global_order_id_counter e0 = me_global_order_id_counter (ex_engine ex)"
    using R by (auto simp: recovers_def)
  obtain e2 where "\<And>tr. \<exists>tr' q. me_replay_order e0 ?o tr (ex_risk ex) = Some (e2, tr', re, q)"
    using replay_logged_order [OF S bid_wf nc(1) _ L A' e0(2,3)] c c1 by (auto simp: replayed_def with_next_id_def)
  from replay_snoc [OF e0(1) this]
  have "replay_all (map fst (ex_wal ex')) MultiAssetEngine_new [] prefunded = Some (e2, re)" by (simp add: wal)
  moreover have "solvent ex' (Bs(0 := B')) start_usd start_assets" using turn_solvent [OF S ad, of 0] H bs by simp
  then have "usd_held (ex_risk ex') 1 = usd_margin (Bs(0 := B')) 1" "usd_held (ex_risk ex) 1 = usd_margin Bs 1"
    using S by (simp_all add: solvent_def funds_ok_def)
  moreover have "usd_margin (Bs(0 := B')) 1 = usd_margin Bs 1"
    by (rule margin_same_bids) (simp_all add: r(2) NUM_SYMBOLS_def)
  moreover have "usd_held re 1 = usd_margin Bs 1 + 1"
    using locked_funds(3) [OF S nc(1) L] by (simp add: funds_ok_def usd_need_def bid_sel)
  ultimately show ?thesis using rec ad H by auto
qed

text \<open>
  A book with all its price levels in use: an order at a further price takes an arena node before it finds
  that no level is free, and the node is not given back.
\<close>

definition no_level_left :: "nat \<Rightarrow> exchange \<Rightarrow> (nat \<Rightarrow> abook) \<Rightarrow> bool" where
  "no_level_left k ex Bs \<longleftrightarrow>
     reachable ex \<and> solvent ex Bs start_usd start_assets \<and>
     me_global_order_id_counter (ex_engine ex) = of_nat (Suc (MAX_PRICE_LEVELS + k)) \<and>
     ab_asks (Bs 0) = [] \<and> length (flat (ab_bids (Bs 0))) = MAX_PRICE_LEVELS \<and>
     5000 \<notin> fst ` set (ab_bids (Bs 0)) \<and> ab_free_levels (Bs 0) = 0 \<and>
     ab_free_orders (Bs 0) + MAX_PRICE_LEVELS + k = MAX_ARENA_ORDERS \<and>
     1 \<in> dom (re_accounts (ex_risk ex)) \<and> 5000 \<le> usd_free (ex_risk ex) 1"

lemma node_lost:
  assumes N: "no_level_left k ex Bs" and k: "MAX_PRICE_LEVELS + Suc k \<le> MAX_ARENA_ORDERS"
  shows "\<exists>ex' Bs'. no_level_left (Suc k) ex' Bs'"
proof -
  let ?c = "of_nat (Suc (MAX_PRICE_LEVELS + k)) :: u64"
  have S: "solvent ex Bs start_usd start_assets" and rec: "reachable ex"
    and c: "me_global_order_id_counter (ex_engine ex) = ?c"
    and B: "ab_asks (Bs 0) = []" "5000 \<notin> fst ` set (ab_bids (Bs 0))" "ab_free_levels (Bs 0) = 0"
    and free: "ab_free_orders (Bs 0) + MAX_PRICE_LEVELS + k = MAX_ARENA_ORDERS"
    and u: "1 \<in> dom (re_accounts (ex_risk ex))" "unat (5000 :: u64) \<le> usd_free (ex_risk ex) 1"
    using N by (simp_all add: no_level_left_def)
  have c1: "?c \<noteq> - 1" by (rule of_nat_not_max) (use k in \<open>simp add: MAX_ARENA_ORDERS_def\<close>)
  have p: "(5000 :: u64) \<noteq> 0" by simp
  obtain re ex' B' r where
    A: "arest ((Bs 0)\<lparr>ab_order_ctr := max (ab_order_ctr (Bs 0)) (?c + 1)\<rparr>) ((im_order (bid 5000))\<lparr>ord_id := ?c\<rparr>) 3 False = (B', r)"
    and H: "handle_inbound ex (bid 5000) 0 = Some ex'" and ad: "admitted ex (bid 5000)"
    and bs: "books_after ex Bs (bid 5000) = Bs(0 := B')"
    and c': "me_global_order_id_counter (ex_engine ex') = ?c + 1" and u': "1 \<in> dom (re_accounts (ex_risk ex'))"
      "usd_free (ex_risk ex') 1 = usd_free (ex_risk ex) 1 - (if isl r then 0 else unat (5000 :: u64))"
    by (rule bid_turn [OF S c c1 B(1) u(1) p u(2)])
  let ?B = "(Bs 0)\<lparr>ab_order_ctr := max (ab_order_ctr (Bs 0)) (?c + 1)\<rparr>"
  have "ab_free_orders ?B \<noteq> 0" using free k by simp
  from arest_bid_eqs(4) [OF this, of "(im_order (bid 5000))\<lparr>ord_id := ?c\<rparr>" 3] A B
  have r: "r = Inl EngineFull" "B' = ?B\<lparr>ab_free_orders := ab_free_orders (Bs 0) - 1\<rparr>" by (simp_all add: bid_sel)
  have "solvent ex' (Bs(0 := B')) start_usd start_assets" using turn_solvent [OF S ad, of 0] H bs by simp
  moreover have "ab_free_orders B' + MAX_PRICE_LEVELS + Suc k = MAX_ARENA_ORDERS" using free k r(2) by simp
  ultimately have "no_level_left (Suc k) ex' (Bs(0 := B'))"
    using N c' u' r reachable.turn [OF rec ad H] unfolding no_level_left_def by simp
  then show ?thesis by blast
qed

text \<open>A full book decays: with all 4096 price levels in use, every refused order takes a node of the arena
  away for good. Orders within the scope of the invariant lead to a book in which 4096 orders rest and not one
  of the 131072 nodes is free.\<close>

lemma refused_orders_exhaust_arena:
  "\<exists>ex Bs. reachable ex \<and> engine_rel True (ex_engine ex) Bs \<and>
     length (resting_orders (Bs 0)) = 4096 \<and> ab_free_orders (Bs 0) = 0"
proof -
  let ?p = "\<lambda>i. of_nat (Suc i) :: u64"
  have small: "unat (?p i) = Suc i" if "i < MAX_PRICE_LEVELS" for i
    using that by (simp add: unat_of_nat MAX_PRICE_LEVELS_def take_bit_nat_eq_self del: of_nat_Suc)
  have inj: "inj_on ?p {..<MAX_PRICE_LEVELS}"
    by (rule inj_onI) (metis lessThan_iff small Suc_inject)
  have "(\<Sum>i<MAX_PRICE_LEVELS. unat (?p i)) \<le> (\<Sum>i<MAX_PRICE_LEVELS. MAX_PRICE_LEVELS)"
    by (rule sum_mono) (use small in auto)
  then have usd: "(\<Sum>i<MAX_PRICE_LEVELS. unat (?p i)) \<le> 9999990000" by (simp add: MAX_PRICE_LEVELS_def del: of_nat_Suc)
  have np: "\<forall>i<MAX_PRICE_LEVELS. ?p i \<noteq> 0" using small by (metis Zero_not_Suc unat_0)
  have "card (?p ` {..<MAX_PRICE_LEVELS}) = MAX_PRICE_LEVELS" using card_image [OF inj] by simp
  moreover obtain ex Bs where "filled_with ?p MAX_PRICE_LEVELS ex Bs"
    using fill_book [of MAX_PRICE_LEVELS ?p] calculation np usd by (auto simp: MAX_ARENA_ORDERS_def MAX_PRICE_LEVELS_def)
  moreover have "(5000 :: u64) \<notin> ?p ` {..<MAX_PRICE_LEVELS}"
  proof
    assume "(5000 :: u64) \<in> ?p ` {..<MAX_PRICE_LEVELS}"
    then obtain i where i: "i < MAX_PRICE_LEVELS" "(5000 :: u64) = ?p i" by blast
    have "unat (5000 :: u64) = Suc i" unfolding i(2) by (rule small [OF i(1)])
    with i(1) show False by (simp add: MAX_PRICE_LEVELS_def)
  qed
  ultimately have N0: "no_level_left 0 ex Bs"
    using usd recoverable_reachable unfolding filled_with_def no_level_left_def by simp
  have "\<exists>ex Bs. no_level_left k ex Bs" if "MAX_PRICE_LEVELS + k \<le> MAX_ARENA_ORDERS" for k
    using that
  proof (induction k)
    case 0
    show ?case using N0 by blast
  next
    case (Suc k)
    then show ?case using node_lost by fastforce
  qed
  from this [of "MAX_ARENA_ORDERS - MAX_PRICE_LEVELS"] obtain ex' Bs' where
    "no_level_left (MAX_ARENA_ORDERS - MAX_PRICE_LEVELS) ex' Bs'" by (auto simp: MAX_ARENA_ORDERS_def MAX_PRICE_LEVELS_def)
  then show ?thesis
    by (intro exI [of _ ex'] exI [of _ Bs'])
      (simp add: no_level_left_def solvent_def resting_orders_def MAX_PRICE_LEVELS_def MAX_ARENA_ORDERS_def)
qed

end
