(* ===== verification/Spec2Isabelle.thy ===== *)
theory Spec2Isabelle
  imports Book_Props Component_Props Risk_Props Quotes Threads Market_Maker Telemetry Defects
begin

text \<open>
  A verification development for the ultra-low-latency order book simulator, a Rust crate (\<open>src/\<close>)
  with an exchange server, a benchmark and a market-making client.

  \<^bold>\<open>The program.\<close> Clients send 48-byte orders over TCP. The gateway frames them, checks the protocol
  magic and takes the exchange id out of the clients' hands. One engine thread owns all trading state: for
  each message it reserves margin in the risk engine, assigns an id, hands the order to the logger thread,
  acknowledges it, matches it in the book of its symbol, settles the trades in the risk engine and
  publishes executions and quotes. A book keeps its orders and price levels in two pre-allocated arenas,
  linked into FIFO queues and price ladders, and finds them through three open-addressing hash indices.
  The logger writes CRC-protected records through a buffer and syncs when its queue runs empty; after a
  crash the engine replays them. The dispatcher passes events on to the connections without waiting for
  slow ones. Latencies go to a histogram.

  \<^bold>\<open>The model\<close>, bottom up; each theory says more in its own introduction.

  \<^item> \<open>OB_Prelude\<close>: machine integers with Rust's saturating and checked operations, vectors with checked
    indices, doubly linked segments. \<open>OB_Types\<close> (\<open>types.rs\<close>): enums, \<open>Order\<close>, \<open>ServerMessage\<close>,
    \<open>Trade\<close>, the endianness of the wire and the memory image of an integer.
  \<^item> \<open>Hash_Index\<close>: open addressing with linear probing and backward-shift deletion, proved once in the
    locale \<open>open_index\<close>; \<open>Fast_Indices\<close> interprets it for \<open>FastOrderIndex\<close>, \<open>FastPriceIndex\<close> and
    \<open>FastClientIndex\<close>. \<open>Arenas\<close>: \<open>OrderArena\<close> and \<open>PriceLevelArena\<close>, two interpretations of \<open>free_list\<close>.
    \<open>Level_Queue\<close>: \<open>push_order\<close>, \<open>pop_order\<close>, \<open>unlink_order\<close> on the linked nodes (all \<open>book.rs\<close>).
  \<^item> \<open>Order_Book\<close>: \<open>OrderBook\<close> as the code has it (\<open>process\<close>, \<open>match_level\<close>, \<open>cancel_order\<close>,
    \<open>link_price_level\<close>, \<open>unlink_price_level\<close>, \<open>get_bbo\<close>, \<open>get_depth\<close>). \<open>Book_Spec\<close>: the same book as two
    sorted ladders of lists. Between the two stands the simulation \<open>book_rel\<close>, built up in
    \<open>Level_Match\<close> (matching one level), \<open>Ladders\<close> (the linked price levels), \<open>Book_State\<close> (the invariant of
    the whole book and the sweep), \<open>Book_Rest\<close>, \<open>Book_Cancel\<close> and \<open>Book_Refine\<close> (the simulation of each
    operation). \<open>Book_Props\<close>: the guarantees of a book, proved for every implementation of the specification
    (locales \<open>book_impl\<close>, \<open>quoted_book\<close>) and interpreted on the code's.
  \<^item> \<open>Risk\<close> (\<open>risk.rs\<close>) with its supply invariant \<open>funds_ok\<close>, \<open>Engine\<close> (\<open>MultiAssetEngine\<close>),
    \<open>Gateway\<close> (\<open>gateway.rs\<close>; the laws of byte casts are \<open>pod_codec\<close> and \<open>wire_codec\<close>), \<open>Wal\<close> (\<open>wal.rs\<close> and
    the logger thread; the casts are the parameter \<open>wal_casts\<close> with the laws \<open>wal_format\<close>), \<open>Metrics\<close>
    (\<open>metrics.rs\<close>).
  \<^item> \<open>Exchange\<close> (\<open>bin/exchange.rs\<close>): start-up with replay, a whole turn of the engine thread
    (\<open>handle_inbound\<close>), the dispatcher (\<open>on_outbound\<close>, \<open>on_connection\<close>). \<open>Threads\<close>: the threads and their
    bounded queues under any scheduler, as the step relation \<open>pstep\<close>; its steps begin when the engine thread has
    started and the log is open, and \<open>start_race\<close> shows that the engine starts the same whatever it finds of a log file
    being created. \<open>Telemetry\<close>: the engine thread's loop
    with its latency histograms and periodic reports. \<open>Bench\<close> (\<open>bin/bench.rs\<close>) and
    \<open>Market_Maker\<close> (\<open>bin/market_maker.rs\<close>, random numbers behind the interface \<open>random_source\<close>).

  \<^bold>\<open>What is proved.\<close>

  \<^item> Containers (\<open>Component_Props\<close>): any sequence of operations of the order index, the order arena and a
    level's queue behaves as a finite map, a stack and a FIFO list; no probe loop or list walk diverges.
  \<^item> Matching (\<open>Book_Props\<close>): \<open>ob_process\<close> refines the specification and never gets stuck; price-time
    priority, conservation of quantity, limits and self-trade prevention, uncrossed quotes, exact depth,
    consecutive match ids, exact cancellation; a refused request traded nothing and left the quotes, the
    depth and every resting order as they were.
  \<^item> Money (\<open>Risk_Props\<close>, \<open>Solvency\<close>, \<open>Quotes\<close>), within the scope below: in every state the exchange reaches, the
    supply of every currency is what was deposited and the locked funds are exactly what the resting orders need;
    every turn ends; published totals do not overflow.
  \<^item> Every message (\<open>Service\<close>): a turn on anything the gateway lets through ends, whatever its type, side or symbol, and
    leaves one of four traces (\<open>turn_of\<close>): an answer to the sender first, one log entry unless it is a rejection.
  \<^item> Durability (\<open>Wal\<close>, \<open>Recovery\<close>, \<open>Threads\<close>): the table-driven CRC-32 is the polynomial division and
    exposes damage; a crash leaves a prefix of the log; within the scope below, replaying it rebuilds accounts and books.
  \<^item> Concurrency and messages (\<open>Threads\<close>, \<open>Pipeline\<close>, \<open>Gateway\<close>, \<open>Market_Maker\<close>): the queues neither lose
    nor reorder anything; on any messages the gateway lets through no schedule deadlocks, and when the traffic stops the
    process works everything off in finitely many steps and leaves every message answered, logged and synced; clients do
    not disturb each other, and a client counts exactly what was reported to it.
  \<^item> Measurements (\<open>Metrics\<close>, \<open>Bench\<close>): percentiles within 1/32, an exact summary; the
    telemetry does not change what the engine does and reports every 10000 orders; a valid order stream for
    the benchmark, whose whole run completes.
  \<^item> Defects, stated as theorems: a market buy filled below its budget is refunded twice
    (\<open>market_refund_creates_usd\<close>), a torn log tail hides all later records (\<open>wal_torn_tail_hides\<close>), an
    acknowledgement can precede the log (\<open>ack_before_log\<close>); and, in \<open>Defects\<close>, orders outside the scope of the
    invariant: an unknown side byte (\<open>side_byte_mints\<close>), an order of type \<open>Deposit\<close> (\<open>replayed_deposit_mints\<close>),
    and orders refused by a full book, whose margin a replay does not release (\<open>refused_margin_lost\<close>) and whose
    nodes are lost (\<open>refused_orders_exhaust_arena\<close>).

  \<^bold>\<open>Scope of the exchange's invariant.\<close> \<open>admitted\<close> (theory \<open>Solvency\<close>) names the messages it is about:
  cancels, limit orders and market sales with a valid side and no exchange id. Market buys, orders of type
  \<open>Deposit\<close>, which the code matches without a limit and replays as deposits, and invalid sides are left out
  because they break it (above). Orders that a full book refuses are within it: \<open>EngineFull\<close> never follows a
  trade. \<open>reachable\<close> is a run of such messages from a start without a log, and so not every state of the program: the
  market maker's own market buys lead out of it. \<open>recoverable\<close> (theory \<open>Recovery\<close>) leaves out the refused orders as well,
  which replay treats differently (above), and the theorems on recovery are about a log file that the run itself has
  created, since an older one may end in a torn record (above). What does not depend on the accounts is proved of all
  messages: the book, the queues, liveness and the trace of a turn. Ids are assumed not to run out (\<open>2^64\<close> orders).

  \<^bold>\<open>Conventions.\<close> A \<open>u64\<close> is a \<open>64 word\<close>: arithmetic wraps, as in the release profile (\<open>panic = abort\<close>, no
  overflow checks). A \<open>Result\<close> is a sum with the error on the left. A function that can panic or diverge
  has an \<open>option\<close> result, and \<open>None\<close> is such a run; the probe loops, the ladder walk and the match loops
  are \<open>partial_function (option)\<close>, without fuel, so that termination is part of every theorem of the form
  \<open>f x = Some y\<close>. The sizes are the code's: \<open>2^18\<close> and \<open>2^13\<close> slots, 131072 orders, 4096 levels, queues of
  100000 and 1024, a 64 KiB write buffer, 544 buckets.

  \<^bold>\<open>Not modelled.\<close> Sockets, task spawning and the accept loop beyond its ids; the clock and the latencies
  (arguments of the functions that use them); floating point (the rank of a percentile and the
  throughput are parameters of \<open>Metrics\<close>); the alignment check of \<open>bytemuck::from_bytes\<close>, which panics when a byte
  buffer on the stack does not happen to be aligned for the struct read from it (the casts are total parameters here);
  disk errors, which the code ignores or answers by ending the
  thread; the debug profile, whose overflow checks panic; printing;
  \<open>lib.rs\<close>, which only declares modules; the tests.
\<close>

end
